(* ===== verification/Oam_Prelude.thy ===== *)
theory Oam_Prelude
  imports Main "HOL-Library.Word" "HOL-Library.Product_Lexorder" "HOL-Library.AList"
    "HOL-Library.Multiset" "HOL-Library.Sublist"
begin

text \<open>
  Shared vocabulary of the development.

  \<^item> Machine integers: \<open>u8\<close>, \<open>u16\<close>, \<open>u32\<close>, \<open>u64\<close> are words of their width. A Rust
    \<open>Instant\<close> or \<open>Duration\<close> is a number of nanoseconds (\<open>nat\<close>).
  \<^item> Bytes of text protocols (\<open>&[u8]\<close>, \<open>&str\<close>) are \<open>char\<close>s, which HOL makes exactly the 256
    byte values; bytes that take part in arithmetic are \<open>u8\<close>.
  \<^item> A Rust \<open>HashMap\<close> is an association list with distinct keys (the order of its entries is
    never observed by the code); the contract is the locale \<open>hash_table\<close>.
  \<^item> A \<open>BinaryHeap\<close> of reversed tuples is a list in ascending order; the contract is the locale
    \<open>min_queue\<close>.
  \<^item> \<open>Result<T, E>\<close> is \<open>'e + 'a\<close>, \<open>Inl\<close> the error, and \<open>?\<close> is \<open>rbind\<close>.
\<close>

type_synonym u8 = "8 word"
type_synonym u16 = "16 word"
type_synonym u32 = "32 word"
type_synonym u64 = "64 word"
type_synonym instant = nat
type_synonym duration = nat

lemma unat_u32_lt: "unat (i :: u32) < 2 ^ 32"
  using unsigned_less [of i] by simp

lemma unat_u8_lt: "unat (b :: u8) < 2 ^ 8"
  using unsigned_less [of b] by simp

text \<open>Removing elements of a list keeps its order and its distinctness.\<close>

lemma subseq_set: "subseq xs ys \<Longrightarrow> set xs \<subseteq> set ys"
  by (induction rule: list_emb.induct) auto

lemma subseq_sorted: "subseq xs ys \<Longrightarrow> sorted ys \<Longrightarrow> sorted xs"
  by (induction rule: list_emb.induct) (auto dest: subseq_set)

lemma subseq_distinct: "subseq xs ys \<Longrightarrow> distinct ys \<Longrightarrow> distinct xs"
  by (induction rule: list_emb.induct) (auto dest: subseq_set)

lemma subseq_Cons_tail: "subseq xs (x # xs)"
  by (rule list_emb_Cons) simp

lemma subseq_tl: "subseq (tl xs) xs"
  by (cases xs) auto

lemma subseq_dropWhile: "subseq (dropWhile P xs) xs"
  by (simp add: suffix_dropWhile suffix_imp_subseq)

lemma subseq_insort_tail:
  assumes "sorted (x # xs)"
  shows "subseq (insort n xs) (insort n (x # xs))"
proof (cases "n \<le> x")
  case True
  then have "insort n xs = n # xs"
    using assms by (intro insort_is_Cons) auto
  then show ?thesis
    using True by (simp add: subseq_Cons_tail)
qed (simp add: subseq_Cons_tail)

lemma filter_mset_emptyD: "filter_mset P M = {#} \<Longrightarrow> y \<in># M \<Longrightarrow> \<not> P y"
  using set_mset_filter [of P M] by auto

named_theorems table_simps "what a lookup gives after an update of a table"

section \<open>Hash tables\<close>

locale hash_table =
  fixes get :: "'m \<Rightarrow> 'k \<Rightarrow> 'v option"
    and put :: "'k \<Rightarrow> 'v \<Rightarrow> 'm \<Rightarrow> 'm"
    and del :: "'k \<Rightarrow> 'm \<Rightarrow> 'm"
    and size_of :: "'m \<Rightarrow> nat"
    and ok :: "'m \<Rightarrow> bool"
  assumes get_put: "get (put k v m) k' = (if k' = k then Some v else get m k')"
    and get_del: "get (del k m) k' = (if k' = k then None else get m k')"
    and ok_put: "ok m \<Longrightarrow> ok (put k v m)"
    and ok_del: "ok m \<Longrightarrow> ok (del k m)"
    and finite_keys: "finite {k. get m k \<noteq> None}"
    and size_of: "ok m \<Longrightarrow> size_of m = card {k. get m k \<noteq> None}"
begin

lemma keys_put: "{k'. get (put k v m) k' \<noteq> None} = insert k {k'. get m k' \<noteq> None}"
  by (auto simp: get_put)

lemma keys_del: "{k'. get (del k m) k' \<noteq> None} = {k'. get m k' \<noteq> None} - {k}"
  by (auto simp: get_del)

lemma size_put:
  assumes "ok m"
  shows "size_of (put k v m) = (if get m k = None then Suc (size_of m) else size_of m)"
proof -
  have "size_of (put k v m) = card (insert k {k'. get m k' \<noteq> None})"
    using size_of [OF ok_put [OF assms]] by (simp only: keys_put)
  then show ?thesis
    using size_of [OF assms] finite_keys [of m] by (simp only: card_insert_if) auto
qed

lemma size_del:
  assumes "ok m"
  shows "size_of (del k m) = (if get m k = None then size_of m else size_of m - 1)"
proof -
  have "size_of (del k m) = card ({k'. get m k' \<noteq> None} - {k})"
    using size_of [OF ok_del [OF assms]] by (simp only: keys_del)
  then show ?thesis
    using size_of [OF assms] finite_keys [of m] by (simp only: card_Diff_singleton_if) auto
qed

lemma size_pos: "ok m \<Longrightarrow> get m k \<noteq> None \<Longrightarrow> 0 < size_of m"
  using finite_keys [of m] by (auto simp: size_of card_gt_0_iff)

end

lemma map_of_keys: "{k. map_of m k \<noteq> None} = fst ` set m"
  by (metis (mono_tags) Collect_cong dom_def dom_map_of_conv_image_fst)

lemma map_of_AList_update [table_simps]:
  "map_of (AList.update k v m) k' = (if k' = k then Some v else map_of m k')"
  by (simp add: update_conv')

lemma map_of_AList_delete [table_simps]:
  "map_of (AList.delete k m) k' = (if k' = k then None else map_of m k')"
  by (simp add: delete_conv')

interpretation al: hash_table "map_of" "AList.update" "AList.delete" "length"
  "\<lambda>m. distinct (map fst m)"
proof unfold_locales
  fix m :: "('a \<times> 'b) list"
  assume "distinct (map fst m)"
  then show "length m = card {k. map_of m k \<noteq> None}"
    by (metis map_of_keys list.set_map length_map distinct_card)
next
  fix m :: "('a \<times> 'b) list"
  show "finite {k. map_of m k \<noteq> None}"
    by (simp only: map_of_keys finite_imageI finite_set)
qed (auto simp: table_simps distinct_update distinct_delete)

section \<open>Priority queues\<close>

locale min_queue =
  fixes push :: "'a::linorder \<Rightarrow> 'q \<Rightarrow> 'q"
    and peek :: "'q \<Rightarrow> 'a option"
    and pop :: "'q \<Rightarrow> 'q"
    and retain :: "('a \<Rightarrow> bool) \<Rightarrow> 'q \<Rightarrow> 'q"
    and elems :: "'q \<Rightarrow> 'a multiset"
    and ok :: "'q \<Rightarrow> bool"
  assumes elems_push: "elems (push x q) = add_mset x (elems q)"
    and peek_None: "peek q = None \<longleftrightarrow> elems q = {#}"
    and peek_Some: "ok q \<Longrightarrow> peek q = Some x \<Longrightarrow> x \<in># elems q \<and> (\<forall>y \<in># elems q. x \<le> y)"
    and elems_pop: "peek q = Some x \<Longrightarrow> elems q = add_mset x (elems (pop q))"
    and elems_retain: "elems (retain P q) = filter_mset P (elems q)"
    and ok_push: "ok q \<Longrightarrow> ok (push x q)"
    and ok_pop: "ok q \<Longrightarrow> ok (pop q)"
    and ok_retain: "ok q \<Longrightarrow> ok (retain P q)"
begin

lemma pop_keeps_live:
  "peek q = Some x \<Longrightarrow> \<not> P x \<Longrightarrow> filter_mset P (elems (pop q)) = filter_mset P (elems q)"
  by (simp add: elems_pop [of q x])

lemma peek_is_least_live:
  assumes "ok q" "peek q = Some x" "P x"
  shows "x \<in># filter_mset P (elems q) \<and> (\<forall>y \<in># filter_mset P (elems q). x \<le> y)"
  using peek_Some [OF assms(1,2)] assms(3) by auto

lemma size_pop: "peek q = Some x \<Longrightarrow> size (elems (pop q)) < size (elems q)"
  by (simp add: elems_pop [of q x])

end

text \<open>
  The binary heap as a list in ascending order: \<open>push\<close>, \<open>peek\<close>, \<open>pop\<close> and \<open>retain\<close> of
  \<open>std::collections::BinaryHeap\<close> over reversed keys.
\<close>

definition heap_push :: "'a::linorder \<Rightarrow> 'a list \<Rightarrow> 'a list" where
  "heap_push x h = insort x h"

definition heap_peek :: "'a list \<Rightarrow> 'a option" where
  "heap_peek h = (case h of [] \<Rightarrow> None | x # _ \<Rightarrow> Some x)"

definition heap_pop :: "'a list \<Rightarrow> 'a list" where
  "heap_pop h = tl h"

definition heap_retain :: "('a \<Rightarrow> bool) \<Rightarrow> 'a list \<Rightarrow> 'a list" where
  "heap_retain P h = filter P h"

lemmas heap_defs = heap_push_def heap_peek_def heap_pop_def heap_retain_def

interpretation bh: min_queue heap_push heap_peek heap_pop heap_retain mset sorted
proof unfold_locales
  fix q :: "'a list" and x
  assume "sorted q" "heap_peek q = Some x"
  then show "x \<in># mset q \<and> (\<forall>y \<in># mset q. x \<le> y)"
    by (cases q) (auto simp: heap_defs)
qed (auto simp: heap_defs mset_insort sorted_insort sorted_tl sorted_wrt_filter split: list.splits)

section \<open>Results\<close>

text \<open>The \<open>?\<close> operator: the error leaves the function, the value goes on.\<close>

fun rbind :: "'e + 'a \<Rightarrow> ('a \<Rightarrow> 'e + 'b) \<Rightarrow> 'e + 'b" where
  "rbind (Inl e) f = Inl e"
| "rbind (Inr x) f = f x"

lemma rbind_eq_Inr: "rbind r f = Inr y \<longleftrightarrow> (\<exists>x. r = Inr x \<and> f x = Inr y)"
  by (cases r) auto

lemma rbind_eq_Inl: "rbind r f = Inl e \<longleftrightarrow> r = Inl e \<or> (\<exists>x. r = Inr x \<and> f x = Inl e)"
  by (cases r) auto

end
