(* ===== verification/Timers.thy ===== *)
theory Timers
  imports Oam_Prelude
begin

text \<open>
  The timer queue of the event loop (\<open>crates/oam_engine/src/timers.rs\<close>): \<open>setTimeout\<close>,
  \<open>setInterval\<close>, \<open>setImmediate\<close> and the pending callbacks of \<open>timerPending\<close>, kept in one
  queue from which the loop pops one due callback per turn.

  The state is the record \<open>timer_queue\<close>, field by field the struct \<open>TimerQueue\<close>; each method
  is one definition over it, and a method that changes the queue returns the new one. The clock
  is an argument where the code calls \<open>Instant::now()\<close>. The \<open>u64\<close> insertion counter \<open>seq\<close> is
  a \<open>nat\<close> (one increment per scheduling, so it does not reach \<open>2 ^ 64\<close>); ids keep their width,
  since the code wraps them. A V8 callback and its arguments are the type parameters.

  The theorems: every operation keeps the invariant \<open>tq_inv\<close> (no live timer is ever lost, the
  count of ref'd timers is exact, the heap order holds), \<open>pop_due\<close> runs the earliest due live
  entry of both queues, \<open>next_deadline\<close> and \<open>peek_due\<close> agree with it, and the search for a free
  id terminates.
\<close>

section \<open>Data\<close>

record ('cb, 'v) timer_entry =
  te_callback :: 'cb
  te_args :: "'v list"
  te_interval :: "duration option"
  te_is_ref :: bool

datatype pending_gate = GateOpen | GateTimers instant | GateImmediates instant

record ('cb, 'v) pending_entry =
  pe_callback :: 'cb
  pe_args :: "'v list"
  pe_gate :: pending_gate

datatype due = DuePending | DueTimer instant | DueImmediate instant

datatype running = RunningTimer instant instant | RunningImmediate instant

type_synonym slot = "instant \<times> nat \<times> u32"

record ('cb, 'v) timer_queue =
  next_id :: u32
  seq :: nat
  epoch :: instant
  heap :: "slot list"
  immediates :: "slot list"
  active :: "(u32 \<times> ('cb, 'v) timer_entry) list"
  ref_count :: nat
  pending :: "('cb, 'v) pending_entry list"
  running_cb :: "running option"

definition tq_default :: "instant \<Rightarrow> ('cb, 'v) timer_queue" where
  "tq_default now = \<lparr>next_id = 1, seq = 0, epoch = now, heap = [], immediates = [],
     active = [], ref_count = 0, pending = [], running_cb = None\<rparr>"

section \<open>Scheduling and cancelling\<close>

definition contains_id :: "(u32 \<times> 'e) list \<Rightarrow> u32 \<Rightarrow> bool" where
  "contains_id act i \<longleftrightarrow> map_of act i \<noteq> None"

definition succ_id :: "u32 \<Rightarrow> u32" where
  "succ_id i = max (i + 1) 1"

text \<open>The \<open>while\<close> loop of \<open>insert\<close>; \<open>None\<close> is a search that never ends.\<close>

partial_function (option) find_free_id :: "(u32 \<times> 'e) list \<Rightarrow> u32 \<Rightarrow> u32 option" where
  "find_free_id act i = (if contains_id act i then find_free_id act (succ_id i) else Some i)"

definition tq_insert ::
    "('cb, 'v) timer_queue \<Rightarrow> ('cb, 'v) timer_entry \<Rightarrow> (('cb, 'v) timer_queue \<times> u32 \<times> nat) option"
  where
  "tq_insert q e = (case find_free_id (active q) (next_id q) of
       None \<Rightarrow> None
     | Some i \<Rightarrow>
         (let q1 = q\<lparr>next_id := succ_id i, seq := seq q + 1\<rparr>;
              q2 = (if te_is_ref e then q1\<lparr>ref_count := ref_count q1 + 1\<rparr> else q1)
          in Some (q2\<lparr>active := AList.update i e (active q2)\<rparr>, i, seq q2)))"

definition schedule ::
    "instant \<Rightarrow> ('cb, 'v) timer_queue \<Rightarrow> ('cb, 'v) timer_entry \<Rightarrow> duration \<Rightarrow>
     (('cb, 'v) timer_queue \<times> u32) option" where
  "schedule now q e delay =
     (let deadline = now + delay in
      case tq_insert q e of None \<Rightarrow> None
      | Some (q1, i, s) \<Rightarrow> Some (q1\<lparr>heap := heap_push (deadline, s, i) (heap q1)\<rparr>, i))"

definition schedule_immediate ::
    "instant \<Rightarrow> ('cb, 'v) timer_queue \<Rightarrow> ('cb, 'v) timer_entry \<Rightarrow>
     (('cb, 'v) timer_queue \<times> u32) option" where
  "schedule_immediate now q e =
     (let queued = now in
      case tq_insert q e of None \<Rightarrow> None
      | Some (q1, i, s) \<Rightarrow> Some (q1\<lparr>immediates := immediates q1 @ [(queued, s, i)]\<rparr>, i))"

definition slot_live :: "(u32 \<times> 'e) list \<Rightarrow> slot \<Rightarrow> bool" where
  "slot_live act x \<longleftrightarrow> contains_id act (snd (snd x))"

definition cancel :: "('cb, 'v) timer_queue \<Rightarrow> u32 \<Rightarrow> ('cb, 'v) timer_queue" where
  "cancel q i = (case map_of (active q) i of
       None \<Rightarrow> q
     | Some e \<Rightarrow>
         (let q1 = q\<lparr>active := AList.delete i (active q)\<rparr>;
              q2 = (if te_is_ref e then q1\<lparr>ref_count := ref_count q1 - 1\<rparr> else q1);
              live = length (active q2);
              queued = length (heap q2) + length (immediates q2)
          in if 64 < queued \<and> live * 2 < queued
             then q2\<lparr>heap := heap_retain (slot_live (active q2)) (heap q2),
                     immediates := filter (slot_live (active q2)) (immediates q2)\<rparr>
             else q2))"

section \<open>The front of the two queues\<close>

function skip_dead_heap :: "(u32 \<times> 'e) list \<Rightarrow> slot list \<Rightarrow> slot list" where
  "skip_dead_heap act h = (case heap_peek h of
       None \<Rightarrow> h
     | Some x \<Rightarrow> if slot_live act x then h else skip_dead_heap act (heap_pop h))"
  by pat_completeness auto
termination
  by (relation "measure (\<lambda>(act, h). length h)") (auto simp: heap_defs split: list.splits)

declare skip_dead_heap.simps [simp del]

fun skip_dead_deque :: "(u32 \<times> 'e) list \<Rightarrow> slot list \<Rightarrow> slot list" where
  "skip_dead_deque act [] = []"
| "skip_dead_deque act (x # xs) = (if slot_live act x then x # xs else skip_dead_deque act xs)"

definition slot_key :: "slot \<Rightarrow> instant \<times> nat" where
  "slot_key x = (fst x, fst (snd x))"

definition front_timer ::
    "('cb, 'v) timer_queue \<Rightarrow> (instant \<times> nat) option \<times> ('cb, 'v) timer_queue" where
  "front_timer q =
     (let h = skip_dead_heap (active q) (heap q)
      in (map_option slot_key (heap_peek h), q\<lparr>heap := h\<rparr>))"

definition front_immediate ::
    "('cb, 'v) timer_queue \<Rightarrow> (instant \<times> nat) option \<times> ('cb, 'v) timer_queue" where
  "front_immediate q =
     (let d = skip_dead_deque (active q) (immediates q)
      in (case d of [] \<Rightarrow> None | x # _ \<Rightarrow> Some (slot_key x), q\<lparr>immediates := d\<rparr>))"

definition next_deadline ::
    "('cb, 'v) timer_queue \<Rightarrow> instant option \<times> ('cb, 'v) timer_queue" where
  "next_deadline q =
     (if pending q \<noteq> [] then (Some (epoch q), q)
      else let (t, q1) = front_timer q; (im, q2) = front_immediate q1
           in (case (t, im) of
                 (Some a, Some b) \<Rightarrow> Some (fst (min a b))
               | (Some a, None) \<Rightarrow> Some (fst a)
               | (None, Some b) \<Rightarrow> Some (fst b)
               | (None, None) \<Rightarrow> None, q2))"

section \<open>Popping\<close>

type_synonym ('cb, 'v) call = "('cb \<times> 'v list) option"

definition pop_timer ::
    "instant \<Rightarrow> ('cb, 'v) timer_queue \<Rightarrow> ('cb, 'v) call \<times> ('cb, 'v) timer_queue" where
  "pop_timer now q = (case heap_peek (heap q) of
       None \<Rightarrow> (None, q)
     | Some (deadline, _, i) \<Rightarrow>
         (let q1 = q\<lparr>heap := heap_pop (heap q)\<rparr> in
          case map_of (active q1) i of
            None \<Rightarrow> (None, q1)
          | Some e \<Rightarrow>
              (let q2 = (case te_interval e of
                     Some period \<Rightarrow>
                       q1\<lparr>seq := seq q1 + 1,
                          heap := heap_push (now + period, seq q1 + 1, i) (heap q1)\<rparr>
                   | None \<Rightarrow>
                       (let q3 = q1\<lparr>active := AList.delete i (active q1)\<rparr>
                        in if te_is_ref e then q3\<lparr>ref_count := ref_count q3 - 1\<rparr> else q3))
               in (Some (te_callback e, te_args e),
                   q2\<lparr>running_cb := Some (RunningTimer now deadline)\<rparr>))))"

definition pop_immediate ::
    "instant \<Rightarrow> ('cb, 'v) timer_queue \<Rightarrow> ('cb, 'v) call \<times> ('cb, 'v) timer_queue" where
  "pop_immediate now q = (case immediates q of
       [] \<Rightarrow> (None, q)
     | (_, _, i) # rest \<Rightarrow>
         (let q1 = q\<lparr>immediates := rest\<rparr> in
          case map_of (active q1) i of
            None \<Rightarrow> (None, q1)
          | Some e \<Rightarrow>
              (let q2 = q1\<lparr>active := AList.delete i (active q1)\<rparr>;
                   q3 = (if te_is_ref e then q2\<lparr>ref_count := ref_count q2 - 1\<rparr> else q2)
               in (Some (te_callback e, te_args e),
                   q3\<lparr>running_cb := Some (RunningImmediate now)\<rparr>))))"

definition due_only :: "instant \<Rightarrow> (instant \<times> nat) option \<Rightarrow> (instant \<times> nat) option" where
  "due_only now k = (case k of None \<Rightarrow> None | Some x \<Rightarrow> if fst x \<le> now then Some x else None)"

text \<open>What \<open>pop_due\<close> runs once no pending callback is in front.\<close>

definition pop_earliest ::
    "instant \<Rightarrow> ('cb, 'v) timer_queue \<Rightarrow> ('cb, 'v) call \<times> ('cb, 'v) timer_queue" where
  "pop_earliest now q =
     (let (t, q1) = front_timer q; (im, q2) = front_immediate q1 in
      case (due_only now t, due_only now im) of
        (Some a, Some b) \<Rightarrow> if b < a then pop_immediate now q2 else pop_timer now q2
      | (Some _, None) \<Rightarrow> pop_timer now q2
      | (None, Some _) \<Rightarrow> pop_immediate now q2
      | (None, None) \<Rightarrow> (None, q2))"

fun gate_rank :: "pending_gate \<Rightarrow> nat" where
  "gate_rank GateOpen = 1"
| "gate_rank (GateTimers _) = 2"
| "gate_rank (GateImmediates _) = 3"

definition front_rank :: "('cb, 'v) timer_queue \<Rightarrow> nat" where
  "front_rank q = (case pending q of [] \<Rightarrow> 0 | p # _ \<Rightarrow> gate_rank (pe_gate p))"

definition set_front_gate :: "pending_gate \<Rightarrow> ('cb, 'v) timer_queue \<Rightarrow> ('cb, 'v) timer_queue" where
  "set_front_gate g q = (case pending q of [] \<Rightarrow> q
     | p # ps \<Rightarrow> q\<lparr>pending := p\<lparr>pe_gate := g\<rparr> # ps\<rparr>)"

lemma front_keep_pending [simp]:
  "pending (snd (front_timer q)) = pending q" "pending (snd (front_immediate q)) = pending q"
  by (simp_all add: front_timer_def front_immediate_def Let_def)

lemma front_keep_pending':
  "front_timer q = (k, q1) \<Longrightarrow> pending q1 = pending q"
  "front_immediate q = (k, q1) \<Longrightarrow> pending q1 = pending q"
  using front_keep_pending [of q] by auto

lemma front_rank_set_front_gate [simp]:
  "pending q \<noteq> [] \<Longrightarrow> front_rank (set_front_gate g q) = gate_rank g"
  by (auto simp: front_rank_def set_front_gate_def split: list.splits)

text \<open>The \<open>while\<close> loop of \<open>pop_due\<close> over the gate of the front pending callback.\<close>

function pop_due_loop ::
    "instant \<Rightarrow> ('cb, 'v) timer_queue \<Rightarrow> ('cb, 'v) call \<times> ('cb, 'v) timer_queue" where
  "pop_due_loop now q = (case pending q of
       [] \<Rightarrow> pop_earliest now q
     | p # ps \<Rightarrow>
         (case pe_gate p of
            GateOpen \<Rightarrow> (Some (pe_callback p, pe_args p), q\<lparr>pending := ps\<rparr>)
          | GateImmediates until \<Rightarrow>
              (case front_immediate q of (k, q1) \<Rightarrow>
                 if (case k of None \<Rightarrow> False | Some x \<Rightarrow> fst x \<le> until)
                 then pop_immediate now q1
                 else pop_due_loop now (set_front_gate (GateTimers now) q1))
          | GateTimers until \<Rightarrow>
              (case front_timer q of (k, q1) \<Rightarrow>
                 if (case k of None \<Rightarrow> False | Some x \<Rightarrow> fst x \<le> min until now)
                 then pop_timer now q1
                 else pop_due_loop now (set_front_gate GateOpen q1))))"
  by pat_completeness auto
termination
  by (relation "measure (\<lambda>(now, q). front_rank q)")
    (auto simp: front_rank_def set_front_gate_def dest!: front_keep_pending' [OF sym] front_keep_pending')

declare pop_due_loop.simps [simp del]

definition pop_due ::
    "instant \<Rightarrow> ('cb, 'v) timer_queue \<Rightarrow> ('cb, 'v) call \<times> ('cb, 'v) timer_queue" where
  "pop_due now q = pop_due_loop now (q\<lparr>running_cb := None\<rparr>)"

definition peek_due :: "instant \<Rightarrow> ('cb, 'v) timer_queue \<Rightarrow> due option \<times> ('cb, 'v) timer_queue" where
  "peek_due now q =
     (if pending q \<noteq> [] then (Some DuePending, q)
      else let (t, q1) = front_timer q; (im, q2) = front_immediate q1
           in (case (due_only now t, due_only now im) of
                 (Some a, Some b) \<Rightarrow> if b < a then Some (DueImmediate (fst b)) else Some (DueTimer (fst a))
               | (Some a, None) \<Rightarrow> Some (DueTimer (fst a))
               | (None, Some b) \<Rightarrow> Some (DueImmediate (fst b))
               | (None, None) \<Rightarrow> None, q2))"

definition popped :: "('cb, 'v) timer_queue \<Rightarrow> due option" where
  "popped q = (case running_cb q of
       None \<Rightarrow> None
     | Some (RunningTimer _ deadline) \<Rightarrow> Some (DueTimer deadline)
     | Some (RunningImmediate now) \<Rightarrow> Some (DueImmediate now))"

definition callback_done :: "('cb, 'v) timer_queue \<Rightarrow> ('cb, 'v) timer_queue" where
  "callback_done q = q\<lparr>running_cb := None\<rparr>"

definition set_ref :: "('cb, 'v) timer_queue \<Rightarrow> u32 \<Rightarrow> bool \<Rightarrow> ('cb, 'v) timer_queue" where
  "set_ref q i v = (case map_of (active q) i of
       None \<Rightarrow> q
     | Some e \<Rightarrow>
         if te_is_ref e \<noteq> v
         then (let q1 = q\<lparr>active := AList.update i (e\<lparr>te_is_ref := v\<rparr>) (active q)\<rparr>
               in if v then q1\<lparr>ref_count := ref_count q1 + 1\<rparr>
                  else q1\<lparr>ref_count := ref_count q1 - 1\<rparr>)
         else q)"

definition has_ref_timers :: "('cb, 'v) timer_queue \<Rightarrow> bool" where
  "has_ref_timers q \<longleftrightarrow> 0 < ref_count q \<or> pending q \<noteq> []"

text \<open>\<open>timer_pending\<close>: the gate a pending callback waits behind, from the phase it was queued in.\<close>

definition timer_pending :: "('cb, 'v) timer_queue \<Rightarrow> 'cb \<Rightarrow> 'v list \<Rightarrow> ('cb, 'v) timer_queue" where
  "timer_pending q cb args =
     (let gate = (case running_cb q of
            None \<Rightarrow> GateOpen
          | Some (RunningTimer now deadline) \<Rightarrow> GateTimers (max now (deadline + 999999))
          | Some (RunningImmediate now) \<Rightarrow> GateImmediates now)
      in q\<lparr>pending := pending q @ [\<lparr>pe_callback = cb, pe_args = args, pe_gate = gate\<rparr>]\<rparr>)"

section \<open>The search for a free id\<close>

lemma unat_succ_id: "unat (succ_id i) = (if unat i = 2 ^ 32 - 1 then 1 else unat i + 1)"
proof (cases "unat i = 2 ^ 32 - 1")
  case True
  then have "unat (i + 1) = 0"
    by (simp add: unat_word_ariths)
  then have "i + 1 = 0"
    by (simp add: unat_eq_0)
  then show ?thesis
    using True by (simp add: succ_id_def)
next
  case False
  then have "unat i + 1 < 2 ^ 32"
    using unat_u32_lt [of i] by simp
  then have "unat (i + 1) = unat i + 1"
    by (simp add: unat_word_ariths)
  then show ?thesis
    using False by (simp add: succ_id_def max_def word_le_nat_alt)
qed

lemma succ_id_nonzero [simp]: "succ_id i \<noteq> 0"
  using unat_succ_id [of i] by (auto split: if_splits)

lemma succ_id_iterate:
  "i \<noteq> 0 \<Longrightarrow> (succ_id ^^ k) i \<noteq> 0 \<and>
     unat ((succ_id ^^ k) i) - 1 = (unat i - 1 + k) mod (2 ^ 32 - 1)"
proof (induction k)
  case 0
  then show ?case
    using unat_u32_lt [of i] by (simp add: unat_gt_0)
next
  case (Suc k)
  define j where "j = (succ_id ^^ k) i"
  have j: "j \<noteq> 0" "unat j - 1 = (unat i - 1 + k) mod (2 ^ 32 - 1)"
    using Suc by (simp_all add: j_def)
  have pos: "0 < unat j"
    using j(1) by (simp add: unat_gt_0)
  have "unat (succ_id j) - 1 = (unat j - 1 + 1) mod (2 ^ 32 - 1)"
    using unat_succ_id [of j] unat_u32_lt [of j] pos by (auto simp: mod_less)
  also have "\<dots> = (unat i - 1 + Suc k) mod (2 ^ 32 - 1)"
    using j(2) by (simp add: mod_Suc_eq)
  finally show ?case
    by (simp add: j_def)
qed

lemma shifted_mod_inj:
  fixes a N :: nat
  assumes "(a + k) mod N = (a + l) mod N" "k < N" "l < N" "k \<le> l"
  shows "k = l"
proof -
  have "N dvd (a + l) - (a + k)"
    using assms by (metis mod_eq_dvd_iff_nat add_le_cancel_left)
  then show ?thesis
    using assms by (auto dest: dvd_imp_le)
qed

lemma succ_id_iterate_inj:
  assumes "i \<noteq> 0"
  shows "inj_on (\<lambda>k. (succ_id ^^ k) i) {..<2 ^ 32 - 1}"
proof (rule inj_onI)
  fix k l :: nat
  assume k: "k \<in> {..<2 ^ 32 - 1}" and l: "l \<in> {..<2 ^ 32 - 1}"
    and eq: "(succ_id ^^ k) i = (succ_id ^^ l) i"
  have "(unat i - 1 + k) mod (2 ^ 32 - 1) = (unat i - 1 + l) mod (2 ^ 32 - 1)"
    using succ_id_iterate [OF assms, of k] succ_id_iterate [OF assms, of l] eq by simp
  then show "k = l"
    using shifted_mod_inj [of "unat i - 1" k "2 ^ 32 - 1" l]
      shifted_mod_inj [of "unat i - 1" l "2 ^ 32 - 1" k] k l by (metis lessThan_iff nle_le)
qed

lemma find_free_id_skip:
  "(\<And>j. j < k \<Longrightarrow> contains_id act ((succ_id ^^ j) i)) \<Longrightarrow>
     find_free_id act i = find_free_id act ((succ_id ^^ k) i)"
proof (induction k)
  case (Suc k)
  then have "find_free_id act i = find_free_id act ((succ_id ^^ k) i)"
    by simp
  also have "\<dots> = find_free_id act (succ_id ((succ_id ^^ k) i))"
    using Suc.prems [of k] by (subst find_free_id.simps) simp
  finally show ?case by simp
qed simp

lemma find_free_id_sound:
  assumes "find_free_id act i = Some j"
  shows "\<not> contains_id act j \<and> (i \<noteq> 0 \<longrightarrow> j \<noteq> 0)"
proof (rule find_free_id.raw_induct
    [where P = "\<lambda>act i j. \<not> contains_id act j \<and> (i \<noteq> 0 \<longrightarrow> j \<noteq> 0)", OF _ assms], goal_cases)
  case (1 f act i j)
  then show ?case
    by (cases "contains_id act i") auto
qed

lemma find_free_id_returns:
  assumes "i \<noteq> 0" "length act < 2 ^ 32 - 1"
  shows "\<exists>j. find_free_id act i = Some j"
proof -
  define n where "n = length act"
  have "\<exists>k \<le> n. \<not> contains_id act ((succ_id ^^ k) i)"
  proof (rule ccontr)
    assume "\<not> ?thesis"
    then have "(\<lambda>k. (succ_id ^^ k) i) ` {..n} \<subseteq> fst ` set act"
      by (force simp: contains_id_def map_of_eq_None_iff)
    then have "card ((\<lambda>k. (succ_id ^^ k) i) ` {..n}) \<le> card (fst ` set act)"
      by (simp add: card_mono)
    also have "\<dots> \<le> n"
      using card_length [of "map fst act"] by (simp add: n_def)
    finally have "card ((\<lambda>k. (succ_id ^^ k) i) ` {..n}) \<le> n" .
    moreover have "inj_on (\<lambda>k. (succ_id ^^ k) i) {..n}"
      by (rule inj_on_subset [OF succ_id_iterate_inj [OF assms(1)]])
        (use assms(2) in \<open>auto simp: n_def\<close>)
    ultimately show False
      by (simp add: card_image)
  qed
  then obtain k where k: "\<not> contains_id act ((succ_id ^^ k) i)"
    "\<And>j. j < k \<Longrightarrow> contains_id act ((succ_id ^^ j) i)"
    using exists_least_iff [of "\<lambda>k. \<not> contains_id act ((succ_id ^^ k) i)"] by blast
  then have "find_free_id act i = Some ((succ_id ^^ k) i)"
    using find_free_id_skip [of k act i] by (simp add: find_free_id.simps)
  then show ?thesis by blast
qed

section \<open>The invariant\<close>

definition slot_id :: "slot \<Rightarrow> u32" where
  "slot_id x = snd (snd x)"

definition slot_seq :: "slot \<Rightarrow> nat" where
  "slot_seq x = fst (snd x)"

definition ref_total :: "(u32 \<times> ('cb, 'v) timer_entry) list \<Rightarrow> nat" where
  "ref_total act = length (filter (\<lambda>p. te_is_ref (snd p)) act)"

text \<open>
  What holds of the queue at clock \<open>t\<close>: ids are never 0 and name one entry each; \<open>ref_count\<close>
  counts the ref'd live entries; both queues are in (deadline, seq) order and no two slots share a
  sequence number; every live entry has a slot, so the loop will reach it.
\<close>

definition queued_ids :: "('cb, 'v) timer_queue \<Rightarrow> u32 set" where
  "queued_ids q = slot_id ` (set (heap q) \<union> set (immediates q))"

definition tq_inv :: "instant \<Rightarrow> ('cb, 'v) timer_queue \<Rightarrow> bool" where
  "tq_inv t q \<longleftrightarrow>
     next_id q \<noteq> 0 \<and> 0 \<notin> fst ` set (active q) \<and> distinct (map fst (active q)) \<and>
     ref_count q = ref_total (active q) \<and>
     sorted (heap q) \<and> sorted (immediates q) \<and>
     (\<forall>x \<in> set (immediates q). fst x \<le> t) \<and>
     (\<forall>x \<in> set (heap q) \<union> set (immediates q). slot_seq x \<le> seq q) \<and>
     distinct (map slot_seq (heap q @ immediates q)) \<and>
     fst ` set (active q) \<subseteq> queued_ids q \<and> epoch q \<le> t"

lemma tq_invI:
  assumes "next_id q \<noteq> 0" "0 \<notin> fst ` set (active q)" "distinct (map fst (active q))"
    "ref_count q = ref_total (active q)" "sorted (heap q)" "sorted (immediates q)"
    "\<And>x. x \<in> set (immediates q) \<Longrightarrow> fst x \<le> t"
    "\<And>x. x \<in> set (heap q) \<union> set (immediates q) \<Longrightarrow> slot_seq x \<le> seq q"
    "distinct (map slot_seq (heap q @ immediates q))"
    "fst ` set (active q) \<subseteq> queued_ids q" "epoch q \<le> t"
  shows "tq_inv t q"
  using assms by (auto simp: tq_inv_def)

lemma tq_invD:
  assumes "tq_inv t q"
  shows "next_id q \<noteq> 0" "0 \<notin> fst ` set (active q)" "distinct (map fst (active q))"
    "ref_count q = ref_total (active q)" "sorted (heap q)" "sorted (immediates q)"
    "\<And>x. x \<in> set (immediates q) \<Longrightarrow> fst x \<le> t"
    "\<And>x. x \<in> set (heap q) \<union> set (immediates q) \<Longrightarrow> slot_seq x \<le> seq q"
    "distinct (map slot_seq (heap q @ immediates q))"
    "fst ` set (active q) \<subseteq> queued_ids q" "epoch q \<le> t"
  using assms by (auto simp: tq_inv_def)

lemma tq_inv_later: "tq_inv t q \<Longrightarrow> t \<le> u \<Longrightarrow> tq_inv u q"
  by (auto simp: tq_inv_def)

lemma ref_total_delete:
  "distinct (map fst act) \<Longrightarrow> map_of act i = Some e \<Longrightarrow>
     ref_total act = ref_total (AList.delete i act) + (if te_is_ref e then 1 else 0)"
proof (induction act)
  case (Cons p act)
  show ?case
  proof (cases "fst p = i")
    case True
    then have "AList.delete i act = act"
      using Cons.prems(1) by (auto intro: delete_idem)
    then show ?thesis
      using True Cons.prems(2) by (cases p) (auto simp: ref_total_def)
  next
    case False
    then show ?thesis
      using Cons by (cases p) (auto simp: ref_total_def)
  qed
qed simp

lemma ref_total_update_new:
  "map_of act i = None \<Longrightarrow>
     ref_total (AList.update i e act) = ref_total act + (if te_is_ref e then 1 else 0)"
  by (induction act) (auto simp: ref_total_def split: if_splits)

lemma ref_total_update_old:
  "distinct (map fst act) \<Longrightarrow> map_of act i = Some e \<Longrightarrow>
     ref_total (AList.update i e' act) + (if te_is_ref e then 1 else 0) =
     ref_total act + (if te_is_ref e' then 1 else 0)"
proof (induction act)
  case (Cons p act)
  then show ?case
    by (cases p) (auto simp: ref_total_def split: if_splits)
qed simp

lemma ref_total_pos_iff: "0 < ref_total act \<longleftrightarrow> (\<exists>p \<in> set act. te_is_ref (snd p))"
  by (auto simp: ref_total_def filter_empty_conv)

lemma keys_update: "fst ` set (AList.update i e act) = insert i (fst ` set act)"
  by (metis dom_map_of_conv_image_fst dom_update update_conv' dom_fun_upd option.discI)

lemma keys_delete: "fst ` set (AList.delete i act) = fst ` set act - {i}"
  using arg_cong [OF delete_keys [of i act], of set] by simp

subsection \<open>Skipping cancelled slots\<close>

lemma skip_dead_heap_eq: "skip_dead_heap act h = dropWhile (\<lambda>x. \<not> slot_live act x) h"
proof (induction act h rule: skip_dead_heap.induct)
  case (1 act h)
  then show ?case
    by (subst skip_dead_heap.simps) (cases h; simp add: heap_defs)
qed

lemma skip_dead_deque_eq: "skip_dead_deque act d = dropWhile (\<lambda>x. \<not> slot_live act x) d"
  by (induction d) auto

lemma skip_dead_heap_live:
  "filter_mset (slot_live act) (mset (skip_dead_heap act h)) = filter_mset (slot_live act) (mset h)"
proof (induction act h rule: skip_dead_heap.induct)
  case (1 act h)
  show ?case
  proof (cases "heap_peek h")
    case None
    then show ?thesis
      by (simp add: skip_dead_heap.simps [of act h])
  next
    case (Some x)
    then show ?thesis
      using "1.IH" [OF Some] bh.pop_keeps_live [OF Some, of "slot_live act"]
      by (auto simp: skip_dead_heap.simps [of act h])
  qed
qed

lemma dropWhile_dead_keeps_live:
  "y \<in> set d \<Longrightarrow> slot_live act y \<Longrightarrow> y \<in> set (dropWhile (\<lambda>x. \<not> slot_live act x) d)"
  by (induction d) auto

lemma skip_dead_heap_head: "heap_peek (skip_dead_heap act h) = Some x \<Longrightarrow> slot_live act x"
  unfolding skip_dead_heap_eq
  by (auto simp: heap_defs dest: hd_dropWhile split: list.splits)
    (metis hd_dropWhile list.distinct(1) list.sel(1))

lemma skip_dead_deque_head: "skip_dead_deque act d = x # xs \<Longrightarrow> slot_live act x"
  unfolding skip_dead_deque_eq by (metis hd_dropWhile list.distinct(1) list.sel(1))

lemma live_ids: "i \<in> fst ` set act \<longleftrightarrow> contains_id act i"
  by (simp add: contains_id_def map_of_eq_None_iff)

lemma tq_inv_frame [simp]:
  "tq_inv t (q\<lparr>running_cb := r\<rparr>) = tq_inv t q" "tq_inv t (q\<lparr>pending := p\<rparr>) = tq_inv t q"
  by (simp_all add: tq_inv_def queued_ids_def)

lemma distinct_seqs_subseq:
  assumes "distinct (map slot_seq (h @ d))" "subseq h' h" "subseq d' d"
  shows "distinct (map slot_seq (h' @ d'))"
  by (rule subseq_distinct [OF subseq_map [OF list_emb_append_mono [OF assms(2,3)]] assms(1)])

lemma distinct_seqs_push:
  "distinct (map slot_seq (heap_push x h @ d)) = distinct (map slot_seq (x # h @ d))"
  by (rule mset_eq_imp_distinct_iff) (simp add: heap_defs)

text \<open>
  Dropping slots keeps the invariant while every live entry keeps one; so does dropping an entry.
\<close>

lemma tq_inv_trim:
  assumes inv: "tq_inv t q" and h: "subseq h' (heap q)" and d: "subseq d' (immediates q)"
    and cover: "fst ` set (active q) \<subseteq> slot_id ` (set h' \<union> set d')"
  shows "tq_inv t (q\<lparr>heap := h', immediates := d'\<rparr>)"
proof (rule tq_invI, goal_cases)
  case (7 x)
  then show ?case
    using tq_invD(7) [OF inv, of x] subseq_set [OF d] by auto
next
  case (8 x)
  then show ?case
    using tq_invD(8) [OF inv, of x] subseq_set [OF h] subseq_set [OF d] by auto
qed (use tq_invD(1-4,11) [OF inv] subseq_sorted [OF h tq_invD(5) [OF inv]] cover
      subseq_sorted [OF d tq_invD(6) [OF inv]] distinct_seqs_subseq [OF tq_invD(9) [OF inv] h d] in
      \<open>simp_all add: queued_ids_def\<close>)

lemma tq_inv_remove:
  assumes inv: "tq_inv t q" and e: "map_of (active q) i = Some e"
    and h: "subseq h' (heap q)" and d: "subseq d' (immediates q)"
    and cover: "fst ` set (active q) - {i} \<subseteq> slot_id ` (set h' \<union> set d')"
  shows "tq_inv t (q\<lparr>heap := h', immediates := d', active := AList.delete i (active q),
           ref_count := ref_count q - (if te_is_ref e then 1 else 0)\<rparr>)"
proof (rule tq_invI, goal_cases)
  case (7 x)
  then show ?case
    using tq_invD(7) [OF inv, of x] subseq_set [OF d] by auto
next
  case (8 x)
  then show ?case
    using tq_invD(8) [OF inv, of x] subseq_set [OF h] subseq_set [OF d] by auto
qed (use tq_invD(1-4,11) [OF inv] subseq_sorted [OF h tq_invD(5) [OF inv]] cover
      subseq_sorted [OF d tq_invD(6) [OF inv]] distinct_seqs_subseq [OF tq_invD(9) [OF inv] h d]
      ref_total_delete [OF tq_invD(3) [OF inv] e] in
      \<open>simp_all add: queued_ids_def keys_delete distinct_delete\<close>)

lemma live_entry_queued:
  assumes "tq_inv t q" "j \<in> fst ` set (active q)"
  obtains x where "x \<in> set (heap q) \<union> set (immediates q)" "slot_id x = j" "slot_live (active q) x"
proof -
  obtain x where x: "x \<in> set (heap q) \<union> set (immediates q)" "slot_id x = j"
    using subsetD [OF tq_invD(10) [OF assms(1)] assms(2)] unfolding queued_ids_def by blast
  moreover have "slot_live (active q) x"
    using x(2) assms(2) by (simp add: slot_live_def slot_id_def live_ids)
  ultimately show thesis by (rule that)
qed

lemma cover_live:
  assumes inv: "tq_inv t q"
    and live: "\<And>x. x \<in> set (heap q) \<Longrightarrow> slot_live (active q) x \<Longrightarrow> x \<in> set h'"
      "\<And>x. x \<in> set (immediates q) \<Longrightarrow> slot_live (active q) x \<Longrightarrow> x \<in> set d'"
  shows "fst ` set (active q) \<subseteq> slot_id ` (set h' \<union> set d')"
  by (rule subsetI, erule live_entry_queued [OF inv]) (use live in blast)

lemma front_timer_inv: "tq_inv t q \<Longrightarrow> tq_inv t (snd (front_timer q))"
  using tq_inv_trim [of t q "skip_dead_heap (active q) (heap q)" "immediates q"]
    cover_live [of t q "skip_dead_heap (active q) (heap q)" "immediates q"]
  by (simp add: front_timer_def Let_def skip_dead_heap_eq subseq_dropWhile
      dropWhile_dead_keeps_live)

lemma front_immediate_inv: "tq_inv t q \<Longrightarrow> tq_inv t (snd (front_immediate q))"
  using tq_inv_trim [of t q "heap q" "skip_dead_deque (active q) (immediates q)"]
    cover_live [of t q "heap q" "skip_dead_deque (active q) (immediates q)"]
  by (simp add: front_immediate_def Let_def skip_dead_deque_eq subseq_dropWhile
      dropWhile_dead_keeps_live)

subsection \<open>Each operation keeps the invariant\<close>

lemma tq_default_inv: "tq_inv t (tq_default t)"
  by (simp add: tq_inv_def tq_default_def ref_total_def queued_ids_def)

lemma tq_insert_shape:
  assumes "tq_insert q e = Some (q1, i, s)" "next_id q \<noteq> 0"
  shows "i \<noteq> 0" "map_of (active q) i = None" "s = seq q + 1"
    "q1 = q\<lparr>next_id := succ_id i, seq := seq q + 1,
            ref_count := ref_count q + (if te_is_ref e then 1 else 0),
            active := AList.update i e (active q)\<rparr>"
  using assms find_free_id_sound [of "active q" "next_id q" i]
  by (auto simp: tq_insert_def Let_def contains_id_def split: option.splits if_splits)

text \<open>A fresh entry with a slot in either queue.\<close>

lemma tq_inv_add:
  assumes inv: "tq_inv t q" and i: "i \<noteq> 0" "map_of (active q) i = None" and n: "n \<noteq> 0"
    and hd: "mset (h' @ d') = add_mset (d, seq q + 1, i) (mset (heap q @ immediates q))"
      "sorted h'" "sorted d'" "\<And>x. x \<in> set d' \<Longrightarrow> fst x \<le> t"
  shows "tq_inv t (q\<lparr>next_id := n, seq := seq q + 1,
            ref_count := ref_count q + (if te_is_ref e then 1 else 0),
            active := AList.update i e (active q), heap := h', immediates := d'\<rparr>)"
proof -
  have slots: "set h' \<union> set d' = insert (d, seq q + 1, i) (set (heap q) \<union> set (immediates q))"
    using arg_cong [OF hd(1), of set_mset] by simp
  show ?thesis
  proof (rule tq_invI, goal_cases)
  case (8 x)
  then have "x = (d, seq q + 1, i) \<or> x \<in> set (heap q) \<union> set (immediates q)"
    using slots by auto
  then show ?case
    using tq_invD(8) [OF inv, of x] by (auto simp: slot_seq_def)
next
  case 9
  have "mset (map slot_seq (h' @ d')) = mset (map slot_seq ((d, seq q + 1, i) # heap q @ immediates q))"
    using arg_cong [OF hd(1), of "image_mset slot_seq"] by simp
  note iff = mset_eq_imp_distinct_iff [OF this]
  have "distinct (map slot_seq ((d, seq q + 1, i) # heap q @ immediates q))"
    using tq_invD(8,9) [OF inv] by (force simp: slot_seq_def)
  then show ?case
    unfolding iff [symmetric] by simp
next
  case 10
  show ?case
    using slots tq_invD(10) [OF inv] by (auto simp: queued_ids_def keys_update slot_id_def)
  qed (use inv i n hd ref_total_update_new [OF i(2)] in
      \<open>auto simp: keys_update distinct_update dest: tq_invD\<close>)
qed

lemma schedule_inv:
  assumes inv: "tq_inv t q" and s: "schedule now q e delay = Some (q', i)" and "t \<le> now"
  shows "tq_inv now q'"
proof -
  obtain q1 n where ins: "tq_insert q e = Some (q1, i, n)"
    and q': "q' = q1\<lparr>heap := heap_push (now + delay, n, i) (heap q1)\<rparr>"
    using s by (auto simp: schedule_def Let_def split: option.splits)
  note shape = tq_insert_shape [OF ins tq_invD(1) [OF inv]]
  have inv': "tq_inv now q"
    using inv assms(3) by (rule tq_inv_later)
  show ?thesis
    using tq_inv_add [OF inv' shape(1,2) succ_id_nonzero [of i],
        of "heap_push (now + delay, seq q + 1, i) (heap q)" "immediates q" "now + delay" e]
      tq_invD(5-7) [OF inv']
    by (simp add: q' shape(3,4) heap_push_def sorted_insort)
qed

lemma schedule_immediate_inv:
  assumes inv: "tq_inv t q" and s: "schedule_immediate now q e = Some (q', i)" and "t \<le> now"
  shows "tq_inv now q'"
proof -
  obtain q1 n where ins: "tq_insert q e = Some (q1, i, n)"
    and q': "q' = q1\<lparr>immediates := immediates q1 @ [(now, n, i)]\<rparr>"
    using s by (auto simp: schedule_immediate_def Let_def split: option.splits)
  note shape = tq_insert_shape [OF ins tq_invD(1) [OF inv]]
  have inv': "tq_inv now q"
    using inv assms(3) by (rule tq_inv_later)
  have "x \<le> (now, seq q + 1, i)" if "x \<in> set (immediates q)" for x
    using tq_invD(7) [OF inv' that] tq_invD(8) [OF inv', of x] that
    by (cases x) (auto simp: slot_seq_def)
  then have "sorted (immediates q @ [(now, seq q + 1, i)])"
    using tq_invD(6) [OF inv'] by (simp add: sorted_append)
  moreover have "fst x \<le> now" if "x \<in> set (immediates q @ [(now, seq q + 1, i)])" for x
    using that tq_invD(7) [OF inv', of x] by auto
  ultimately show ?thesis
    using tq_inv_add [OF inv' shape(1,2) succ_id_nonzero [of i] _ tq_invD(5) [OF inv'],
        of "immediates q @ [(now, seq q + 1, i)]" now e]
    by (simp add: q' shape(3,4))
qed

lemma cancel_shape:
  assumes "map_of (active q) i = Some e"
  shows "cancel q i =
    (let a = AList.delete i (active q); n = length (heap q) + length (immediates q);
         r = ref_count q - (if te_is_ref e then 1 else 0)
     in if 64 < n \<and> length a * 2 < n
        then q\<lparr>heap := filter (slot_live a) (heap q), immediates := filter (slot_live a) (immediates q),
               active := a, ref_count := r\<rparr>
        else q\<lparr>heap := heap q, immediates := immediates q, active := a, ref_count := r\<rparr>)"
  using assms by (cases q) (simp add: cancel_def Let_def heap_retain_def)

lemma cancel_inv:
  assumes inv: "tq_inv t q"
  shows "tq_inv t (cancel q i)"
proof (cases "map_of (active q) i")
  case (Some e)
  let ?a = "AList.delete i (active q)"
  let ?h = "filter (slot_live ?a) (heap q)" and ?d = "filter (slot_live ?a) (immediates q)"
  have live: "slot_live ?a x" if "slot_live (active q) x" "slot_id x \<noteq> i" for x
    using that by (auto simp: slot_live_def contains_id_def slot_id_def table_simps)
  have "j \<in> slot_id ` (set ?h \<union> set ?d)" if j: "j \<in> fst ` set (active q)" "j \<noteq> i" for j
  proof (rule live_entry_queued [OF inv j(1)])
    fix x
    assume x: "x \<in> set (heap q) \<union> set (immediates q)" "slot_id x = j" "slot_live (active q) x"
    then have "x \<in> set ?h \<union> set ?d"
      using live [of x] j(2) by simp
    then show ?thesis
      using x(2) by blast
  qed
  then have "fst ` set (active q) - {i} \<subseteq> slot_id ` (set ?h \<union> set ?d)"
    by blast
  note trimmed = tq_inv_remove [OF inv Some subseq_filter_left subseq_filter_left this]
  have "fst ` set (active q) - {i} \<subseteq> slot_id ` (set (heap q) \<union> set (immediates q))"
    using tq_invD(10) [OF inv] unfolding queued_ids_def by blast
  note kept = tq_inv_remove [OF inv Some subseq_order.order_refl subseq_order.order_refl this]
  show ?thesis
    unfolding cancel_shape [OF Some] Let_def using trimmed kept by simp
qed (simp add: cancel_def inv)

lemma set_ref_inv:
  assumes inv: "tq_inv t q"
  shows "tq_inv t (set_ref q i v)"
proof (cases "map_of (active q) i")
  case (Some e)
  then have i: "i \<in> fst ` set (active q)"
    by (metis map_of_eq_None_iff option.discI)
  have "tq_inv t (q\<lparr>active := AList.update i (e\<lparr>te_is_ref := v\<rparr>) (active q),
      ref_count := (if v then ref_count q + 1 else ref_count q - 1)\<rparr>)" if "te_is_ref e \<noteq> v"
    using inv i that ref_total_update_old [OF tq_invD(3) [OF inv] Some, of "e\<lparr>te_is_ref := v\<rparr>"]
      tq_invD(4,9) [OF inv] tq_invD(10) [OF inv, unfolded queued_ids_def]
    by (intro tq_invI)
      (auto simp: keys_update distinct_update insert_absorb queued_ids_def dest: tq_invD)
  then show ?thesis
    using Some inv by (auto simp: set_ref_def Let_def)
qed (simp add: set_ref_def inv)

lemma timer_pending_inv: "tq_inv t q \<Longrightarrow> tq_inv t (timer_pending q cb args)"
  by (simp add: timer_pending_def Let_def)

lemma callback_done_inv: "tq_inv t q \<Longrightarrow> tq_inv t (callback_done q)"
  by (simp add: callback_done_def)

lemma set_front_gate_inv: "tq_inv t q \<Longrightarrow> tq_inv t (set_front_gate g q)"
  by (simp add: set_front_gate_def split: list.splits)

text \<open>An interval's new slot goes in before its old one is dropped.\<close>

lemma tq_inv_push:
  assumes inv: "tq_inv t q"
  shows "tq_inv t (q\<lparr>seq := seq q + 1, heap := heap_push (d, seq q + 1, i) (heap q)\<rparr>)"
proof (rule tq_invI, goal_cases)
  case (8 x)
  then have "x = (d, seq q + 1, i) \<or> x \<in> set (heap q) \<union> set (immediates q)"
    by (auto simp: heap_push_def set_insort_key)
  then show ?case
    using tq_invD(8) [OF inv, of x] by (auto simp: slot_seq_def)
next
  case 9
  have "distinct (map slot_seq ((d, seq q + 1, i) # heap q @ immediates q))"
    using tq_invD(8,9) [OF inv] by (force simp: slot_seq_def)
  then show ?case
    by (simp add: distinct_seqs_push del: map_append)
next
  case 10
  show ?case
    using tq_invD(10) [OF inv] by (auto simp: queued_ids_def heap_push_def set_insort_key)
qed (use inv in \<open>auto simp: heap_push_def sorted_insort dest: tq_invD\<close>)

lemma pop_timer_inv:
  assumes inv: "tq_inv t q" and live: "\<And>x. heap_peek (heap q) = Some x \<Longrightarrow> slot_live (active q) x"
  shows "tq_inv t (snd (pop_timer now q))"
proof (cases "heap q")
  case Nil
  then show ?thesis
    using inv by (simp add: pop_timer_def heap_defs)
next
  case (Cons x h)
  obtain d s i where x: "x = (d, s, i)" by (cases x)
  obtain e where e: "map_of (active q) i = Some e"
    using live [of x] Cons by (auto simp: heap_defs slot_live_def contains_id_def x)
  show ?thesis
  proof (cases "te_interval e")
    case None
    have "fst ` set (active q) - {i} \<subseteq> slot_id ` (set h \<union> set (immediates q))"
      using tq_invD(10) [OF inv] unfolding queued_ids_def Cons x by (auto simp: slot_id_def)
    note kept = tq_inv_remove [OF inv e _ subseq_order.order_refl this]
    have "subseq h (heap q)"
      using Cons by (simp add: subseq_Cons_tail)
    with kept have "tq_inv t (q\<lparr>heap := h, immediates := immediates q,
        active := AList.delete i (active q), ref_count := ref_count q - (if te_is_ref e then 1 else 0)\<rparr>)"
      by blast
    then show ?thesis
      using Cons x e None by (cases "te_is_ref e") (simp_all add: pop_timer_def heap_defs Let_def)
  next
    case (Some p)
    let ?n = "(now + p, seq q + 1, i)"
    note pushed = tq_inv_push [OF inv, of "now + p" i]
    have "subseq (insort ?n h) (insort ?n (x # h))"
      using tq_invD(5) [OF inv] Cons by (intro subseq_insort_tail) simp
    moreover have "fst ` set (active q) \<subseteq> slot_id ` (set (insort ?n h) \<union> set (immediates q))"
      using tq_invD(10) [OF inv] unfolding queued_ids_def Cons x
      by (auto simp: slot_id_def set_insort_key)
    ultimately have "tq_inv t (q\<lparr>seq := seq q + 1, heap := insort ?n h\<rparr>)"
      using tq_inv_trim [OF pushed, of "insort ?n h" "immediates q"] Cons
      by (simp add: heap_push_def)
    then show ?thesis
      using Cons x e Some by (simp add: pop_timer_def heap_defs Let_def)
  qed
qed

lemma pop_immediate_inv:
  assumes inv: "tq_inv t q"
    and live: "\<And>x xs. immediates q = x # xs \<Longrightarrow> slot_live (active q) x"
  shows "tq_inv t (snd (pop_immediate now q))"
proof (cases "immediates q")
  case Nil
  then show ?thesis
    using inv by (simp add: pop_immediate_def)
next
  case (Cons x r)
  obtain d s i where x: "x = (d, s, i)" by (cases x)
  obtain e where e: "map_of (active q) i = Some e"
    using live [of x r] Cons by (auto simp: slot_live_def contains_id_def x)
  have "fst ` set (active q) - {i} \<subseteq> slot_id ` (set (heap q) \<union> set r)"
    using tq_invD(10) [OF inv] unfolding queued_ids_def Cons x by (auto simp: slot_id_def)
  note kept = tq_inv_remove [OF inv e subseq_order.order_refl _ this]
  have "subseq r (immediates q)"
    using Cons by (simp add: subseq_Cons_tail)
  with kept have "tq_inv t (q\<lparr>heap := heap q, immediates := r,
      active := AList.delete i (active q), ref_count := ref_count q - (if te_is_ref e then 1 else 0)\<rparr>)"
    by blast
  then show ?thesis
    using Cons x e by (cases "te_is_ref e") (simp_all add: pop_immediate_def Let_def)
qed

section \<open>What the front of the queues is\<close>

lemma front_fields [simp]:
  "active (snd (front_timer q)) = active q" "active (snd (front_immediate q)) = active q"
  "immediates (snd (front_timer q)) = immediates q" "heap (snd (front_immediate q)) = heap q"
  "heap (snd (front_timer q)) = skip_dead_heap (active q) (heap q)"
  "immediates (snd (front_immediate q)) = skip_dead_deque (active q) (immediates q)"
  "running_cb (snd (front_timer q)) = running_cb q" "running_cb (snd (front_immediate q)) = running_cb q"
  "epoch (snd (front_timer q)) = epoch q" "epoch (snd (front_immediate q)) = epoch q"
  by (simp_all add: front_timer_def front_immediate_def Let_def)

lemma front_immediate_after_timer:
  "fst (front_immediate (snd (front_timer q))) = fst (front_immediate q)"
  by (simp add: front_timer_def front_immediate_def Let_def)

text \<open>The queue with the cancelled slots in front of both queues gone.\<close>

definition settled :: "('cb, 'v) timer_queue \<Rightarrow> ('cb, 'v) timer_queue" where
  "settled q = snd (front_immediate (snd (front_timer q)))"

lemma settled_fields [simp]:
  "active (settled q) = active q" "pending (settled q) = pending q" "epoch (settled q) = epoch q"
  "heap (settled q) = skip_dead_heap (active q) (heap q)" "running_cb (settled q) = running_cb q"
  "immediates (settled q) = skip_dead_deque (active q) (immediates q)"
  by (simp_all add: settled_def)

lemma settled_inv: "tq_inv t q \<Longrightarrow> tq_inv t (settled q)"
  by (simp add: settled_def front_timer_inv front_immediate_inv)

lemma pop_earliest_eq:
  "pop_earliest now q = (case (due_only now (fst (front_timer q)), due_only now (fst (front_immediate q))) of
      (Some a, Some b) \<Rightarrow> if b < a then pop_immediate now (settled q) else pop_timer now (settled q)
    | (Some _, None) \<Rightarrow> pop_timer now (settled q)
    | (None, Some _) \<Rightarrow> pop_immediate now (settled q)
    | (None, None) \<Rightarrow> (None, settled q))"
  unfolding pop_earliest_def Let_def split_beta front_immediate_after_timer settled_def ..

lemma next_deadline_eq:
  "next_deadline q = (if pending q \<noteq> [] then (Some (epoch q), q)
     else (case (fst (front_timer q), fst (front_immediate q)) of
             (Some a, Some b) \<Rightarrow> Some (fst (min a b))
           | (Some a, None) \<Rightarrow> Some (fst a)
           | (None, Some b) \<Rightarrow> Some (fst b)
           | (None, None) \<Rightarrow> None, settled q))"
  unfolding next_deadline_def Let_def split_beta front_immediate_after_timer settled_def ..

lemma peek_due_eq:
  "peek_due now q = (if pending q \<noteq> [] then (Some DuePending, q)
     else (case (due_only now (fst (front_timer q)), due_only now (fst (front_immediate q))) of
             (Some a, Some b) \<Rightarrow> if b < a then Some (DueImmediate (fst b)) else Some (DueTimer (fst a))
           | (Some a, None) \<Rightarrow> Some (DueTimer (fst a))
           | (None, Some b) \<Rightarrow> Some (DueImmediate (fst b))
           | (None, None) \<Rightarrow> None, settled q))"
  unfolding peek_due_def Let_def split_beta front_immediate_after_timer settled_def ..

lemma slot_key_mono: "x \<le> y \<Longrightarrow> slot_key x \<le> slot_key y"
  by (cases x; cases y) (auto simp: slot_key_def)

lemma front_timer_cases:
  assumes "tq_inv t q"
  obtains (none) "fst (front_timer q) = None" "\<And>y. y \<in> set (heap q) \<Longrightarrow> \<not> slot_live (active q) y"
  | (some) x h where "fst (front_timer q) = Some (slot_key x)"
      "skip_dead_heap (active q) (heap q) = x # h" "x \<in> set (heap q)" "slot_live (active q) x"
      "\<And>y. y \<in> set (heap q) \<Longrightarrow> slot_live (active q) y \<Longrightarrow> slot_key x \<le> slot_key y"
proof (cases "skip_dead_heap (active q) (heap q)")
  case Nil
  have "filter_mset (slot_live (active q)) (mset (heap q)) = {#}"
    using skip_dead_heap_live [of "active q" "heap q"] Nil by simp
  then have "\<not> slot_live (active q) y" if "y \<in> set (heap q)" for y
    by (rule filter_mset_emptyD) (use that in simp)
  with Nil show thesis
    by (intro none) (simp_all add: front_timer_def heap_peek_def)
next
  case (Cons x h)
  then have peek: "heap_peek (skip_dead_heap (active q) (heap q)) = Some x"
    by (simp add: heap_peek_def)
  have ok: "sorted (skip_dead_heap (active q) (heap q))"
    using tq_invD(5) [OF assms] by (simp add: skip_dead_heap_eq sorted_dropWhile)
  note least = bh.peek_is_least_live [OF ok peek, of "slot_live (active q)", OF skip_dead_heap_head [OF peek],
      unfolded skip_dead_heap_live]
  show thesis
  proof (rule some)
    show "fst (front_timer q) = Some (slot_key x)"
      using peek by (simp add: front_timer_def Let_def)
    show "slot_key x \<le> slot_key y" if "y \<in> set (heap q)" "slot_live (active q) y" for y
      using bspec [OF conjunct2 [OF least], of y] that by (intro slot_key_mono) simp
  qed (use Cons least in simp_all)
qed

lemma front_immediate_cases:
  assumes "tq_inv t q"
  obtains (none) "fst (front_immediate q) = None"
      "\<And>y. y \<in> set (immediates q) \<Longrightarrow> \<not> slot_live (active q) y"
  | (some) x h where "fst (front_immediate q) = Some (slot_key x)"
      "skip_dead_deque (active q) (immediates q) = x # h" "x \<in> set (immediates q)"
      "slot_live (active q) x"
      "\<And>y. y \<in> set (immediates q) \<Longrightarrow> slot_live (active q) y \<Longrightarrow> slot_key x \<le> slot_key y"
proof (cases "skip_dead_deque (active q) (immediates q)")
  case Nil
  then have "\<not> slot_live (active q) y" if "y \<in> set (immediates q)" for y
    using dropWhile_dead_keeps_live [OF that, of "active q"] that
    by (auto simp: skip_dead_deque_eq)
  with Nil show thesis
    by (intro none) (simp_all add: front_immediate_def)
next
  case (Cons x h)
  have sorted: "sorted (x # h)"
    using tq_invD(6) [OF assms] by (simp add: Cons [symmetric] skip_dead_deque_eq sorted_dropWhile)
  show thesis
  proof (rule some)
    show "fst (front_immediate q) = Some (slot_key x)"
      using Cons by (simp add: front_immediate_def Let_def)
    show "x \<in> set (immediates q)"
      using Cons by (metis list.set_intros(1) set_dropWhileD skip_dead_deque_eq)
    show "slot_key x \<le> slot_key y" if "y \<in> set (immediates q)" "slot_live (active q) y" for y
      using sorted dropWhile_dead_keeps_live [OF that] Cons
      by (intro slot_key_mono) (auto simp: skip_dead_deque_eq)
  qed (use Cons skip_dead_deque_head [OF Cons] in simp_all)
qed

lemma pop_earliest_inv: "tq_inv t q \<Longrightarrow> tq_inv t (snd (pop_earliest now q))"
  using settled_inv [of t q] skip_dead_heap_head [of "active q" "heap q"]
    skip_dead_deque_head [of "active q" "immediates q"]
  by (auto simp: pop_earliest_eq intro!: pop_timer_inv pop_immediate_inv split: option.splits)

lemma pop_due_loop_inv: "tq_inv t q \<Longrightarrow> tq_inv t (snd (pop_due_loop now q))"
proof (induction now q rule: pop_due_loop.induct)
  case (1 now q)
  show ?case
  proof (cases "pending q")
    case Nil
    then show ?thesis
      using 1(3) by (simp add: pop_due_loop.simps [of now q] pop_earliest_inv)
  next
    case (Cons p ps)
    show ?thesis
    proof (cases "pe_gate p")
      case GateOpen
      then show ?thesis
        using Cons 1(3) by (simp add: pop_due_loop.simps [of now q])
    next
      case (GateTimers u)
      let ?q = "snd (front_timer q)"
      have q: "tq_inv t ?q" "tq_inv t (set_front_gate GateOpen ?q)"
        using 1(3) by (simp_all add: front_timer_inv set_front_gate_inv)
      have "tq_inv t (snd (pop_timer now ?q))"
        using q(1) skip_dead_heap_head by (intro pop_timer_inv) auto
      then show ?thesis
        using 1(1) [OF Cons GateTimers prod.collapse _ q(2)] Cons GateTimers
        by (auto simp: pop_due_loop.simps [of now q] split_beta)
    next
      case (GateImmediates u)
      let ?q = "snd (front_immediate q)"
      have q: "tq_inv t ?q" "tq_inv t (set_front_gate (GateTimers now) ?q)"
        using 1(3) by (simp_all add: front_immediate_inv set_front_gate_inv)
      have "tq_inv t (snd (pop_immediate now ?q))"
        using q(1) skip_dead_deque_head by (intro pop_immediate_inv) auto
      then show ?thesis
        using 1(2) [OF Cons GateImmediates prod.collapse _ q(2)] Cons GateImmediates
        by (auto simp: pop_due_loop.simps [of now q] split_beta)
    qed
  qed
qed

lemma pop_due_inv: "tq_inv t q \<Longrightarrow> tq_inv t (snd (pop_due now q))"
  by (simp add: pop_due_def pop_due_loop_inv)

lemma next_deadline_inv: "tq_inv t q \<Longrightarrow> tq_inv t (snd (next_deadline q))"
  by (simp add: next_deadline_eq settled_inv)

lemma peek_due_inv: "tq_inv t q \<Longrightarrow> tq_inv t (snd (peek_due now q))"
  by (simp add: peek_due_eq settled_inv)

lemmas tq_op_inv = schedule_inv schedule_immediate_inv cancel_inv set_ref_inv timer_pending_inv
  callback_done_inv pop_due_inv next_deadline_inv peek_due_inv

section \<open>What a pop runs\<close>

lemma pop_timer_fires:
  assumes "heap q = x # h" "map_of (active q) (slot_id x) = Some e"
  shows "fst (pop_timer now q) = Some (te_callback e, te_args e)"
    "popped (snd (pop_timer now q)) = Some (DueTimer (fst x))"
    "pending (snd (pop_timer now q)) = pending q"
  using assms
  by (cases x; auto simp: pop_timer_def heap_defs slot_id_def popped_def Let_def split: option.splits)+

lemma pop_immediate_fires:
  assumes "immediates q = x # h" "map_of (active q) (slot_id x) = Some e"
  shows "fst (pop_immediate now q) = Some (te_callback e, te_args e)"
    "popped (snd (pop_immediate now q)) = Some (DueImmediate now)"
    "pending (snd (pop_immediate now q)) = pending q"
  using assms by (cases x; auto simp: pop_immediate_def slot_id_def popped_def Let_def)+

lemma slot_live_entry:
  assumes "slot_live act x"
  obtains e where "map_of act (slot_id x) = Some e"
  using assms by (auto simp: slot_live_def contains_id_def slot_id_def)

lemma slot_key_fst_mono: "slot_key x \<le> slot_key y \<Longrightarrow> fst x \<le> fst y"
  by (auto simp: slot_key_def)

text \<open>\<open>slots q\<close>: every slot of both queues; the live ones are those of entries not cancelled or run.\<close>

definition slots :: "('cb, 'v) timer_queue \<Rightarrow> slot set" where
  "slots q = set (heap q) \<union> set (immediates q)"

definition live_slots :: "('cb, 'v) timer_queue \<Rightarrow> slot set" where
  "live_slots q = {x \<in> slots q. map_of (active q) (slot_id x) \<noteq> None}"

lemma live_slotsI:
  "x \<in> set (heap q) \<union> set (immediates q) \<Longrightarrow> slot_live (active q) x \<Longrightarrow> x \<in> live_slots q"
  by (simp add: live_slots_def slots_def slot_live_def contains_id_def slot_id_def)

lemma live_slotsE:
  assumes "x \<in> live_slots q"
  shows "slot_live (active q) x" "x \<in> set (heap q) \<or> x \<in> set (immediates q)"
  using assms by (auto simp: live_slots_def slots_def slot_live_def contains_id_def slot_id_def)

text \<open>The due front of one queue: nothing live is due in it, or its least live slot is.\<close>

definition due_front :: "instant \<Rightarrow> slot list \<Rightarrow> (u32 \<times> 'e) list \<Rightarrow> (instant \<times> nat) option \<Rightarrow> slot list \<Rightarrow> bool"
  where
  "due_front now xs act k ys \<longleftrightarrow> (case k of
       None \<Rightarrow> \<forall>y \<in> set xs. slot_live act y \<longrightarrow> now < fst y
     | Some _ \<Rightarrow> ys \<noteq> [] \<and> k = Some (slot_key (hd ys)) \<and> hd ys \<in> set xs \<and> slot_live act (hd ys) \<and>
         fst (hd ys) \<le> now \<and> (\<forall>y \<in> set xs. slot_live act y \<longrightarrow> slot_key (hd ys) \<le> slot_key y))"

lemma due_front_timer:
  assumes "tq_inv t q"
  shows "due_front now (heap q) (active q) (due_only now (fst (front_timer q))) (heap (settled q))"
proof (rule front_timer_cases [OF assms], goal_cases none some)
  case (some x h)
  have "now < fst y" if "\<not> fst x \<le> now" "y \<in> set (heap q)" "slot_live (active q) y" for y
    using slot_key_fst_mono [OF some(5) [OF that(2,3)]] that(1) by simp
  then show ?case
    using some by (simp add: due_front_def due_only_def slot_key_def)
qed (simp add: due_front_def due_only_def)

lemma due_front_immediate:
  assumes "tq_inv t q"
  shows "due_front now (immediates q) (active q) (due_only now (fst (front_immediate q)))
           (immediates (settled q))"
proof (rule front_immediate_cases [OF assms], goal_cases none some)
  case (some x h)
  have "now < fst y" if "\<not> fst x \<le> now" "y \<in> set (immediates q)" "slot_live (active q) y" for y
    using slot_key_fst_mono [OF some(5) [OF that(2,3)]] that(1) by simp
  then show ?case
    using some by (simp add: due_front_def due_only_def slot_key_def)
qed (simp add: due_front_def due_only_def)

lemma due_frontE:
  assumes "due_front now xs act k ys"
  obtains "k = None" "\<And>y. y \<in> set xs \<Longrightarrow> slot_live act y \<Longrightarrow> now < fst y"
  | x h e where "ys = x # h" "k = Some (slot_key x)" "x \<in> set xs" "slot_live act x"
      "map_of act (slot_id x) = Some e" "fst x \<le> now"
      "\<And>y. y \<in> set xs \<Longrightarrow> slot_live act y \<Longrightarrow> slot_key x \<le> slot_key y"
  using assms
  by (cases k; cases ys)
    (auto simp: due_front_def slot_live_def contains_id_def slot_id_def split: option.splits)

lemma not_due_later: "now < fst y \<Longrightarrow> fst x \<le> now \<Longrightarrow> slot_key x \<le> slot_key y"
  by (auto simp: slot_key_def)

lemma pop_earliest_cases:
  assumes inv: "tq_inv t q"
  obtains (idle) "pop_earliest now q = (None, settled q)" "\<And>y. y \<in> live_slots q \<Longrightarrow> now < fst y"
      "pending q = [] \<Longrightarrow> fst (peek_due now q) = None"
  | (timer) x h e where "pop_earliest now q = pop_timer now (settled q)"
      "heap (settled q) = x # h" "map_of (active q) (slot_id x) = Some e"
      "x \<in> live_slots q" "fst x \<le> now" "\<And>y. y \<in> live_slots q \<Longrightarrow> slot_key x \<le> slot_key y"
      "pending q = [] \<Longrightarrow> fst (peek_due now q) = Some (DueTimer (fst x))"
  | (immediate) x h e where "pop_earliest now q = pop_immediate now (settled q)"
      "immediates (settled q) = x # h" "map_of (active q) (slot_id x) = Some e"
      "x \<in> live_slots q" "fst x \<le> now" "\<And>y. y \<in> live_slots q \<Longrightarrow> slot_key x \<le> slot_key y"
      "pending q = [] \<Longrightarrow> fst (peek_due now q) = Some (DueImmediate (fst x))"
proof -
  note eqs = pop_earliest_eq [of now q] peek_due_eq [of now q]
  have key: "fst (slot_key z) = fst z" for z
    by (simp add: slot_key_def)
  show thesis
  proof (rule due_frontE [OF due_front_timer [OF inv, of now]], goal_cases no_timer timer)
    case no_timer
    note t = this
    show thesis
    proof (rule due_frontE [OF due_front_immediate [OF inv, of now]], goal_cases none im)
      case none
      have "now < fst y" if "y \<in> live_slots q" for y
        using none(2) t(2) live_slotsE [OF that] by blast
      then show thesis
        using none(1) t(1) by (intro idle) (simp_all add: eqs)
    next
      case (im x h e)
      have "slot_key x \<le> slot_key y" if "y \<in> live_slots q" for y
        using im(7) t(2) not_due_later [OF _ im(6)] live_slotsE [OF that] by blast
      then show thesis
        using im t(1) by (intro immediate [of x h e]) (simp_all add: eqs key live_slotsI)
    qed
  next
    case (timer a h e)
    note t = this
    show thesis
    proof (rule due_frontE [OF due_front_immediate [OF inv, of now]], goal_cases none im)
      case none
      have "slot_key a \<le> slot_key y" if "y \<in> live_slots q" for y
        using t(7) none(2) not_due_later [OF _ t(6)] live_slotsE [OF that] by blast
      then show thesis
        using t none(1) by (intro that(2) [of a h e]) (simp_all add: eqs key live_slotsI)
    next
      case (im b d e')
      show thesis
      proof (cases "slot_key b < slot_key a")
        case True
        have "slot_key b \<le> slot_key y" if "y \<in> live_slots q" for y
          using im(7) t(7) True live_slotsE [OF that] by (meson order.strict_implies_order order.trans)
        then show thesis
          using True im t(2) by (intro immediate [of b d e']) (simp_all add: eqs key live_slotsI)
      next
        case False
        have "slot_key a \<le> slot_key y" if "y \<in> live_slots q" for y
          using im(7) t(7) False live_slotsE [OF that] by (meson linorder_not_less order.trans)
        then show thesis
          using False t im(2) by (intro that(2) [of a h e]) (simp_all add: eqs key live_slotsI)
      qed
    qed
  qed
qed

section \<open>Runs of the queue\<close>

text \<open>
  One step is one call of an operation at a clock reading no earlier than the last one
  (\<open>Instant::now()\<close> is monotonic); the reachable states are those of the runs from a new queue.
\<close>

inductive tq_step ::
    "instant \<Rightarrow> ('cb, 'v) timer_queue \<Rightarrow> instant \<Rightarrow> ('cb, 'v) timer_queue \<Rightarrow> bool" where
  step_schedule: "t \<le> now \<Longrightarrow> schedule now q e delay = Some (q', i) \<Longrightarrow> tq_step t q now q'"
| step_immediate: "t \<le> now \<Longrightarrow> schedule_immediate now q e = Some (q', i) \<Longrightarrow> tq_step t q now q'"
| step_cancel: "t \<le> now \<Longrightarrow> tq_step t q now (cancel q i)"
| step_set_ref: "t \<le> now \<Longrightarrow> tq_step t q now (set_ref q i v)"
| step_pending: "t \<le> now \<Longrightarrow> tq_step t q now (timer_pending q cb args)"
| step_pop: "t \<le> now \<Longrightarrow> tq_step t q now (snd (pop_due now q))"
| step_done: "t \<le> now \<Longrightarrow> tq_step t q now (callback_done q)"
| step_peek: "t \<le> now \<Longrightarrow> tq_step t q now (snd (peek_due now q))"
| step_deadline: "t \<le> now \<Longrightarrow> tq_step t q now (snd (next_deadline q))"

inductive tq_reachable :: "instant \<Rightarrow> ('cb, 'v) timer_queue \<Rightarrow> bool" where
  reach_new: "tq_reachable t (tq_default t)"
| reach_step: "tq_reachable t q \<Longrightarrow> tq_step t q u q' \<Longrightarrow> tq_reachable u q'"

lemma tq_step_inv: "tq_step t q u q' \<Longrightarrow> tq_inv t q \<Longrightarrow> tq_inv u q'"
  by (induction rule: tq_step.induct) (auto intro: tq_op_inv tq_inv_later)

lemma reachable_inv: "tq_reachable t q \<Longrightarrow> tq_inv t q"
  by (induction rule: tq_reachable.induct) (auto intro: tq_default_inv tq_step_inv)

section \<open>Properties\<close>

text \<open>A small queue reached by two calls, at which the properties below are instantiated.\<close>

definition demo_entry :: "nat \<Rightarrow> (nat, nat) timer_entry" where
  "demo_entry n = \<lparr>te_callback = n, te_args = [n], te_interval = None, te_is_ref = True\<rparr>"

definition demo_one :: "(nat, nat) timer_queue" where
  "demo_one = \<lparr>next_id = 2, seq = 1, epoch = 0, heap = [(5, 1, 1)], immediates = [],
     active = [(1, demo_entry 7)], ref_count = 1, pending = [], running_cb = None\<rparr>"

definition demo_two :: "(nat, nat) timer_queue" where
  "demo_two = \<lparr>next_id = 3, seq = 2, epoch = 0, heap = [(5, 1, 1)], immediates = [(2, 2, 2)],
     active = [(1, demo_entry 7), (2, demo_entry 8)], ref_count = 2, pending = [], running_cb = None\<rparr>"

lemmas demo_defs = demo_entry_def demo_one_def demo_two_def

lemma demo_two_reachable: "tq_reachable 2 demo_two"
proof -
  have "schedule 0 (tq_default 0) (demo_entry 7) 5 = Some (demo_one, 1)"
    by (simp add: schedule_def tq_insert_def tq_default_def demo_defs find_free_id.simps contains_id_def
        succ_id_def heap_defs)
  then have one: "tq_reachable 0 demo_one"
    by (intro reach_step [OF reach_new step_schedule]) simp
  have "schedule_immediate 2 demo_one (demo_entry 8) = Some (demo_two, 2)"
    by (simp add: schedule_immediate_def tq_insert_def demo_defs find_free_id.simps contains_id_def
        succ_id_def)
  then show ?thesis
    by (intro reach_step [OF one step_immediate]) simp_all
qed

text \<open>
  Property C14. In every reachable state of the timer queue no live timer or immediate is lost: each
  has a nonzero id and a slot in the heap or the immediates queue, however many others were
  cancelled and swept; \<open>ref_count\<close> is exactly the number of ref'd live entries, so its decrements
  never underflow; and both queues are in (deadline, sequence) order.
\<close>

theorem timer_queue_invariant:
  assumes "tq_reachable t q"
  shows "(\<forall>i e. map_of (active q) i = Some e \<longrightarrow> i \<noteq> 0 \<and> (\<exists>x \<in> slots q. slot_id x = i)) \<and>
    ref_count q = length (filter (\<lambda>p. te_is_ref (snd p)) (active q)) \<and>
    sorted (heap q) \<and> sorted (immediates q)"
proof -
  note inv = reachable_inv [OF assms]
  have "i \<noteq> 0 \<and> (\<exists>x \<in> slots q. slot_id x = i)" if "map_of (active q) i = Some e" for i e
  proof -
    have i: "i \<in> fst ` set (active q)"
      using map_of_SomeD [OF that] by force
    then show ?thesis
      using tq_invD(2) [OF inv] subsetD [OF tq_invD(10) [OF inv] i]
      unfolding queued_ids_def slots_def by (metis imageE)
  qed
  then show ?thesis
    using tq_invD(4-6) [OF inv] by (auto simp: ref_total_def)
qed

theorem timer_queue_invariant_witness:
  "tq_reachable 2 demo_two \<and> ref_count demo_two = 2 \<and>
   (\<exists>x \<in> slots demo_two. slot_id x = 2) \<and> sorted (heap demo_two)"
  using timer_queue_invariant [OF demo_two_reachable] demo_two_reachable
  by (auto simp: demo_defs)

text \<open>
  Property C7. With no pending callback in front, \<open>pop_due\<close> runs the due live entry with the least
  (deadline, sequence) of timers and immediates together, and returns nothing exactly when no live
  entry is due.
\<close>

theorem pop_due_earliest:
  assumes "tq_reachable t q" "pending q = []"
  shows "case fst (pop_due now q) of
      None \<Rightarrow> \<forall>y \<in> live_slots q. now < fst y
    | Some call \<Rightarrow> \<exists>x \<in> live_slots q. \<exists>e. map_of (active q) (slot_id x) = Some e \<and>
        call = (te_callback e, te_args e) \<and> fst x \<le> now \<and>
        (\<forall>y \<in> live_slots q. slot_key x \<le> slot_key y)"
proof -
  let ?q = "q\<lparr>running_cb := None\<rparr>"
  have inv: "tq_inv t ?q"
    using reachable_inv [OF assms(1)] by simp
  have live: "live_slots ?q = live_slots q" "active ?q = active q"
    by (simp_all add: live_slots_def slots_def)
  have pop: "pop_due now q = pop_earliest now ?q"
    using assms(2) by (simp add: pop_due_def pop_due_loop.simps)
  show ?thesis
  proof (rule pop_earliest_cases [OF inv, of now], goal_cases idle timer immediate)
    case idle
    then show ?case
      using pop live by simp
  next
    case (timer x h e)
    then have "fst (pop_due now q) = Some (te_callback e, te_args e)"
      using pop pop_timer_fires(1) [OF timer(2), of e now] by simp
    then show ?case
      using timer(3-6) unfolding live by (simp only: option.case) blast
  next
    case (immediate x h e)
    then have "fst (pop_due now q) = Some (te_callback e, te_args e)"
      using pop pop_immediate_fires(1) [OF immediate(2), of e now] by simp
    then show ?case
      using immediate(3-6) unfolding live by (simp only: option.case) blast
  qed
qed

theorem pop_due_earliest_witness:
  "tq_reachable 2 demo_two \<and> pending demo_two = [] \<and> 9 \<ge> (5 :: nat) \<and>
   (case fst (pop_due 9 demo_two) of
      None \<Rightarrow> \<forall>y \<in> live_slots demo_two. 9 < fst y
    | Some call \<Rightarrow> \<exists>x \<in> live_slots demo_two. \<exists>e. map_of (active demo_two) (slot_id x) = Some e \<and>
        call = (te_callback e, te_args e) \<and> fst x \<le> 9 \<and>
        (\<forall>y \<in> live_slots demo_two. slot_key x \<le> slot_key y))"
proof -
  have p: "pending demo_two = []"
    by (simp add: demo_defs)
  show ?thesis
    using pop_due_earliest [OF demo_two_reachable p, of 9] demo_two_reachable p by simp
qed

lemma pop_due_loop_pending:
  "pending q \<noteq> [] \<Longrightarrow> tq_inv t q \<Longrightarrow> fst (pop_due_loop now q) \<noteq> None"
proof (induction now q rule: pop_due_loop.induct)
  case (1 now q)
  obtain p ps where p: "pending q = p # ps"
    using 1(3) by (cases "pending q") auto
  show ?case
  proof (cases "pe_gate p")
    case GateOpen
    then show ?thesis
      using p by (simp add: pop_due_loop.simps [of now q])
  next
    case (GateTimers u)
    let ?q = "snd (front_timer q)"
    have q: "pending (set_front_gate GateOpen ?q) \<noteq> []" "tq_inv t (set_front_gate GateOpen ?q)"
      using p 1(4) by (simp_all add: set_front_gate_def set_front_gate_inv front_timer_inv)
    have "fst (pop_timer now ?q) \<noteq> None" if "fst (front_timer q) = Some k" for k
    proof (rule front_timer_cases [OF 1(4)], goal_cases none some)
      case (some x h)
      then show ?case
        using pop_timer_fires(1) [of ?q x h _ now] by (auto elim: slot_live_entry)
    qed (use that in simp)
    then show ?thesis
      using 1(1) [OF p GateTimers prod.collapse _ q] p GateTimers
      by (auto simp: pop_due_loop.simps [of now q] split_beta split: option.splits)
  next
    case (GateImmediates u)
    let ?q = "snd (front_immediate q)"
    have q: "pending (set_front_gate (GateTimers now) ?q) \<noteq> []"
      "tq_inv t (set_front_gate (GateTimers now) ?q)"
      using p 1(4) by (simp_all add: set_front_gate_def set_front_gate_inv front_immediate_inv)
    have "fst (pop_immediate now ?q) \<noteq> None" if "fst (front_immediate q) = Some k" for k
    proof (rule front_immediate_cases [OF 1(4)], goal_cases none some)
      case (some x h)
      then show ?case
        using pop_immediate_fires(1) [of ?q x h _ now] by (auto elim: slot_live_entry)
    qed (use that in simp)
    then show ?thesis
      using 1(2) [OF p GateImmediates prod.collapse _ q] p GateImmediates
      by (auto simp: pop_due_loop.simps [of now q] split_beta split: option.splits)
  qed
qed

lemma due_timer_fires:
  assumes "tq_inv t q" "due_only now (fst (front_timer q)) = Some k"
  shows "\<exists>c. fst (pop_timer now (settled q)) = Some c"
proof (rule due_frontE [OF due_front_timer [OF assms(1), of now]], goal_cases none some)
  case (some x h e)
  then show ?case
    using pop_timer_fires(1) [of "settled q" x h e now] by simp
qed (use assms(2) in simp)

lemma due_immediate_fires:
  assumes "tq_inv t q" "due_only now (fst (front_immediate q)) = Some k"
  shows "\<exists>c. fst (pop_immediate now (settled q)) = Some c"
proof (rule due_frontE [OF due_front_immediate [OF assms(1), of now]], goal_cases none some)
  case (some x h e)
  then show ?case
    using pop_immediate_fires(1) [of "settled q" x h e now] by simp
qed (use assms(2) in simp)

lemma pop_earliest_ready:
  assumes "tq_inv t q" "pending q = []"
  shows "fst (pop_earliest now q) \<noteq> None \<longleftrightarrow>
    (case fst (next_deadline q) of None \<Rightarrow> False | Some d \<Rightarrow> d \<le> now)"
proof -
  have "fst (pop_earliest now q) \<noteq> None \<longleftrightarrow>
      due_only now (fst (front_timer q)) \<noteq> None \<or> due_only now (fst (front_immediate q)) \<noteq> None"
    using due_timer_fires [OF assms(1), of now] due_immediate_fires [OF assms(1), of now]
    by (cases "due_only now (fst (front_timer q))"; cases "due_only now (fst (front_immediate q))")
      (simp_all add: pop_earliest_eq)
  moreover have "fst (min a b) \<le> now \<longleftrightarrow> fst a \<le> now \<or> fst b \<le> now" for a b :: "instant \<times> nat"
    by (cases a; cases b) (auto simp: min_def)
  ultimately show ?thesis
    using assms(2) by (auto simp: next_deadline_eq due_only_def split: option.splits if_splits)
qed

text \<open>
  Property C27. The loop's sleep and its pop agree: \<open>pop_due\<close> has something to run at \<open>now\<close> exactly
  when \<open>next_deadline\<close> reports an instant that is not later than \<open>now\<close>. So a loop that sleeps until
  \<open>next_deadline\<close> neither oversleeps a due callback nor wakes to find nothing to run, pending
  callbacks included.
\<close>

theorem pop_due_ready_iff_deadline:
  assumes "tq_reachable t q" "t \<le> now"
  shows "fst (pop_due now q) \<noteq> None \<longleftrightarrow>
    (case fst (next_deadline q) of None \<Rightarrow> False | Some d \<Rightarrow> d \<le> now)"
proof -
  let ?q = "q\<lparr>running_cb := None\<rparr>"
  note inv = reachable_inv [OF assms(1)]
  have inv': "tq_inv t ?q"
    using inv by simp
  show ?thesis
  proof (cases "pending q")
    case Nil
    have "fst (next_deadline ?q) = fst (next_deadline q)"
      by (simp add: next_deadline_eq front_timer_def front_immediate_def Let_def)
    then show ?thesis
      using pop_earliest_ready [OF inv', of now] Nil by (simp add: pop_due_def pop_due_loop.simps)
  next
    case (Cons p ps)
    then have "fst (pop_due now q) \<noteq> None"
      using pop_due_loop_pending [OF _ inv'] by (simp add: pop_due_def)
    moreover have "epoch q \<le> now"
      using tq_invD(11) [OF inv] assms(2) by simp
    ultimately show ?thesis
      using Cons by (simp add: next_deadline_eq)
  qed
qed

theorem pop_due_ready_iff_deadline_witness:
  "tq_reachable 2 demo_two \<and> (2 :: nat) \<le> 3 \<and>
   (fst (pop_due 3 demo_two) \<noteq> None \<longleftrightarrow>
     (case fst (next_deadline demo_two) of None \<Rightarrow> False | Some d \<Rightarrow> d \<le> 3))"
  using pop_due_ready_iff_deadline [OF demo_two_reachable, of 3] demo_two_reachable by simp

text \<open>
  Property C28. \<open>peek_due\<close> says what \<open>pop_due\<close> will run: with no pending callback, it reports a timer
  exactly when the pop runs a timer with that deadline, an immediate exactly when the pop runs an
  immediate, and nothing exactly when the pop runs nothing.
\<close>

theorem peek_due_predicts_pop:
  assumes "tq_reachable t q" "pending q = []"
  shows "case fst (peek_due now q) of
      None \<Rightarrow> fst (pop_due now q) = None \<and> popped (snd (pop_due now q)) = None
    | Some (DueTimer d) \<Rightarrow> fst (pop_due now q) \<noteq> None \<and> popped (snd (pop_due now q)) = Some (DueTimer d)
    | Some (DueImmediate _) \<Rightarrow> fst (pop_due now q) \<noteq> None \<and>
        popped (snd (pop_due now q)) = Some (DueImmediate now)
    | Some DuePending \<Rightarrow> False"
proof -
  let ?q = "q\<lparr>running_cb := None\<rparr>"
  have inv: "tq_inv t ?q"
    using reachable_inv [OF assms(1)] by simp
  have pop: "pop_due now q = pop_earliest now ?q"
    using assms(2) by (simp add: pop_due_def pop_due_loop.simps)
  have peek: "fst (peek_due now ?q) = fst (peek_due now q)"
    by (simp add: peek_due_eq front_timer_def front_immediate_def Let_def)
  have p: "pending ?q = []"
    using assms(2) by simp
  show ?thesis
  proof (rule pop_earliest_cases [OF inv, of now], goal_cases idle timer immediate)
    case idle
    then show ?case
      using pop idle(3) [OF p] peek by (simp add: popped_def)
  next
    case (timer x h e)
    then show ?case
      using pop timer(7) [OF p] peek pop_timer_fires(1,2) [OF timer(2), of e now] by simp
  next
    case (immediate x h e)
    then show ?case
      using pop immediate(7) [OF p] peek pop_immediate_fires(1,2) [OF immediate(2), of e now] by simp
  qed
qed

theorem peek_due_predicts_pop_witness:
  "tq_reachable 2 demo_two \<and> pending demo_two = [] \<and>
   (case fst (peek_due 3 demo_two) of
      None \<Rightarrow> fst (pop_due 3 demo_two) = None \<and> popped (snd (pop_due 3 demo_two)) = None
    | Some (DueTimer d) \<Rightarrow> fst (pop_due 3 demo_two) \<noteq> None \<and>
        popped (snd (pop_due 3 demo_two)) = Some (DueTimer d)
    | Some (DueImmediate _) \<Rightarrow> fst (pop_due 3 demo_two) \<noteq> None \<and>
        popped (snd (pop_due 3 demo_two)) = Some (DueImmediate 3)
    | Some DuePending \<Rightarrow> False)"
proof -
  have p: "pending demo_two = []"
    by (simp add: demo_defs)
  show ?thesis
    using peek_due_predicts_pop [OF demo_two_reachable p, of 3] demo_two_reachable p by simp
qed

definition live_calls :: "('cb, 'v) timer_queue \<Rightarrow> ('cb \<times> 'v list) set" where
  "live_calls q = {(te_callback e, te_args e) |j e. map_of (active q) j = Some e}"

lemma live_calls_frame: "active q' = active q \<Longrightarrow> live_calls q' = live_calls q"
  by (simp add: live_calls_def)

lemma pop_timer_source: "fst (pop_timer now q) = Some c \<Longrightarrow> c \<in> live_calls q"
  by (force simp: pop_timer_def live_calls_def Let_def split: option.splits prod.splits)

lemma pop_immediate_source: "fst (pop_immediate now q) = Some c \<Longrightarrow> c \<in> live_calls q"
  by (force simp: pop_immediate_def live_calls_def Let_def split: option.splits list.splits prod.splits)

lemma pop_earliest_source: "fst (pop_earliest now q) = Some c \<Longrightarrow> c \<in> live_calls q"
  using pop_timer_source [of now "settled q" c] pop_immediate_source [of now "settled q" c]
    live_calls_frame [of "settled q" q]
  by (auto simp: pop_earliest_eq split: option.splits if_splits)

definition pending_calls :: "('cb, 'v) timer_queue \<Rightarrow> ('cb \<times> 'v list) list" where
  "pending_calls q = map (\<lambda>p. (pe_callback p, pe_args p)) (pending q)"

lemma pending_calls_frame [simp]:
  "pending_calls (set_front_gate g q) = pending_calls q"
  "pending_calls (snd (front_timer q)) = pending_calls q"
  "pending_calls (snd (front_immediate q)) = pending_calls q"
  "live_calls (set_front_gate g q) = live_calls q"
  "live_calls (snd (front_timer q)) = live_calls q"
  "live_calls (snd (front_immediate q)) = live_calls q"
  by (simp_all add: pending_calls_def live_calls_def set_front_gate_def split: list.splits)

lemma pop_due_loop_source:
  "fst (pop_due_loop now q) = Some c \<Longrightarrow>
     c \<in> set (pending_calls q) \<or> c \<in> live_calls q"
proof (induction now q rule: pop_due_loop.induct)
  case (1 now q)
  show ?case
  proof (cases "pending q")
    case Nil
    then show ?thesis
      using 1(3) pop_earliest_source [of now q c] by (simp add: pop_due_loop.simps [of now q])
  next
    case (Cons p ps)
    show ?thesis
    proof (cases "pe_gate p")
      case GateOpen
      then show ?thesis
        using 1(3) Cons by (auto simp: pop_due_loop.simps [of now q] pending_calls_def)
    next
      case (GateTimers u)
      then show ?thesis
        using 1(3) Cons 1(1) [OF Cons GateTimers prod.collapse]
          pop_timer_source [of now "snd (front_timer q)" c]
        by (auto simp: pop_due_loop.simps [of now q] split_beta split: if_splits)
    next
      case (GateImmediates u)
      then show ?thesis
        using 1(3) Cons 1(2) [OF Cons GateImmediates prod.collapse]
          pop_immediate_source [of now "snd (front_immediate q)" c]
        by (auto simp: pop_due_loop.simps [of now q] split_beta split: if_splits)
    qed
  qed
qed

lemma cancel_lookup:
  "map_of (active (cancel q i)) j = (if j = i then None else map_of (active q) j)"
  "pending (cancel q i) = pending q"
  by (auto simp: cancel_def Let_def table_simps split: option.splits)

text \<open>
  Property C16. A cancelled timer never runs: what \<open>pop_due\<close> returns after \<open>cancel q i\<close> is a pending
  callback or the callback of a live entry other than \<open>i\<close>, even when \<open>i\<close> was due at the same instant.
\<close>

theorem cancelled_timer_never_fires:
  assumes "fst (pop_due now (cancel q i)) = Some call"
  shows "(\<exists>p \<in> set (pending q). call = (pe_callback p, pe_args p)) \<or>
    (\<exists>j e. j \<noteq> i \<and> map_of (active q) j = Some e \<and> call = (te_callback e, te_args e))"
proof -
  have "call \<in> set (pending_calls (cancel q i)) \<or> call \<in> live_calls (cancel q i)"
    using pop_due_loop_source [of now "cancel q i\<lparr>running_cb := None\<rparr>" call] assms
    by (simp add: pop_due_def pending_calls_def live_calls_def)
  then show ?thesis
    by (auto simp: pending_calls_def live_calls_def cancel_lookup split: if_splits)
qed

theorem cancelled_timer_never_fires_witness:
  "fst (pop_due 9 (cancel demo_two 2)) = Some (7, [7]) \<and>
   ((\<exists>p \<in> set (pending demo_two). (7, [7]) = (pe_callback p, pe_args p)) \<or>
    (\<exists>j e. j \<noteq> 2 \<and> map_of (active demo_two) j = Some e \<and> (7, [7]) = (te_callback e, te_args e)))"
proof -
  have "fst (pop_due 9 (cancel demo_two 2)) = Some (7, [7])"
    by (simp add: cancel_def demo_defs pop_due_def pop_due_loop.simps pop_earliest_def front_timer_def
        front_immediate_def skip_dead_heap.simps slot_live_def contains_id_def heap_defs due_only_def
        slot_key_def pop_timer_def)
  then show ?thesis
    using cancelled_timer_never_fires [of 9 demo_two 2 "(7, [7])"] by simp
qed

text \<open>
  Property C30. Scheduling always finds an id: while fewer than \<open>2 ^ 32 - 1\<close> entries are live, the
  search of \<open>insert\<close> ends, the id is nonzero and not in use, and the entry is live under it
  afterwards with every other entry unchanged.
\<close>

theorem schedule_returns_fresh_id:
  assumes "tq_reachable t q" "length (active q) < 2 ^ 32 - 1"
  shows "\<exists>q' i. schedule now q e delay = Some (q', i) \<and> i \<noteq> 0 \<and> map_of (active q) i = None \<and>
    (\<forall>j. map_of (active q') j = (if j = i then Some e else map_of (active q) j)) \<and>
    (now + delay, seq q', i) \<in> set (heap q')"
proof -
  have n: "next_id q \<noteq> 0"
    using tq_invD(1) [OF reachable_inv [OF assms(1)]] .
  obtain i where "find_free_id (active q) (next_id q) = Some i"
    using find_free_id_returns [OF n assms(2)] by blast
  then obtain q1 s where ins: "tq_insert q e = Some (q1, i, s)"
    by (simp add: tq_insert_def Let_def)
  note shape = tq_insert_shape [OF ins n]
  have "schedule now q e delay = Some (q1\<lparr>heap := heap_push (now + delay, s, i) (heap q1)\<rparr>, i)"
    by (simp add: schedule_def ins)
  then show ?thesis
    using shape(1,2) by (auto simp: shape(3,4) table_simps heap_push_def set_insort_key)
qed

theorem schedule_returns_fresh_id_witness:
  "tq_reachable 2 demo_two \<and> length (active demo_two) < 2 ^ 32 - 1 \<and>
   (\<exists>q' i. schedule 4 demo_two (demo_entry 9) 1 = Some (q', i) \<and> i \<noteq> 0 \<and>
      map_of (active demo_two) i = None \<and> map_of (active q') i = Some (demo_entry 9))"
proof -
  have len: "length (active demo_two) < 2 ^ 32 - 1"
    by (simp add: demo_defs)
  show ?thesis
    using schedule_returns_fresh_id [OF demo_two_reachable len, of 4 "demo_entry 9" 1]
      demo_two_reachable len by auto
qed

definition timer_slots :: "('cb, 'v) timer_queue \<Rightarrow> slot set" where
  "timer_slots q = {x \<in> set (heap q). map_of (active q) (slot_id x) \<noteq> None}"

definition immediate_slots :: "('cb, 'v) timer_queue \<Rightarrow> slot set" where
  "immediate_slots q = {x \<in> set (immediates q). map_of (active q) (slot_id x) \<noteq> None}"

definition calls_least :: "slot set \<Rightarrow> ('cb, 'v) timer_queue \<Rightarrow> ('cb, 'v) call \<Rightarrow> bool" where
  "calls_least S q c \<longleftrightarrow> (\<exists>x \<in> S. \<exists>e. map_of (active q) (slot_id x) = Some e \<and>
     c = Some (te_callback e, te_args e) \<and> (\<forall>y \<in> S. slot_key x \<le> slot_key y))"

lemma slot_live_id: "slot_live act x \<longleftrightarrow> map_of act (slot_id x) \<noteq> None"
  by (simp add: slot_live_def contains_id_def slot_id_def)

lemma calls_leastI:
  "x \<in> S \<Longrightarrow> map_of (active q) (slot_id x) = Some e \<Longrightarrow> c = Some (te_callback e, te_args e) \<Longrightarrow>
     (\<And>y. y \<in> S \<Longrightarrow> slot_key x \<le> slot_key y) \<Longrightarrow> calls_least S q c"
  unfolding calls_least_def by blast

lemma least_slot_due:
  assumes "x \<in> S" "\<And>y. y \<in> S \<Longrightarrow> slot_key x \<le> slot_key y"
  shows "fst (slot_key x) \<le> u \<longleftrightarrow> (\<exists>y \<in> S. fst y \<le> u)"
  using assms slot_key_fst_mono [of x] by (metis slot_key_def fst_conv order.trans)

lemma in_timer_slots: "x \<in> timer_slots q \<longleftrightarrow> x \<in> set (heap q) \<and> slot_live (active q) x"
  by (simp add: timer_slots_def slot_live_id)

lemma in_immediate_slots:
  "x \<in> immediate_slots q \<longleftrightarrow> x \<in> set (immediates q) \<and> slot_live (active q) x"
  by (simp add: immediate_slots_def slot_live_id)

lemma gate_timer:
  assumes "tq_inv t q"
  shows "(case fst (front_timer q) of None \<Rightarrow> False | Some k \<Rightarrow> fst k \<le> u) \<longleftrightarrow>
      (\<exists>x \<in> timer_slots q. fst x \<le> u)" (is ?P)
    and "fst (front_timer q) = Some k \<Longrightarrow>
      calls_least (timer_slots q) q (fst (pop_timer now (snd (front_timer q))))" (is "_ \<Longrightarrow> ?Q")
proof -
  have "?P \<and> (fst (front_timer q) = Some k \<longrightarrow> ?Q)"
  proof (rule front_timer_cases [OF assms], goal_cases none some)
    case none
    then have "timer_slots q = {}"
      using in_timer_slots by blast
    then show ?case
      using none(1) by simp
  next
    case (some x h)
    have x: "x \<in> timer_slots q" "\<And>y. y \<in> timer_slots q \<Longrightarrow> slot_key x \<le> slot_key y"
      using some(3-5) in_timer_slots by blast+
    obtain e where e: "map_of (active q) (slot_id x) = Some e"
      using some(4) by (rule slot_live_entry)
    then have "fst (pop_timer now (snd (front_timer q))) = Some (te_callback e, te_args e)"
      using pop_timer_fires(1) [of "snd (front_timer q)" x h e now] some(2) by simp
    then show ?case
      using calls_leastI [OF x(1) e _ x(2)] least_slot_due [OF x] some(1) by simp
  qed
  then show ?P "fst (front_timer q) = Some k \<Longrightarrow> ?Q" by blast+
qed

lemma gate_immediate:
  assumes "tq_inv t q"
  shows "(case fst (front_immediate q) of None \<Rightarrow> False | Some k \<Rightarrow> fst k \<le> u) \<longleftrightarrow>
      (\<exists>x \<in> immediate_slots q. fst x \<le> u)" (is ?P)
    and "fst (front_immediate q) = Some k \<Longrightarrow>
      calls_least (immediate_slots q) q (fst (pop_immediate now (snd (front_immediate q))))"
      (is "_ \<Longrightarrow> ?Q")
proof -
  have "?P \<and> (fst (front_immediate q) = Some k \<longrightarrow> ?Q)"
  proof (rule front_immediate_cases [OF assms], goal_cases none some)
    case none
    then have "immediate_slots q = {}"
      using in_immediate_slots by blast
    then show ?case
      using none(1) by simp
  next
    case (some x h)
    have x: "x \<in> immediate_slots q" "\<And>y. y \<in> immediate_slots q \<Longrightarrow> slot_key x \<le> slot_key y"
      using some(3-5) in_immediate_slots by blast+
    obtain e where e: "map_of (active q) (slot_id x) = Some e"
      using some(4) by (rule slot_live_entry)
    then have "fst (pop_immediate now (snd (front_immediate q))) = Some (te_callback e, te_args e)"
      using pop_immediate_fires(1) [of "snd (front_immediate q)" x h e now] some(2) by simp
    then show ?case
      using calls_leastI [OF x(1) e _ x(2)] least_slot_due [OF x] some(1) by simp
  qed
  then show ?P "fst (front_immediate q) = Some k \<Longrightarrow> ?Q" by blast+
qed

lemma loop_open:
  "pending q = p # ps \<Longrightarrow> pe_gate p = GateOpen \<Longrightarrow>
     pop_due_loop now q = (Some (pe_callback p, pe_args p), q\<lparr>pending := ps\<rparr>)"
  by (simp add: pop_due_loop.simps)

lemma set_front_gate_pending:
  "pending q = p # ps \<Longrightarrow> pending (set_front_gate g q) = p\<lparr>pe_gate := g\<rparr> # ps"
  by (simp add: set_front_gate_def)

lemma loop_timers:
  assumes inv: "tq_inv t q" and p: "pending q = p # ps" "pe_gate p = GateTimers u"
  shows "if \<exists>x \<in> timer_slots q. fst x \<le> min u now
    then calls_least (timer_slots q) q (fst (pop_due_loop now q))
    else fst (pop_due_loop now q) = Some (pe_callback p, pe_args p)"
proof -
  let ?q = "snd (front_timer q)"
  let ?due = "case fst (front_timer q) of None \<Rightarrow> False | Some k \<Rightarrow> fst k \<le> min u now"
  have eq: "pop_due_loop now q =
      (if ?due then pop_timer now ?q else pop_due_loop now (set_front_gate GateOpen ?q))"
    using p by (subst pop_due_loop.simps) (simp add: split_beta)
  show ?thesis
  proof (cases ?due)
    case True
    then obtain k where "fst (front_timer q) = Some k"
      by (auto split: option.splits)
    then show ?thesis
      using True gate_timer(1) [OF inv, of "min u now"] gate_timer(2) [OF inv] eq by simp
  next
    case False
    have "pending (set_front_gate GateOpen ?q) = p\<lparr>pe_gate := GateOpen\<rparr> # ps"
      using p(1) by (intro set_front_gate_pending) simp
    from loop_open [OF this]
    have "fst (pop_due_loop now (set_front_gate GateOpen ?q)) = Some (pe_callback p, pe_args p)"
      by simp
    moreover have "\<not> (\<exists>x \<in> timer_slots q. fst x \<le> min u now)"
      using False gate_timer(1) [OF inv, of "min u now"] by blast
    ultimately show ?thesis
      using False eq by (simp only: if_False)
  qed
qed

lemma loop_immediates:
  assumes inv: "tq_inv t q" and p: "pending q = p # ps" "pe_gate p = GateImmediates u"
  shows "if \<exists>x \<in> immediate_slots q. fst x \<le> u
    then calls_least (immediate_slots q) q (fst (pop_due_loop now q))
    else if \<exists>x \<in> timer_slots q. fst x \<le> now
    then calls_least (timer_slots q) q (fst (pop_due_loop now q))
    else fst (pop_due_loop now q) = Some (pe_callback p, pe_args p)"
proof -
  let ?q = "snd (front_immediate q)"
  let ?q' = "set_front_gate (GateTimers now) ?q"
  let ?due = "case fst (front_immediate q) of None \<Rightarrow> False | Some k \<Rightarrow> fst k \<le> u"
  have eq: "pop_due_loop now q = (if ?due then pop_immediate now ?q else pop_due_loop now ?q')"
    using p by (subst pop_due_loop.simps) (simp add: split_beta)
  show ?thesis
  proof (cases ?due)
    case True
    then obtain k where "fst (front_immediate q) = Some k"
      by (auto split: option.splits)
    then show ?thesis
      using True gate_immediate(1) [OF inv, of u] gate_immediate(2) [OF inv] eq by simp
  next
    case False
    have p': "pending ?q' = p\<lparr>pe_gate := GateTimers now\<rparr> # ps"
      using p(1) by (intro set_front_gate_pending) simp
    have "active ?q' = active q" "heap ?q' = heap q"
      by (simp_all add: set_front_gate_def split: list.splits)
    then have same: "timer_slots ?q' = timer_slots q" "calls_least S ?q' = calls_least S q" for S
      by (simp_all add: timer_slots_def calls_least_def fun_eq_iff)
    have inv': "tq_inv t ?q'"
      using inv by (simp add: set_front_gate_inv front_immediate_inv)
    moreover have "\<not> (\<exists>x \<in> immediate_slots q. fst x \<le> u)"
      using False gate_immediate(1) [OF inv, of u] by blast
    ultimately show ?thesis
      using False eq loop_timers [OF inv' p', of now now] unfolding same by (simp split: if_splits)
  qed
qed

text \<open>
  Property C29. Pending callbacks keep node's phase order. With callback \<open>p\<close> in front, \<open>pop_due\<close> runs
  it at once when its gate is open. Behind a timers gate it first runs, in (deadline, sequence)
  order, the live timers due by the gate's instant. Behind an immediates gate it first runs the
  live immediates queued by the gate's instant, then the timers due now. Only then does it run
  \<open>p\<close>, and never an immediate queued later.
\<close>

theorem pop_due_pending_phases:
  assumes "tq_reachable t q" "pending q = p # ps"
  shows "case pe_gate p of
      GateOpen \<Rightarrow> fst (pop_due now q) = Some (pe_callback p, pe_args p) \<and>
        pending (snd (pop_due now q)) = ps
    | GateTimers u \<Rightarrow>
        if \<exists>x \<in> timer_slots q. fst x \<le> min u now
        then calls_least (timer_slots q) q (fst (pop_due now q))
        else fst (pop_due now q) = Some (pe_callback p, pe_args p)
    | GateImmediates u \<Rightarrow>
        if \<exists>x \<in> immediate_slots q. fst x \<le> u
        then calls_least (immediate_slots q) q (fst (pop_due now q))
        else if \<exists>x \<in> timer_slots q. fst x \<le> now
        then calls_least (timer_slots q) q (fst (pop_due now q))
        else fst (pop_due now q) = Some (pe_callback p, pe_args p)"
proof -
  let ?q = "q\<lparr>running_cb := None\<rparr>"
  have inv: "tq_inv t ?q"
    using reachable_inv [OF assms(1)] by simp
  have p: "pending ?q = p # ps"
    using assms(2) by simp
  have same: "timer_slots ?q = timer_slots q" "immediate_slots ?q = immediate_slots q"
    "calls_least S ?q = calls_least S q" for S
    by (simp_all add: timer_slots_def immediate_slots_def calls_least_def fun_eq_iff)
  show ?thesis
    using loop_open [OF p] loop_timers [OF inv p] loop_immediates [OF inv p]
    unfolding pop_due_def same by (cases "pe_gate p") simp_all
qed

definition demo_pending :: "(nat, nat) timer_queue" where
  "demo_pending = timer_pending (snd (pop_due 9 demo_two)) 3 [4]"

lemma demo_pending_reachable: "tq_reachable 9 demo_pending"
  unfolding demo_pending_def
  by (rule reach_step [OF reach_step [OF demo_two_reachable step_pop] step_pending]) simp_all

theorem pop_due_pending_phases_witness:
  "tq_reachable 9 demo_pending \<and>
   pending demo_pending = [\<lparr>pe_callback = 3, pe_args = [4], pe_gate = GateImmediates 9\<rparr>] \<and>
   (if \<exists>x \<in> immediate_slots demo_pending. fst x \<le> 9
    then calls_least (immediate_slots demo_pending) demo_pending (fst (pop_due 9 demo_pending))
    else if \<exists>x \<in> timer_slots demo_pending. fst x \<le> 9
    then calls_least (timer_slots demo_pending) demo_pending (fst (pop_due 9 demo_pending))
    else fst (pop_due 9 demo_pending) = Some (3, [4]))"
proof -
  have p: "pending demo_pending = [\<lparr>pe_callback = 3, pe_args = [4], pe_gate = GateImmediates 9\<rparr>]"
    by (simp add: demo_pending_def timer_pending_def demo_defs pop_due_def pop_due_loop.simps
        pop_earliest_def front_timer_def front_immediate_def skip_dead_heap.simps slot_live_def
        contains_id_def heap_defs due_only_def slot_key_def pop_immediate_def)
  show ?thesis
    using pop_due_pending_phases [OF demo_pending_reachable p, of 9] demo_pending_reachable p
    by simp
qed

end
