(* ===== verification/Oam_Bytes.thy ===== *)
theory Oam_Bytes
  imports Oam_Prelude "HOL-Library.Code_Target_Nat"
begin

text \<open>
  The slice, string and integer operations of the Rust standard library that several components
  call, with the lemmas the components share. A byte slice of text is a \<open>string\<close> (a HOL
  \<open>char\<close> is one of the 256 byte values); a \<open>&str\<close> whose non-ASCII characters matter is a \<open>ustr\<close>,
  its list of Unicode code points.
\<close>

type_synonym ustr = "nat list"

named_theorems slice_simps "slice operations on concrete and composed slices"

section \<open>Slices\<close>

text \<open>\<open>slice::split\<close>: the pieces between separators, always at least one.\<close>

fun split_on :: "('a \<Rightarrow> bool) \<Rightarrow> 'a list \<Rightarrow> 'a list list" where
  "split_on P [] = [[]]"
| "split_on P (x # xs) =
     (if P x then [] # split_on P xs
      else case split_on P xs of [] \<Rightarrow> [[x]] | y # ys \<Rightarrow> (x # y) # ys)"

text \<open>\<open>slice::split_inclusive\<close>: each piece keeps its separator, and no empty last piece.\<close>

fun split_inclusive :: "('a \<Rightarrow> bool) \<Rightarrow> 'a list \<Rightarrow> 'a list list" where
  "split_inclusive P [] = []"
| "split_inclusive P (x # xs) =
     (if P x then [x] # split_inclusive P xs
      else case split_inclusive P xs of [] \<Rightarrow> [[x]] | y # ys \<Rightarrow> (x # y) # ys)"

text \<open>\<open>Iterator::position\<close> and \<open>rposition\<close>.\<close>

fun position :: "('a \<Rightarrow> bool) \<Rightarrow> 'a list \<Rightarrow> nat option" where
  "position P [] = None"
| "position P (x # xs) = (if P x then Some 0 else map_option Suc (position P xs))"

definition rposition :: "('a \<Rightarrow> bool) \<Rightarrow> 'a list \<Rightarrow> nat option" where
  "rposition P xs = map_option (\<lambda>k. length xs - 1 - k) (position P (rev xs))"

definition starts_with :: "'a list \<Rightarrow> 'a list \<Rightarrow> bool" where
  "starts_with p xs \<longleftrightarrow> take (length p) xs = p"

definition ends_with :: "'a list \<Rightarrow> 'a list \<Rightarrow> bool" where
  "ends_with s xs \<longleftrightarrow> length s \<le> length xs \<and> drop (length xs - length s) xs = s"

definition strip_prefix :: "'a list \<Rightarrow> 'a list \<Rightarrow> 'a list option" where
  "strip_prefix p xs = (if starts_with p xs then Some (drop (length p) xs) else None)"

definition strip_suffix :: "'a list \<Rightarrow> 'a list \<Rightarrow> 'a list option" where
  "strip_suffix s xs = (if ends_with s xs then Some (take (length xs - length s) xs) else None)"

definition unwrap_or :: "'a \<Rightarrow> 'a option \<Rightarrow> 'a" where
  "unwrap_or d x = (case x of None \<Rightarrow> d | Some y \<Rightarrow> y)"

lemma unwrap_or_simps [simp]: "unwrap_or d None = d" "unwrap_or d (Some y) = y"
  by (simp_all add: unwrap_or_def)

lemma split_on_nonempty [simp]: "split_on P xs \<noteq> []"
  by (cases xs) (auto split: list.splits)

lemma concat_split_inclusive: "concat (split_inclusive P xs) = xs"
  by (induction xs) (auto split: list.splits)

lemma split_inclusive_pieces: "l \<in> set (split_inclusive P xs) \<Longrightarrow> l \<noteq> []"
  by (induction xs arbitrary: l) (auto split: list.splits if_splits)

lemma length_split_inclusive: "length (split_inclusive P xs) \<le> length xs"
  by (induction xs) (auto split: list.splits)

lemma position_None: "position P xs = None \<longleftrightarrow> (\<forall>x \<in> set xs. \<not> P x)"
  by (induction xs) auto

lemma position_takeWhile:
  "position P xs = (if \<exists>x \<in> set xs. P x then Some (length (takeWhile (\<lambda>x. \<not> P x) xs)) else None)"
  by (induction xs) auto

lemma starts_with_append [slice_simps]: "starts_with p (p @ xs)"
  by (simp add: starts_with_def)

lemma starts_with_single: "starts_with [c] xs \<longleftrightarrow> xs \<noteq> [] \<and> hd xs = c"
  by (cases xs) (auto simp: starts_with_def)

lemma strip_prefix_append [slice_simps]: "strip_prefix p (p @ xs) = Some xs"
  by (simp add: strip_prefix_def starts_with_append)

lemma strip_prefix_eq: "strip_prefix p xs = Some ys \<longleftrightarrow> xs = p @ ys"
  by (auto simp: strip_prefix_def starts_with_def) (metis append_take_drop_id)

lemma ends_with_append [slice_simps]: "ends_with s (xs @ s)"
  by (simp add: ends_with_def)

lemma ends_with_eq: "ends_with s xs \<longleftrightarrow> (\<exists>ys. xs = ys @ s)"
  by (auto simp: ends_with_def) (metis append_take_drop_id)

lemma strip_suffix_eq: "strip_suffix s xs = Some ys \<longleftrightarrow> xs = ys @ s"
  by (auto simp: strip_suffix_def ends_with_def) (metis append_take_drop_id)

lemma position_append:
  "position P (xs @ ys) =
     (case position P xs of None \<Rightarrow> map_option (\<lambda>i. length xs + i) (position P ys) | Some i \<Rightarrow> Some i)"
proof (induction xs)
  case (Cons x xs)
  then show ?case by (cases "position P xs") (auto simp: option.map_comp comp_def intro!: option.map_cong0)
qed (cases "position P ys"; simp)

lemma position_Some_less: "position P xs = Some i \<Longrightarrow> i < length xs \<and> P (xs ! i)"
  by (induction xs arbitrary: i) (auto split: if_splits)

lemma rposition_None: "rposition P xs = None \<longleftrightarrow> (\<forall>x \<in> set xs. \<not> P x)"
  by (simp add: rposition_def position_None)

lemma rposition_append_last:
  assumes "P b" "\<forall>x \<in> set ys. \<not> P x"
  shows "rposition P (xs @ b # ys) = Some (length xs)"
proof -
  have "position P (rev ys) = None" using assms(2) by (simp add: position_None)
  then show ?thesis using assms(1) by (simp add: rposition_def position_append)
qed

text \<open>\<open>slice::join\<close>, and how splitting undoes it.\<close>

fun join :: "'a list \<Rightarrow> 'a list list \<Rightarrow> 'a list" where
  "join s [] = []"
| "join s [x] = x"
| "join s (x # y # ys) = x @ s @ join s (y # ys)"

lemma join_Cons: "xs \<noteq> [] \<Longrightarrow> join s (x # xs) = x @ s @ join s xs"
  by (cases xs) auto

lemma join_snoc: "xs \<noteq> [] \<Longrightarrow> join s (xs @ [x]) = join s xs @ s @ x"
  by (induction s xs rule: join.induct) (auto simp: join_Cons)

lemma join_eq_Nil: "[] \<notin> set xs \<Longrightarrow> join s xs = [] \<longleftrightarrow> xs = []"
  by (cases "(s, xs)" rule: join.cases) auto

lemma split_on_append_sep: "P b \<Longrightarrow> split_on P (xs @ b # ys) = split_on P xs @ split_on P ys"
proof (induction xs)
  case (Cons x xs)
  then show ?case by (cases "split_on P xs") auto
qed simp

lemma split_on_no_sep: "\<forall>x \<in> set xs. \<not> P x \<Longrightarrow> split_on P xs = [xs]"
  by (induction xs) auto

lemma split_on_pieces: "seg \<in> set (split_on P xs) \<Longrightarrow> x \<in> set seg \<Longrightarrow> \<not> P x"
proof (induction xs arbitrary: seg)
  case (Cons y ys)
  then show ?case by (cases "split_on P ys") (force split: if_splits)+
qed simp

lemma split_on_join:
  "xs \<noteq> [] \<Longrightarrow> P b \<Longrightarrow> \<forall>seg \<in> set xs. \<forall>x \<in> set seg. \<not> P x \<Longrightarrow> split_on P (join [b] xs) = xs"
  by (induction "[b]" xs rule: join.induct) (auto simp: split_on_append_sep split_on_no_sep)

section \<open>ASCII\<close>

definition byte_of :: "char \<Rightarrow> nat" where
  "byte_of c = of_char c"

definition is_ascii_digit :: "char \<Rightarrow> bool" where
  "is_ascii_digit c \<longleftrightarrow> 48 \<le> byte_of c \<and> byte_of c \<le> 57"

definition is_ascii_alphabetic :: "char \<Rightarrow> bool" where
  "is_ascii_alphabetic c \<longleftrightarrow>
     65 \<le> byte_of c \<and> byte_of c \<le> 90 \<or> 97 \<le> byte_of c \<and> byte_of c \<le> 122"

definition ascii_lower :: "char \<Rightarrow> char" where
  "ascii_lower c = (if 65 \<le> byte_of c \<and> byte_of c \<le> 90 then char_of (byte_of c + 32) else c)"

definition eq_ignore_ascii_case :: "string \<Rightarrow> string \<Rightarrow> bool" where
  "eq_ignore_ascii_case a b \<longleftrightarrow> map ascii_lower a = map ascii_lower b"

lemmas ascii_defs = byte_of_def is_ascii_digit_def is_ascii_alphabetic_def ascii_lower_def
  eq_ignore_ascii_case_def

lemma byte_of_lt: "byte_of c < 256"
  by (simp add: byte_of_def)

text \<open>\<open>char::is_whitespace\<close>: Unicode's White_Space, on code points.\<close>

definition is_whitespace :: "nat \<Rightarrow> bool" where
  "is_whitespace c \<longleftrightarrow> (9 \<le> c \<and> c \<le> 13) \<or> c = 32 \<or> c = 133 \<or> c = 160 \<or> c = 5760 \<or>
     (8192 \<le> c \<and> c \<le> 8202) \<or> c = 8232 \<or> c = 8233 \<or> c = 8239 \<or> c = 8287 \<or> c = 12288"

definition trim_start :: "ustr \<Rightarrow> ustr" where
  "trim_start s = dropWhile is_whitespace s"

section \<open>Decimal numbers\<close>

definition digit_value :: "char \<Rightarrow> nat" where
  "digit_value c = byte_of c - 48"

definition decimal :: "string \<Rightarrow> nat" where
  "decimal s = foldl (\<lambda>v c. v * 10 + digit_value c) 0 s"

text \<open>\<open>str::parse::<u64>\<close>: an optional \<open>+\<close>, then digits only, in range.\<close>

definition parse_u64 :: "string \<Rightarrow> nat option" where
  "parse_u64 s =
     (let d = unwrap_or s (strip_prefix ''+'' s)
      in if d \<noteq> [] \<and> (\<forall>c \<in> set d. is_ascii_digit c) \<and> decimal d < 2 ^ 64
         then Some (decimal d) else None)"

section \<open>Fixed-width arithmetic\<close>

definition u64_max :: nat where
  "u64_max = 2 ^ 64 - 1"

definition saturating_add_u64 :: "nat \<Rightarrow> nat \<Rightarrow> nat" where
  "saturating_add_u64 a b = min (a + b) u64_max"

definition saturating_mul_u64 :: "nat \<Rightarrow> nat \<Rightarrow> nat" where
  "saturating_mul_u64 a b = min (a * b) u64_max"

definition checked_mul_u64 :: "u64 \<Rightarrow> u64 \<Rightarrow> u64 option" where
  "checked_mul_u64 a b = (if unat a * unat b < 2 ^ 64 then Some (a * b) else None)"

definition checked_add_u64 :: "u64 \<Rightarrow> u64 \<Rightarrow> u64 option" where
  "checked_add_u64 a b = (if unat a + unat b < 2 ^ 64 then Some (a + b) else None)"

lemma unat_of_nat_u64: "n < 2 ^ 64 \<Longrightarrow> unat (of_nat n :: u64) = n"
  by (simp add: unat_of_nat take_bit_nat_eq_self)

lemma unat_neg_u64: "unat (- v :: u64) = (2 ^ 64 - unat v) mod 2 ^ 64"
proof -
  have "unat v \<le> 2 ^ 64" using unsigned_less [of v, where ?'a = nat] by simp
  then have "of_nat (2 ^ 64 - unat v) = (of_nat (2 ^ 64) - of_nat (unat v) :: u64)"
    by (rule of_nat_diff)
  then have "- v = of_nat (2 ^ 64 - unat v)" by simp
  then show ?thesis by (simp only: unat_of_nat take_bit_eq_mod) simp
qed

lemma unat_minus_one_u64: "unat (- 1 :: u64) = 2 ^ 64 - 1"
  using unat_neg_u64 [of 1] by simp

lemma checked_mul_u64_Some: "checked_mul_u64 a b = Some c \<longleftrightarrow> unat a * unat b < 2 ^ 64 \<and> c = a * b"
  by (auto simp: checked_mul_u64_def)

lemma unat_checked_mul: "checked_mul_u64 a b = Some c \<Longrightarrow> unat c = unat a * unat b"
  by (auto simp: checked_mul_u64_def unat_word_ariths split: if_splits)

lemma unat_checked_add: "checked_add_u64 a b = Some c \<Longrightarrow> unat c = unat a + unat b"
  by (auto simp: checked_add_u64_def unat_word_ariths split: if_splits)

end
