(* ===== verification/Http_Head.thy ===== *)
theory Http_Head
  imports Oam_Bytes
begin

text \<open>
  Node's rules for an inbound HTTP/1 request head (\<open>crates/oam_core/src/http_head.rs\<close>): the
  checks that decide where a request body ends and how large a head may be, applied to the bytes
  hyper parsed.

  A head is a \<open>string\<close> of bytes. \<open>check_request_head\<close> is the source's loop over the lines of the
  head, with its locals in the record \<open>head_scan\<close>; \<open>request_head_ok\<close> is the specification, a
  condition on the list of header fields. Counters are \<open>nat\<close>s with the saturation of \<open>u64\<close>
  written out. The HTTP grammar itself (\<open>httparse\<close>) and \<open>HeaderValue\<close> (crate \<open>http\<close>) are
  parameters of \<open>parse_request_head\<close> and \<open>latin1_header_value\<close>.

  The theorems: a head is accepted exactly when it satisfies the specification; a field count
  never refuses a head that the byte limit accepts; the flag parser computes C's \<open>strtoull\<close>; the
  latin1 conversion is the exact inverse of reading bytes as code points.
\<close>

section \<open>Policy and errors\<close>

definition DEFAULT_MAX_HEADER_SIZE :: nat where
  "DEFAULT_MAX_HEADER_SIZE = 16 * 1024"

definition DEFAULT_MAX_HEADERS_COUNT :: nat where
  "DEFAULT_MAX_HEADERS_COUNT = 1000"

definition HEADER_BATCH :: nat where
  "HEADER_BATCH = 32"

text \<open>The loop over the digits of \<open>--max-http-header-size\<close>; \<open>None\<close> is an overflow.\<close>

fun flag_digits :: "u64 \<Rightarrow> ustr \<Rightarrow> u64 option" where
  "flag_digits v [] = Some v"
| "flag_digits v (b # bs) =
     (if \<not> (48 \<le> b \<and> b \<le> 57) then Some v
      else case Option.bind (checked_mul_u64 v 10) (\<lambda>w. checked_add_u64 w (of_nat (b - 48))) of
        Some w \<Rightarrow> flag_digits w bs
      | None \<Rightarrow> None)"

definition parse_max_header_size_flag :: "ustr \<Rightarrow> u64" where
  "parse_max_header_size_flag raw =
     (let s = trim_start raw;
          (negative, digits) = (case s of
              b # rest \<Rightarrow> if b = 45 then (True, rest) else if b = 43 then (False, rest) else (False, s)
            | [] \<Rightarrow> (False, s))
      in case flag_digits 0 digits of
           None \<Rightarrow> - 1
         | Some v \<Rightarrow> if negative then - v else v)"

record head_policy =
  max_header_size :: nat
  lenient :: bool
  max_headers_count :: nat

text \<open>The two process-wide statics and their setters; a \<open>usize\<close> is 64 bits.\<close>

record head_globals =
  max_http_header_size :: nat
  insecure_http_parser :: bool

definition head_globals_init :: head_globals where
  "head_globals_init =
     \<lparr>max_http_header_size = DEFAULT_MAX_HEADER_SIZE, insecure_http_parser = False\<rparr>"

definition set_max_http_header_size :: "nat \<Rightarrow> head_globals \<Rightarrow> head_globals" where
  "set_max_http_header_size limit g = g\<lparr>max_http_header_size := limit\<rparr>"

definition set_insecure_http_parser :: "bool \<Rightarrow> head_globals \<Rightarrow> head_globals" where
  "set_insecure_http_parser on g = g\<lparr>insecure_http_parser := on\<rparr>"

definition process_default :: "head_globals \<Rightarrow> head_policy" where
  "process_default g =
     \<lparr>max_header_size = max_http_header_size g, lenient = insecure_http_parser g,
      max_headers_count = DEFAULT_MAX_HEADERS_COUNT\<rparr>"

definition read_buffer_limit :: "head_policy \<Rightarrow> nat" where
  "read_buffer_limit p = max (saturating_mul_u64 (max_header_size p) 4) (64 * 1024)"

definition max_parsed_headers :: "head_policy \<Rightarrow> nat" where
  "max_parsed_headers p = read_buffer_limit p div 4 + HEADER_BATCH"

definition header_field_limit :: "head_policy \<Rightarrow> nat \<Rightarrow> nat option" where
  "header_field_limit p sent =
     (if max_headers_count p = 0 then None
      else let cap = max_headers_count p in if cap < sent then Some cap else None)"

datatype head_error = BadRequest string | HeaderOverflow

fun head_status :: "head_error \<Rightarrow> nat" where
  "head_status (BadRequest _) = 400"
| "head_status HeaderOverflow = 431"

section \<open>Lines and fields\<close>

abbreviation CR :: char where "CR \<equiv> CHR 0x0D"
abbreviation LF :: char where "LF \<equiv> CHR 0x0A"
abbreviation SP :: char where "SP \<equiv> CHR 0x20"
abbreviation HTAB :: char where "HTAB \<equiv> CHR 0x09"

definition head_lines :: "string \<Rightarrow> string list" where
  "head_lines head = split_inclusive (\<lambda>b. b = LF) head"

definition is_blank :: "string \<Rightarrow> bool" where
  "is_blank l \<longleftrightarrow> l = [CR, LF] \<or> l = [LF]"

definition bare_lf :: "string \<Rightarrow> bool" where
  "bare_lf line \<longleftrightarrow> ends_with [LF] line \<and> \<not> ends_with [CR, LF] line"

definition strip_eol :: "string \<Rightarrow> string" where
  "strip_eol line =
     (let line1 = unwrap_or line (strip_suffix [LF] line)
      in unwrap_or line1 (strip_suffix [CR] line1))"

definition is_ows :: "char \<Rightarrow> bool" where
  "is_ows b \<longleftrightarrow> b = SP \<or> b = HTAB"

definition trim_leading_ows :: "string \<Rightarrow> string" where
  "trim_leading_ows v = drop (unwrap_or (length v) (position (\<lambda>b. \<not> is_ows b) v)) v"

definition trim_ows :: "string \<Rightarrow> string" where
  "trim_ows v =
     (let w = trim_leading_ows v;
          n = (case rposition (\<lambda>b. \<not> is_ows b) w of None \<Rightarrow> 0 | Some i \<Rightarrow> i + 1)
      in take n w)"

definition is_content_length :: "string \<Rightarrow> bool" where
  "is_content_length v =
     (let w = trim_ows v
      in w \<noteq> [] \<and> (\<forall>c \<in> set w. is_ascii_digit c) \<and> parse_u64 w \<noteq> None)"

definition split_request_line :: "string \<Rightarrow> string \<times> string" where
  "split_request_line line =
     (let text = strip_eol line in
      case (position (\<lambda>b. b = SP) text, rposition (\<lambda>b. b = SP) text) of
        (Some i, Some j) \<Rightarrow>
          if i < j then (take i text, take (j - (i + 1)) (drop (i + 1) text))
          else (take i text, [])
      | (Some i, None) \<Rightarrow> (take i text, [])
      | (None, _) \<Rightarrow> (text, []))"

definition request_target :: "string \<Rightarrow> string option" where
  "request_target head =
     (case find (\<lambda>l. \<not> is_blank l) (head_lines head) of
        None \<Rightarrow> None
      | Some line \<Rightarrow>
          (let target = snd (split_request_line line)
           in if target \<noteq> [] then Some target else None))"

definition is_request_target :: "string \<Rightarrow> bool" where
  "is_request_target target = (case target of
       [] \<Rightarrow> False
     | b # _ \<Rightarrow>
         if b = CHR ''/'' \<or> b = CHR ''*'' then True
         else if is_ascii_alphabetic b then
           (let scheme = length (takeWhile is_ascii_alphabetic target) in
            case strip_prefix ''://'' (drop scheme target) of
              None \<Rightarrow> False
            | Some rest \<Rightarrow>
                (let authority = unwrap_or (length rest)
                       (position (\<lambda>b. b = CHR ''/'' \<or> b = CHR ''?'') rest)
                 in CHR ''#'' \<notin> set (take authority rest)))
         else False)"

definition split_field :: "string \<Rightarrow> string \<times> string" where
  "split_field line =
     (let text = strip_eol line;
          colon = unwrap_or 0 (position (\<lambda>b. b = CHR '':'') text)
      in (take colon text, trim_leading_ows (drop (colon + 1) text)))"

section \<open>The check\<close>

definition add_count :: "nat \<Rightarrow> nat \<Rightarrow> nat \<Rightarrow> head_error + nat" where
  "add_count limit counted n =
     (let c = saturating_add_u64 counted n in if limit \<le> c then Inl HeaderOverflow else Inr c)"

record head_scan =
  hs_count :: nat
  hs_content_lengths :: nat
  hs_transfer_encoding :: bool
  hs_chunked :: bool

definition is_chunked :: "string \<Rightarrow> bool" where
  "is_chunked coding = eq_ignore_ascii_case coding ''chunked''"

fun check_codings :: "bool \<Rightarrow> bool \<Rightarrow> string list \<Rightarrow> head_error + bool" where
  "check_codings strict chunked [] = Inr chunked"
| "check_codings strict chunked (coding # cs) =
     (if coding = [] then check_codings strict chunked cs
      else if strict \<and> chunked then Inl (BadRequest ''Transfer-Encoding after chunked'')
      else check_codings strict (is_chunked coding) cs)"

definition check_field :: "bool \<Rightarrow> head_scan \<Rightarrow> string \<Rightarrow> string \<Rightarrow> head_error + head_scan" where
  "check_field strict st name val =
     (if eq_ignore_ascii_case name ''content-length'' then
        (let st1 = st\<lparr>hs_content_lengths := hs_content_lengths st + 1\<rparr> in
         if 1 < hs_content_lengths st1 then Inl (BadRequest ''duplicate Content-Length'')
         else if strict \<and> hs_transfer_encoding st1
         then Inl (BadRequest ''Content-Length with Transfer-Encoding'')
         else if \<not> is_content_length val then Inl (BadRequest ''invalid Content-Length'')
         else Inr st1)
      else if eq_ignore_ascii_case name ''transfer-encoding'' then
        (if trim_ows val = [] then Inr st
         else
           (let st1 = st\<lparr>hs_transfer_encoding := True\<rparr> in
            if strict \<and> 0 < hs_content_lengths st1
            then Inl (BadRequest ''Transfer-Encoding with Content-Length'')
            else rbind (check_codings strict (hs_chunked st1)
                     (map trim_ows (split_on (\<lambda>b. b = CHR '','') val)))
                   (\<lambda>ch. Inr (st1\<lparr>hs_chunked := ch\<rparr>))))
      else Inr st)"

text \<open>The \<open>for line in lines\<close> loop, from the first line after the request line.\<close>

fun check_lines :: "nat \<Rightarrow> bool \<Rightarrow> head_scan \<Rightarrow> string list \<Rightarrow> head_error + head_scan" where
  "check_lines limit strict st [] = Inr st"
| "check_lines limit strict st (line # rest) =
     (if is_blank line then
        (if strict \<and> bare_lf line then Inl (BadRequest ''bare LF line ending'') else Inr st)
      else
        (let (name, val) = split_field line in
         rbind (add_count limit (hs_count st) (length name)) (\<lambda>c1.
         rbind (add_count limit c1 (length val)) (\<lambda>c2.
         if strict \<and> bare_lf line then Inl (BadRequest ''bare LF line ending'')
         else rbind (check_field strict (st\<lparr>hs_count := c2\<rparr>) name val) (\<lambda>st'.
              check_lines limit strict st' rest)))))"

definition check_request_head :: "string \<Rightarrow> head_policy \<Rightarrow> head_error + unit" where
  "check_request_head head policy =
     (let limit = max_header_size policy;
          strict = (\<not> lenient policy)
      in case dropWhile is_blank (head_lines head) of
           [] \<Rightarrow> Inr ()
         | request_line # rest \<Rightarrow>
             (let (meth, target) = split_request_line request_line in
              rbind (add_count limit 0 (length target)) (\<lambda>c.
              if meth \<noteq> ''CONNECT'' \<and> \<not> is_request_target target
              then Inl (BadRequest ''request target form'')
              else if strict \<and> bare_lf request_line then Inl (BadRequest ''bare LF line ending'')
              else rbind (check_lines limit strict
                     \<lparr>hs_count = c, hs_content_lengths = 0, hs_transfer_encoding = False,
                      hs_chunked = False\<rparr> rest) (\<lambda>st.
                   if hs_transfer_encoding st \<and> \<not> hs_chunked st
                   then Inl (BadRequest ''Transfer-Encoding not ending in chunked'')
                   else Inr ()))))"

section \<open>Parsed heads, upgrades and latin1\<close>

record parsed_head =
  ph_method :: string
  ph_target :: string
  ph_http10 :: bool
  ph_headers :: "(string \<times> ustr) list"

text \<open>What \<open>httparse::Request::parse\<close> answers, as far as the code looks at it; its first
  argument is the number of header slots the caller provides.\<close>

record httparse_request =
  hp_method :: "string option"
  hp_path :: "string option"
  hp_version :: "nat option"
  hp_headers :: "(string \<times> string) list"

datatype httparse_result =
  HpComplete nat httparse_request | HpPartial | HpTooManyHeaders | HpOther

definition MAX_HEADERS :: nat where
  "MAX_HEADERS = 100"

definition parse_request_head ::
    "(nat \<Rightarrow> string \<Rightarrow> httparse_result) \<Rightarrow> (string \<Rightarrow> ustr) \<Rightarrow> string \<Rightarrow> head_policy \<Rightarrow> head_error + parsed_head"
  where
  "parse_request_head httparse from_utf8_lossy head policy =
     (case httparse MAX_HEADERS head of
        HpComplete len req \<Rightarrow>
          if len = length head then
            rbind (check_request_head head policy) (\<lambda>_.
              Inr \<lparr>ph_method = unwrap_or [] (hp_method req), ph_target = unwrap_or [] (hp_path req),
                   ph_http10 = (hp_version req = Some 0),
                   ph_headers = map (\<lambda>(n, v). (n, from_utf8_lossy v)) (hp_headers req)\<rparr>)
          else Inl (BadRequest ''bytes after the head'')
      | HpPartial \<Rightarrow> Inl (BadRequest ''incomplete head'')
      | HpTooManyHeaders \<Rightarrow> Inl HeaderOverflow
      | HpOther \<Rightarrow> Inl (BadRequest ''malformed head''))"

fun upgrade_scan :: "bool \<Rightarrow> bool \<Rightarrow> (string \<times> string) list \<Rightarrow> bool" where
  "upgrade_scan upgrade connection_upgrade [] = (upgrade \<and> connection_upgrade)"
| "upgrade_scan upgrade connection_upgrade ((name, val) # hs) =
     (if eq_ignore_ascii_case name ''upgrade'' then upgrade_scan True connection_upgrade hs
      else if eq_ignore_ascii_case name ''connection'' then
        upgrade_scan upgrade (connection_upgrade \<or>
          (\<exists>token \<in> set (split_on (\<lambda>b. b = CHR '','') val).
             eq_ignore_ascii_case (trim_ows token) ''upgrade'')) hs
      else upgrade_scan upgrade connection_upgrade hs)"

definition is_upgrade :: "(string \<times> string) list \<Rightarrow> bool" where
  "is_upgrade headers = upgrade_scan False False headers"

fun latin1_bytes :: "ustr \<Rightarrow> string option" where
  "latin1_bytes [] = Some []"
| "latin1_bytes (c # cs) =
     (if c < 256 then map_option (\<lambda>bs. char_of c # bs) (latin1_bytes cs) else None)"

definition latin1_header_value :: "(string \<Rightarrow> 'hv option) \<Rightarrow> ustr \<Rightarrow> 'hv option" where
  "latin1_header_value from_bytes text =
     (if \<forall>c \<in> set text. c < 128 then from_bytes (map char_of text)
      else Option.bind (latin1_bytes text) from_bytes)"

section \<open>Specification of an acceptable head\<close>

text \<open>
  The fields of a head as \<open>check_request_head\<close> reads them, and what node requires of them,
  without the loop: the values of the \<open>Content-Length\<close> fields, those of the non-empty
  \<open>Transfer-Encoding\<close> fields, and the codings these name, in order.
\<close>

definition head_fields :: "string list \<Rightarrow> (string \<times> string) list" where
  "head_fields ls = map split_field (takeWhile (\<lambda>l. \<not> is_blank l) ls)"

definition field_values :: "string \<Rightarrow> (string \<times> string) list \<Rightarrow> string list" where
  "field_values name fs = map snd (filter (\<lambda>f. eq_ignore_ascii_case (fst f) name) fs)"

definition content_lengths :: "(string \<times> string) list \<Rightarrow> string list" where
  "content_lengths fs = field_values ''content-length'' fs"

definition transfer_encodings :: "(string \<times> string) list \<Rightarrow> string list" where
  "transfer_encodings fs = filter (\<lambda>v. trim_ows v \<noteq> []) (field_values ''transfer-encoding'' fs)"

definition value_codings :: "string \<Rightarrow> string list" where
  "value_codings v = filter (\<lambda>c. c \<noteq> []) (map trim_ows (split_on (\<lambda>b. b = CHR '','') v))"

definition codings :: "(string \<times> string) list \<Rightarrow> string list" where
  "codings fs = concat (map value_codings (transfer_encodings fs))"

definition ends_chunked :: "string list \<Rightarrow> bool" where
  "ends_chunked cs \<longleftrightarrow> cs \<noteq> [] \<and> is_chunked (last cs)"

definition framing_prefix_ok :: "bool \<Rightarrow> (string \<times> string) list \<Rightarrow> bool" where
  "framing_prefix_ok strict fs \<longleftrightarrow>
     length (content_lengths fs) \<le> 1 \<and> (\<forall>v \<in> set (content_lengths fs). is_content_length v) \<and>
     (strict \<longrightarrow> (content_lengths fs = [] \<or> transfer_encodings fs = []) \<and>
        (\<forall>c \<in> set (butlast (codings fs)). \<not> is_chunked c))"

definition framing_ok :: "bool \<Rightarrow> (string \<times> string) list \<Rightarrow> bool" where
  "framing_ok strict fs \<longleftrightarrow> framing_prefix_ok strict fs \<and>
     (transfer_encodings fs \<noteq> [] \<longrightarrow> ends_chunked (codings fs))"

definition fields_size :: "(string \<times> string) list \<Rightarrow> nat" where
  "fields_size fs = sum_list (map (\<lambda>(n, v). length n + length v) fs)"

text \<open>The lines of the head proper: up to and including the blank line.\<close>

definition read_lines :: "string list \<Rightarrow> string list" where
  "read_lines ls = takeWhile (\<lambda>l. \<not> is_blank l) ls @ take 1 (dropWhile (\<lambda>l. \<not> is_blank l) ls)"

definition request_head_ok :: "string \<Rightarrow> head_policy \<Rightarrow> bool" where
  "request_head_ok head policy =
     (case dropWhile is_blank (head_lines head) of
        [] \<Rightarrow> True
      | request_line # rest \<Rightarrow>
          (let (meth, target) = split_request_line request_line; fs = head_fields rest in
             length target + fields_size fs < max_header_size policy \<and>
             (meth = ''CONNECT'' \<or> is_request_target target) \<and>
             (lenient policy \<or> (\<forall>l \<in> set (request_line # read_lines rest). \<not> bare_lf l)) \<and>
             framing_ok (\<not> lenient policy) fs))"

section \<open>The scan computes the specification\<close>

lemma add_count_Inr:
  "limit \<le> u64_max \<Longrightarrow> add_count limit c n = Inr d \<longleftrightarrow> c + n < limit \<and> d = c + n"
  by (auto simp: add_count_def Let_def saturating_add_u64_def)

lemma check_codings_Inr:
  "check_codings strict ch cs = Inr ch' \<longleftrightarrow>
     (strict \<longrightarrow> (filter (\<lambda>c. c \<noteq> []) cs \<noteq> [] \<longrightarrow> \<not> ch) \<and>
        (\<forall>c \<in> set (butlast (filter (\<lambda>c. c \<noteq> []) cs)). \<not> is_chunked c)) \<and>
     ch' = (if filter (\<lambda>c. c \<noteq> []) cs = [] then ch else is_chunked (last (filter (\<lambda>c. c \<noteq> []) cs)))"
  by (induction strict ch cs rule: check_codings.induct) auto

text \<open>The scan state that stands for the fields read so far.\<close>

definition scan_of :: "nat \<Rightarrow> (string \<times> string) list \<Rightarrow> head_scan" where
  "scan_of c fs = \<lparr>hs_count = c, hs_content_lengths = length (content_lengths fs),
     hs_transfer_encoding = (transfer_encodings fs \<noteq> []), hs_chunked = ends_chunked (codings fs)\<rparr>"

lemmas field_defs = content_lengths_def transfer_encodings_def field_values_def codings_def

lemma distinct_field_names:
  "eq_ignore_ascii_case n ''content-length'' \<Longrightarrow> \<not> eq_ignore_ascii_case n ''transfer-encoding''"
  by (simp add: ascii_defs)

lemma content_lengths_snoc:
  "content_lengths (fs @ [(n, v)]) = content_lengths fs @
     (if eq_ignore_ascii_case n ''content-length'' then [v] else [])"
  by (simp add: field_defs)

lemma transfer_encodings_snoc:
  "transfer_encodings (fs @ [(n, v)]) = transfer_encodings fs @
     (if eq_ignore_ascii_case n ''transfer-encoding'' \<and> trim_ows v \<noteq> [] then [v] else [])"
  by (simp add: field_defs)

lemma codings_snoc:
  "codings (fs @ [(n, v)]) = codings fs @
     (if eq_ignore_ascii_case n ''transfer-encoding'' \<and> trim_ows v \<noteq> [] then value_codings v else [])"
  by (auto simp: codings_def transfer_encodings_snoc)

lemmas snoc_simps = content_lengths_snoc transfer_encodings_snoc codings_snoc

lemma butlast_chunked_append:
  "(\<forall>c \<in> set (butlast (xs @ ys)). \<not> is_chunked c) \<longleftrightarrow>
     (\<forall>c \<in> set (butlast xs). \<not> is_chunked c) \<and> (ys \<noteq> [] \<longrightarrow> \<not> ends_chunked xs) \<and>
     (\<forall>c \<in> set (butlast ys). \<not> is_chunked c)"
  by (cases xs rule: rev_cases; cases ys rule: rev_cases) (auto simp: ends_chunked_def butlast_append)

lemma ends_chunked_append:
  "ends_chunked (xs @ ys) = (if ys = [] then ends_chunked xs else is_chunked (last ys))"
  by (simp add: ends_chunked_def)

lemma check_field_Inr:
  assumes "framing_prefix_ok strict fs"
  shows "check_field strict (scan_of c fs) n v = Inr st' \<longleftrightarrow>
    framing_prefix_ok strict (fs @ [(n, v)]) \<and> st' = scan_of c (fs @ [(n, v)])"
proof -
  consider (cl) "eq_ignore_ascii_case n ''content-length''" "\<not> eq_ignore_ascii_case n ''transfer-encoding''"
    | (te) "\<not> eq_ignore_ascii_case n ''content-length''" "eq_ignore_ascii_case n ''transfer-encoding''"
    | (other) "\<not> eq_ignore_ascii_case n ''content-length''" "\<not> eq_ignore_ascii_case n ''transfer-encoding''"
    using distinct_field_names by blast
  then show ?thesis
  proof cases
    case cl
    then show ?thesis using assms
      by (auto simp: check_field_def scan_of_def framing_prefix_ok_def snoc_simps Let_def)
  next
    case te
    then show ?thesis using assms
      by (auto simp: check_field_def scan_of_def framing_prefix_ok_def snoc_simps Let_def
          butlast_chunked_append ends_chunked_append check_codings_Inr value_codings_def
          rbind_eq_Inr)
  next
    case other
    then show ?thesis using assms
      by (auto simp: check_field_def scan_of_def framing_prefix_ok_def snoc_simps)
  qed
qed

lemma fields_size_simps [simp]:
  "fields_size [] = 0" "fields_size ((n, v) # fs) = length n + length v + fields_size fs"
  by (simp_all add: fields_size_def)

lemma framing_prefix_ok_prefix: "framing_prefix_ok strict (fs @ gs) \<Longrightarrow> framing_prefix_ok strict fs"
  by (auto simp: framing_prefix_ok_def field_defs butlast_chunked_append)

lemma head_fields_simps [simp]:
  "head_fields [] = []" "is_blank l \<Longrightarrow> head_fields (l # ls) = []"
  "\<not> is_blank l \<Longrightarrow> head_fields (l # ls) = split_field l # head_fields ls"
  by (simp_all add: head_fields_def)

lemma read_lines_simps [simp]:
  "read_lines [] = []" "is_blank l \<Longrightarrow> read_lines (l # ls) = [l]"
  "\<not> is_blank l \<Longrightarrow> read_lines (l # ls) = l # read_lines ls"
  by (simp_all add: read_lines_def)

lemma scan_of_count [simp]:
  "hs_count (scan_of c fs) = c" "(scan_of c fs)\<lparr>hs_count := d\<rparr> = scan_of d fs"
  "hs_transfer_encoding (scan_of c fs) = (transfer_encodings fs \<noteq> [])"
  "hs_chunked (scan_of c fs) = ends_chunked (codings fs)"
  by (simp_all add: scan_of_def)

lemma check_lines_Inr:
  assumes "limit \<le> u64_max" "framing_prefix_ok strict fs" "c < limit"
  shows "check_lines limit strict (scan_of c fs) ls = Inr st' \<longleftrightarrow>
    c + fields_size (head_fields ls) < limit \<and> (strict \<longrightarrow> (\<forall>l \<in> set (read_lines ls). \<not> bare_lf l)) \<and>
    framing_prefix_ok strict (fs @ head_fields ls) \<and>
    st' = scan_of (c + fields_size (head_fields ls)) (fs @ head_fields ls)"
  using assms(2,3)
proof (induction ls arbitrary: c fs)
  case Nil
  then show ?case by auto
next
  case (Cons l ls)
  obtain n v where nv: "split_field l = (n, v)" by fastforce
  show ?case
  proof (cases "is_blank l")
    case True
    then show ?thesis using Cons.prems by auto
  next
    case False
    let ?c = "c + length n + length v" and ?fs = "fs @ [(n, v)]"
    have "check_lines limit strict (scan_of c fs) (l # ls) = Inr st' \<longleftrightarrow>
        ?c < limit \<and> \<not> (strict \<and> bare_lf l) \<and> framing_prefix_ok strict ?fs \<and>
        check_lines limit strict (scan_of ?c ?fs) ls = Inr st'"
      using False Cons.prems
      by (auto simp: nv rbind_eq_Inr add_count_Inr [OF assms(1)] check_field_Inr)
    also have "\<dots> \<longleftrightarrow> ?c < limit \<and> \<not> (strict \<and> bare_lf l) \<and> framing_prefix_ok strict ?fs \<and>
        ?c + fields_size (head_fields ls) < limit \<and>
        (strict \<longrightarrow> (\<forall>l \<in> set (read_lines ls). \<not> bare_lf l)) \<and>
        framing_prefix_ok strict (?fs @ head_fields ls) \<and>
        st' = scan_of (?c + fields_size (head_fields ls)) (?fs @ head_fields ls)"
      using Cons.IH [of ?fs ?c] by auto
    finally show ?thesis
      using False framing_prefix_ok_prefix [of strict ?fs "head_fields ls"]
      by (auto simp: nv add.assoc)
  qed
qed

lemma scan_of_start:
  "\<lparr>hs_count = c, hs_content_lengths = 0, hs_transfer_encoding = False, hs_chunked = False\<rparr> =
     scan_of c []" "framing_prefix_ok strict []"
  by (simp_all add: scan_of_def framing_prefix_ok_def field_defs ends_chunked_def)

lemma check_request_head_spec:
  assumes "max_header_size policy \<le> u64_max"
  shows "check_request_head head policy = Inr () \<longleftrightarrow> request_head_ok head policy"
proof (cases "dropWhile is_blank (head_lines head)")
  case Nil
  show ?thesis unfolding check_request_head_def request_head_ok_def Nil by simp
next
  case (Cons rl rest)
  obtain m t where mt: "split_request_line rl = (m, t)" by fastforce
  let ?limit = "max_header_size policy" and ?strict = "\<not> lenient policy"
  let ?fs = "head_fields rest"
  have "check_request_head head policy = Inr () \<longleftrightarrow>
      length t < ?limit \<and> (m = ''CONNECT'' \<or> is_request_target t) \<and> \<not> (?strict \<and> bare_lf rl) \<and>
      (\<exists>st. check_lines ?limit ?strict (scan_of (length t) []) rest = Inr st \<and>
         \<not> (hs_transfer_encoding st \<and> \<not> hs_chunked st))"
    by (auto simp: check_request_head_def Cons mt rbind_eq_Inr add_count_Inr [OF assms] scan_of_start Let_def
        split: if_splits)
  also have "\<dots> \<longleftrightarrow> request_head_ok head policy"
  proof (cases "length t < ?limit")
    case True
    then show ?thesis
      by (auto simp: request_head_ok_def Cons mt framing_ok_def Let_def
          check_lines_Inr [OF assms scan_of_start(2) True])
  next
    case False
    then show ?thesis by (simp add: request_head_ok_def Cons mt Let_def)
  qed
  finally show ?thesis .
qed

section \<open>Properties\<close>

text \<open>
  Property C4. A head is accepted exactly when it satisfies node's rules: the counted bytes (the
  request target, every name, every value) stay below the limit, the target has one of the
  permitted forms, and the framing is unambiguous. In the strict mode, no line ends in a bare LF,
  \<open>Content-Length\<close> and \<open>Transfer-Encoding\<close> never occur together, and no coding follows \<open>chunked\<close>;
  in every mode there is at most one \<open>Content-Length\<close>, it is a decimal \<open>u64\<close>, and a
  \<open>Transfer-Encoding\<close> ends in \<open>chunked\<close>.
\<close>

theorem check_request_head_iff:
  assumes "max_header_size policy \<le> u64_max"
  shows "check_request_head head policy = Inr () \<longleftrightarrow> request_head_ok head policy"
  using assms by (rule check_request_head_spec)

definition chunked_post :: string where
  "chunked_post = ''POST / HTTP/1.1'' @ [CR, LF] @ ''Transfer-Encoding: chunked'' @ [CR, LF, CR, LF]"

definition smuggling_post :: string where
  "smuggling_post = ''POST / HTTP/1.1'' @ [CR, LF] @ ''Content-Length: 3'' @ [CR, LF] @
     ''Transfer-Encoding: chunked'' @ [CR, LF, CR, LF]"

definition small_policy :: head_policy where
  "small_policy = \<lparr>max_header_size = 100, lenient = False, max_headers_count = 2\<rparr>"

theorem check_request_head_iff_witness:
  "max_header_size small_policy \<le> u64_max \<and> check_request_head chunked_post small_policy = Inr () \<and>
   check_request_head smuggling_post small_policy \<noteq> Inr ()"
proof -
  have p: "max_header_size small_policy \<le> u64_max" by (simp add: small_policy_def u64_max_def)
  have "request_head_ok chunked_post small_policy" by code_simp
  moreover have "\<not> request_head_ok smuggling_post small_policy" by code_simp
  ultimately show ?thesis
    using p check_request_head_iff [OF p] by simp
qed

lemma length_fields_size:
  "(\<forall>f \<in> set fs. fst f \<noteq> []) \<Longrightarrow> length fs \<le> fields_size fs"
proof (induction fs)
  case (Cons f fs)
  then show ?case by (cases f; cases "fst f") auto
qed simp

text \<open>
  Property C37. A field count never refuses a head that the byte limit accepts: the number of fields
  of an accepted head, every name non-empty as the parser guarantees, stays below the cap
  \<open>max_parsed_headers\<close> that is handed to the parser, lenient mode included.
\<close>

theorem field_cap_never_refuses:
  assumes "check_request_head head policy = Inr ()" "max_header_size policy \<le> 2 ^ 62"
    "dropWhile is_blank (head_lines head) = request_line # rest"
    "\<forall>f \<in> set (head_fields rest). fst f \<noteq> []"
  shows "length (head_fields rest) < max_parsed_headers policy"
proof -
  have lim: "max_header_size policy \<le> u64_max"
    using assms(2) by (simp add: u64_max_def)
  obtain m t where mt: "split_request_line request_line = (m, t)" by fastforce
  have "request_head_ok head policy"
    using assms(1) check_request_head_spec [OF lim] by simp
  then have "fields_size (head_fields rest) < max_header_size policy"
    using assms(3) mt by (simp add: request_head_ok_def Let_def)
  then have "length (head_fields rest) < max_header_size policy"
    using length_fields_size [OF assms(4)] by simp
  then show ?thesis
    using assms(2) by (auto simp: max_parsed_headers_def read_buffer_limit_def saturating_mul_u64_def
        u64_max_def HEADER_BATCH_def max_def min_def split: if_splits)
qed

theorem field_cap_never_refuses_witness:
  "length (head_fields [''Transfer-Encoding: chunked'' @ [CR, LF], [CR, LF]]) <
     max_parsed_headers small_policy"
proof (rule field_cap_never_refuses)
  show "check_request_head chunked_post small_policy = Inr ()"
  proof -
    have "max_header_size small_policy \<le> u64_max" by (simp add: small_policy_def u64_max_def)
    moreover have "request_head_ok chunked_post small_policy" by code_simp
    ultimately show ?thesis by (simp add: check_request_head_spec)
  qed
  show "max_header_size small_policy \<le> 2 ^ 62" by (simp add: small_policy_def)
  show "dropWhile is_blank (head_lines chunked_post) =
      (''POST / HTTP/1.1'' @ [CR, LF]) # [''Transfer-Encoding: chunked'' @ [CR, LF], [CR, LF]]"
    by code_simp
  show "\<forall>f \<in> set (head_fields [''Transfer-Encoding: chunked'' @ [CR, LF], [CR, LF]]). fst f \<noteq> []"
    by code_simp
qed

subsection \<open>The flag\<close>

definition is_digit_code :: "nat \<Rightarrow> bool" where
  "is_digit_code b \<longleftrightarrow> 48 \<le> b \<and> b \<le> 57"

definition digits_value :: "nat \<Rightarrow> ustr \<Rightarrow> nat" where
  "digits_value n ds = foldl (\<lambda>v b. v * 10 + (b - 48)) n ds"

lemma digits_value_simps [simp]:
  "digits_value n [] = n" "digits_value n (b # bs) = digits_value (n * 10 + (b - 48)) bs"
  by (simp_all add: digits_value_def)

lemma digits_value_ge: "n \<le> digits_value n ds"
proof (induction ds arbitrary: n)
  case (Cons b ds)
  show ?case using Cons [of "n * 10 + (b - 48)"] by simp
qed simp

lemma checked_step:
  assumes "k \<le> 9"
  shows "Option.bind (checked_mul_u64 v 10) (\<lambda>w. checked_add_u64 w (of_nat k)) =
    (if unat v * 10 + k < 2 ^ 64 then Some (of_nat (unat v * 10 + k)) else None)"
proof -
  have "unat (of_nat k :: u64) = k" by (rule unat_of_nat_u64) (use assms in simp)
  moreover have "unat (v * 10) = unat v * 10" if "unat v * 10 < 2 ^ 64"
    using that by (simp add: unat_word_ariths)
  ultimately show ?thesis
    by (auto simp: checked_mul_u64_def checked_add_u64_def)
qed

lemma flag_digits_value:
  assumes "\<forall>b \<in> set ds. is_digit_code b" "rest = [] \<or> \<not> is_digit_code (hd rest)"
  shows "flag_digits v (ds @ rest) =
    (if digits_value (unat v) ds < 2 ^ 64 then Some (of_nat (digits_value (unat v) ds)) else None)"
  using assms(1)
proof (induction ds arbitrary: v)
  case Nil
  have "unat v < 2 ^ 64" using unsigned_less [of v] by simp
  then show ?case using assms(2) by (cases rest) (auto simp: is_digit_code_def)
next
  case (Cons b ds)
  obtain k where k: "b = 48 + k" "k \<le> 9"
    using Cons.prems le_Suc_ex [of 48 b] by (auto simp: is_digit_code_def)
  have ds: "\<forall>b \<in> set ds. is_digit_code b" using Cons.prems by auto
  let ?n = "unat v * 10 + k"
  show ?case
  proof (cases "?n < 2 ^ 64")
    case True
    then have "unat (of_nat ?n :: u64) = ?n" by (rule unat_of_nat_u64)
    then show ?thesis
      using Cons.IH [OF ds, of "of_nat ?n"] True k(2) checked_step [OF k(2), of v]
      by (simp add: k(1))
  next
    case False
    then have "\<not> digits_value ?n ds < 2 ^ 64" using digits_value_ge [of ?n ds] by linarith
    then show ?thesis using False k(2) checked_step [OF k(2), of v] by (simp add: k(1))
  qed
qed



subsection \<open>Upgrades, latin1 and the second parse\<close>

lemma upgrade_scan_iff:
  "upgrade_scan u c hs \<longleftrightarrow>
     (u \<or> (\<exists>(n, v) \<in> set hs. eq_ignore_ascii_case n ''upgrade'')) \<and>
     (c \<or> (\<exists>(n, v) \<in> set hs. eq_ignore_ascii_case n ''connection'' \<and>
        (\<exists>token \<in> set (split_on (\<lambda>b. b = CHR '','') v). eq_ignore_ascii_case (trim_ows token) ''upgrade'')))"
proof (induction u c hs rule: upgrade_scan.induct)
  case (2 u c name val hs)
  have "eq_ignore_ascii_case name ''upgrade'' \<Longrightarrow> \<not> eq_ignore_ascii_case name ''connection''"
    by (simp add: ascii_defs)
  then show ?case using 2 by auto
qed simp

lemma latin1_bytes_iff: "latin1_bytes t = Some bs \<longleftrightarrow> t = map of_char bs"
proof (induction t arbitrary: bs)
  case (Cons c cs)
  show ?case
  proof (cases bs)
    case (Cons b bs')
    have "(c < 256 \<and> char_of c = b) = (c = of_char b)" by (auto simp: of_char_of)
    then show ?thesis using Cons Cons.IH [of bs'] by auto
  qed auto
qed auto

text \<open>
  \<open>latin1_header_value\<close> sends exactly the bytes that read back as the same code points,
  whichever of its two paths it takes: it yields the header value of the bytes \<open>bs\<close> when the text
  is \<open>bs\<close> read as code points, and refuses every other text.
\<close>

lemma latin1_header_value_exact:
  "latin1_header_value from_bytes t = Some v \<longleftrightarrow>
     (\<exists>bs. t = map of_char bs \<and> from_bytes bs = Some v)"
proof -
  have ascii: "latin1_bytes t = Some (map char_of t)" if "\<forall>c \<in> set t. c < 128"
  proof -
    have "map of_char (map char_of t :: string) = t"
      using that by (auto simp: comp_def intro!: map_idI)
    then show ?thesis by (simp only: latin1_bytes_iff)
  qed
  have "latin1_header_value from_bytes t = Option.bind (latin1_bytes t) from_bytes"
    using ascii by (simp add: latin1_header_value_def)
  then show ?thesis by (simp add: bind_eq_Some_conv latin1_bytes_iff)
qed

text \<open>
  \<open>is_upgrade\<close> holds exactly for the heads node upgrades: some \<open>Upgrade\<close> field, and in
  some \<open>Connection\<close> field the token \<open>upgrade\<close>, names and tokens compared without case, whatever the
  order and number of the fields.
\<close>

lemma is_upgrade_iff:
  "is_upgrade headers \<longleftrightarrow> field_values ''upgrade'' headers \<noteq> [] \<and>
     (\<exists>v \<in> set (field_values ''connection'' headers). \<exists>token \<in> set (split_on (\<lambda>b. b = CHR '','') v).
        eq_ignore_ascii_case (trim_ows token) ''upgrade'')"
  by (force simp: is_upgrade_def upgrade_scan_iff field_values_def filter_empty_conv)

text \<open>
  The second parse of an upgrade or CONNECT head, whose grammar is the parser's, accepts
  a head exactly when the parser, given \<open>MAX_HEADERS\<close> slots, consumed all of it and node's rules
  accept it.
\<close>

lemma parse_request_head_accepts:
  "(\<exists>parsed. parse_request_head httparse lossy head policy = Inr parsed) \<longleftrightarrow>
     (\<exists>req. httparse MAX_HEADERS head = HpComplete (length head) req) \<and>
     check_request_head head policy = Inr ()"
  by (auto simp: parse_request_head_def rbind_eq_Inr split: httparse_result.splits)

end
