(* ===== verification/Win32_Path.thy ===== *)
theory Win32_Path
  imports Oam_Bytes
begin

text \<open>
  node's \<open>path.win32.resolve\<close> and the namespaced path an fs operation hands the OS on Windows
  (\<open>crates/oam_core/src/lib.rs\<close>: \<open>win32_resolve_all_mode\<close>, \<open>normalize_win32_tail\<close>,
  \<open>fs_os_path_with\<close>, \<open>win32_shown_path\<close>, \<open>FsPath\<close>). Paths are \<open>string\<close>s of UTF-8 bytes; every
  place the code cuts a path is next to an ASCII byte. The current directory and the per-drive
  directories \<open>=X:\<close> are arguments.

  \<open>normalize_win32_tail\<close> is the source's byte-by-byte machine over an index; \<open>collapse\<close> is its
  reference, a stack of components. The theorems: the machine computes the reference, what it
  prints has no empty, \<open>.\<close> or (below a root) \<open>..\<close> component, and showing an OS path undoes the
  namespacing.
\<close>

abbreviation BS :: char where "BS \<equiv> CHR 0x5C"
abbreviation SL :: char where "SL \<equiv> CHR ''/''"

definition win_sep :: "char \<Rightarrow> bool" where
  "win_sep b \<longleftrightarrow> b = SL \<or> b = BS"

section \<open>Collapsing a path's tail\<close>

record tail_state =
  ts_res :: string
  ts_last_segment_length :: nat
  ts_last_slash :: int
  ts_dots :: int
  ts_code :: char

definition segment_length :: "string \<Rightarrow> nat" where
  "segment_length res = nat (int (length res) - 1 -
     (case rposition (\<lambda>b. b = BS) res of None \<Rightarrow> - 1 | Some i \<Rightarrow> int i))"

definition end_segment :: "int \<Rightarrow> tail_state \<Rightarrow> tail_state" where
  "end_segment i st = st\<lparr>ts_last_slash := i, ts_dots := 0\<rparr>"

text \<open>The branch taken at a separator (or the end) at index \<open>i\<close>.\<close>

definition tail_sep :: "string \<Rightarrow> bool \<Rightarrow> nat \<Rightarrow> tail_state \<Rightarrow> tail_state" where
  "tail_sep path allow_above_root i st =
     (if ts_last_slash st = int i - 1 \<or> ts_dots st = 1 then end_segment (int i) st
      else if ts_dots st = 2 then
        (let res = ts_res st;
             ends_in_dotdot = (2 \<le> length res \<and> ts_last_segment_length st = 2 \<and> ends_with ''..'' res);
             above = (if allow_above_root
               then st\<lparr>ts_res := res @ (if res = [] then ''..'' else BS # ''..''), ts_last_segment_length := 2\<rparr>
               else st)
         in end_segment (int i)
           (if ends_in_dotdot then above
            else if 2 < length res then
              (case rposition (\<lambda>b. b = BS) res of
                 None \<Rightarrow> st\<lparr>ts_res := [], ts_last_segment_length := 0\<rparr>
               | Some at \<Rightarrow>
                   st\<lparr>ts_res := take at res, ts_last_segment_length := segment_length (take at res)\<rparr>)
            else if res \<noteq> [] then st\<lparr>ts_res := [], ts_last_segment_length := 0\<rparr>
            else above))
      else
        (let from = nat (ts_last_slash st + 1);
             seg = take (i - from) (drop from path)
         in end_segment (int i)
           (st\<lparr>ts_res := (if ts_res st \<noteq> [] then ts_res st @ [BS] else ts_res st) @ seg,
               ts_last_segment_length := nat (int i - ts_last_slash st - 1)\<rparr>)))"

definition tail_char :: "string \<Rightarrow> bool \<Rightarrow> nat \<Rightarrow> tail_state \<Rightarrow> tail_state" where
  "tail_char path allow_above_root i st =
     (if win_sep (ts_code st) then tail_sep path allow_above_root i st
      else if ts_code st = CHR ''.'' \<and> ts_dots st \<noteq> - 1 then st\<lparr>ts_dots := ts_dots st + 1\<rparr>
      else st\<lparr>ts_dots := - 1\<rparr>)"

function tail_loop :: "string \<Rightarrow> bool \<Rightarrow> nat \<Rightarrow> tail_state \<Rightarrow> tail_state" where
  "tail_loop path allow_above_root i st =
     (if i < length path then
        tail_loop path allow_above_root (Suc i)
          (tail_char path allow_above_root i (st\<lparr>ts_code := path ! i\<rparr>))
      else if win_sep (ts_code st) then st
      else tail_char path allow_above_root i (st\<lparr>ts_code := SL\<rparr>))"
  by auto
termination by (relation "measure (\<lambda>(path, _, i, _). length path - i)") auto

definition normalize_win32_tail :: "string \<Rightarrow> bool \<Rightarrow> string" where
  "normalize_win32_tail path allow_above_root =
     ts_res (tail_loop path allow_above_root 0
       \<lparr>ts_res = [], ts_last_segment_length = 0, ts_last_slash = - 1, ts_dots = 0,
        ts_code = CHR 0x00\<rparr>)"

section \<open>Resolving\<close>

datatype win32_resolve_mode_kind = JsMode | CppMode

record root_parse =
  rp_end :: nat
  rp_device :: string
  rp_absolute :: bool

text \<open>The root of one candidate: where it ends, its device, and whether it is absolute.\<close>

definition unc_root :: "string \<Rightarrow> root_parse" where
  "unc_root c =
     (let none = \<lparr>rp_end = 0, rp_device = [], rp_absolute = True\<rparr>;
          j1 = 2 + length (takeWhile (\<lambda>b. \<not> win_sep b) (drop 2 c))
      in if j1 < length c \<and> j1 \<noteq> 2 then
           (let first_part = take (j1 - 2) (drop 2 c);
                j2 = j1 + length (takeWhile win_sep (drop j1 c))
            in if j2 < length c \<and> j2 \<noteq> j1 then
                 (let j3 = j2 + length (takeWhile (\<lambda>b. \<not> win_sep b) (drop j2 c))
                  in if j3 = length c \<or> j3 \<noteq> j2 then
                       (if first_part \<noteq> ''.'' \<and> first_part \<noteq> ''?'' then
                          \<lparr>rp_end = j3, rp_device = [BS, BS] @ first_part @ [BS] @ take (j3 - j2) (drop j2 c),
                           rp_absolute = True\<rparr>
                        else \<lparr>rp_end = 4, rp_device = [BS, BS] @ first_part, rp_absolute = True\<rparr>)
                     else none)
               else none)
         else none)"

definition parse_root :: "string \<Rightarrow> root_parse" where
  "parse_root c =
     (if length c = 1 then
        (if win_sep (c ! 0) then \<lparr>rp_end = 1, rp_device = [], rp_absolute = True\<rparr>
         else \<lparr>rp_end = 0, rp_device = [], rp_absolute = False\<rparr>)
      else if win_sep (c ! 0) then
        (if win_sep (c ! 1) then unc_root c
         else \<lparr>rp_end = 1, rp_device = [], rp_absolute = True\<rparr>)
      else if is_ascii_alphabetic (c ! 0) \<and> c ! 1 = CHR '':'' then
        (if 2 < length c \<and> win_sep (c ! 2)
         then \<lparr>rp_end = 3, rp_device = take 2 c, rp_absolute = True\<rparr>
         else \<lparr>rp_end = 2, rp_device = take 2 c, rp_absolute = False\<rparr>)
      else \<lparr>rp_end = 0, rp_device = [], rp_absolute = False\<rparr>)"

record resolve_state =
  rs_device :: string
  rs_tail :: string
  rs_absolute :: bool

text \<open>One turn of the loop on its candidate; the flag says that the loop breaks.\<close>

definition resolve_step :: "string \<Rightarrow> resolve_state \<Rightarrow> resolve_state \<times> bool" where
  "resolve_step candidate st =
     (if candidate = [] then (st, False)
      else
        (let rp = parse_root candidate;
             device = rp_device rp;
             st1 = (if device \<noteq> [] \<and> rs_device st = [] then st\<lparr>rs_device := device\<rparr> else st)
         in if device \<noteq> [] \<and> rs_device st \<noteq> [] \<and> \<not> eq_ignore_ascii_case device (rs_device st)
            then (st, False)
            else if rs_absolute st1 then (st1, rs_device st1 \<noteq> [])
            else (st1\<lparr>rs_tail := drop (rp_end rp) candidate @ [BS] @ rs_tail st1,
                      rs_absolute := rp_absolute rp\<rparr>,
                  rp_absolute rp \<and> rs_device st1 \<noteq> [])))"

definition cwd_candidate ::
    "string \<Rightarrow> (string \<Rightarrow> string option) \<Rightarrow> win32_resolve_mode_kind \<Rightarrow> string \<Rightarrow> string" where
  "cwd_candidate cwd drive_cwd mode device =
     (if device = [] then cwd
      else
        (let drive = (case drive_cwd device of
               Some dir \<Rightarrow> if dir \<noteq> [] then dir else cwd
             | None \<Rightarrow> cwd);
             other_drive = (length drive < 2 \<or> \<not> eq_ignore_ascii_case (take 2 drive) device);
             root = (case mode of
                 JsMode \<Rightarrow> other_drive \<and> 2 < length drive \<and> drive ! 2 = BS
               | CppMode \<Rightarrow> drive = [] \<or> (other_drive \<and> 2 < length drive \<and> drive ! 2 = SL))
         in if root then device @ [BS] else drive))"

text \<open>The loop: the arguments last first, then the current directory.\<close>

fun resolve_loop ::
    "string \<Rightarrow> (string \<Rightarrow> string option) \<Rightarrow> win32_resolve_mode_kind \<Rightarrow> string list \<Rightarrow> resolve_state \<Rightarrow> resolve_state"
  where
  "resolve_loop cwd drive_cwd mode [] st =
     fst (resolve_step (cwd_candidate cwd drive_cwd mode (rs_device st)) st)"
| "resolve_loop cwd drive_cwd mode (p # ps) st =
     (case resolve_step p st of
        (st', stop) \<Rightarrow> if stop then st' else resolve_loop cwd drive_cwd mode ps st')"

definition win32_resolve_all_mode ::
    "string list \<Rightarrow> string \<Rightarrow> (string \<Rightarrow> string option) \<Rightarrow> win32_resolve_mode_kind \<Rightarrow> string" where
  "win32_resolve_all_mode paths cwd drive_cwd mode =
     (let st = resolve_loop cwd drive_cwd mode (rev paths)
            \<lparr>rs_device = [], rs_tail = [], rs_absolute = False\<rparr>;
          tail = normalize_win32_tail (rs_tail st) (\<not> rs_absolute st)
      in if rs_absolute st then rs_device st @ [BS] @ tail
         else (let joined = rs_device st @ tail in if joined = [] then ''.'' else joined))"

definition win32_resolve_mode ::
    "string \<Rightarrow> string \<Rightarrow> (string \<Rightarrow> string option) \<Rightarrow> win32_resolve_mode_kind \<Rightarrow> string" where
  "win32_resolve_mode path cwd drive_cwd mode = win32_resolve_all_mode [path] cwd drive_cwd mode"

section \<open>OS paths\<close>

definition verbatim :: string where "verbatim = [BS, BS] @ ''?'' @ [BS]"
definition verbatim_unc :: string where "verbatim_unc = [BS, BS] @ ''?'' @ [BS] @ ''UNC'' @ [BS]"

definition fs_os_path_with ::
    "string \<Rightarrow> string \<Rightarrow> (string \<Rightarrow> string option) \<Rightarrow> win32_resolve_mode_kind \<Rightarrow> string" where
  "fs_os_path_with path cwd drive_cwd mode =
     (if path = [] then path
      else
        (let resolved = win32_resolve_mode path cwd drive_cwd mode in
         if length resolved \<le> 2 then path
         else if resolved ! 0 = BS then
           (if resolved ! 1 = BS \<and> resolved ! 2 \<noteq> CHR ''?'' \<and> resolved ! 2 \<noteq> CHR ''.''
            then verbatim_unc @ drop 2 resolved else resolved)
         else if is_ascii_alphabetic (resolved ! 0) \<and> resolved ! 1 = CHR '':'' \<and> resolved ! 2 = BS
         then verbatim @ resolved
         else resolved))"

definition win32_shown_path :: "string \<Rightarrow> string" where
  "win32_shown_path os =
     (case strip_prefix verbatim_unc os of
        Some rest \<Rightarrow> [BS, BS] @ rest
      | None \<Rightarrow> (case strip_prefix verbatim os of Some rest \<Rightarrow> rest | None \<Rightarrow> os))"

text \<open>The platform-dependent functions, with the build's \<open>cfg(windows)\<close> as their first argument.\<close>

definition fs_os_path :: "bool \<Rightarrow> string \<Rightarrow> (string \<Rightarrow> string option) \<Rightarrow> string \<Rightarrow> string" where
  "fs_os_path windows cwd drive_cwd path =
     (if windows then fs_os_path_with path cwd drive_cwd CppMode else path)"

definition fs_shown_path :: "bool \<Rightarrow> string \<Rightarrow> string" where
  "fs_shown_path windows os = (if windows then win32_shown_path os else os)"

definition fs_error_path :: "bool \<Rightarrow> string \<Rightarrow> (string \<Rightarrow> string option) \<Rightarrow> string \<Rightarrow> string" where
  "fs_error_path windows cwd drive_cwd path = fs_shown_path windows (fs_os_path windows cwd drive_cwd path)"

record fs_path =
  fp_os :: string

definition fs_path_new :: "bool \<Rightarrow> string \<Rightarrow> (string \<Rightarrow> string option) \<Rightarrow> string \<Rightarrow> fs_path" where
  "fs_path_new windows cwd drive_cwd path = \<lparr>fp_os = fs_os_path windows cwd drive_cwd path\<rparr>"

definition fs_path_from_os :: "string \<Rightarrow> fs_path" where
  "fs_path_from_os os = \<lparr>fp_os = os\<rparr>"

definition fs_path_for_scandir :: "bool \<Rightarrow> string \<Rightarrow> (string \<Rightarrow> string option) \<Rightarrow> string \<Rightarrow> fs_path" where
  "fs_path_for_scandir windows cwd drive_cwd path =
     (let trailing = (windows \<and> path \<noteq> [] \<and> win_sep (last path));
          found = fs_path_new windows cwd drive_cwd path
      in if trailing \<and> fp_os found \<noteq> [] \<and> \<not> ends_with [BS] (fp_os found)
         then found\<lparr>fp_os := fp_os found @ [BS]\<rparr> else found)"

definition fs_path_shown :: "bool \<Rightarrow> fs_path \<Rightarrow> string" where
  "fs_path_shown windows p = fs_shown_path windows (fp_os p)"

section \<open>The reference: a stack of components\<close>

definition collapse_step :: "bool \<Rightarrow> string list \<Rightarrow> string \<Rightarrow> string list" where
  "collapse_step allow acc seg =
     (if seg = [] \<or> seg = ''.'' then acc
      else if seg = ''..'' then
        (if acc \<noteq> [] \<and> last acc \<noteq> ''..'' then butlast acc
         else if allow then acc @ [''..''] else acc)
      else acc @ [seg])"

definition collapse :: "bool \<Rightarrow> string list \<Rightarrow> string list" where
  "collapse allow segs = foldl (collapse_step allow) [] segs"

text \<open>Components: non-empty and without a separator.\<close>

definition plain_segs :: "string list \<Rightarrow> bool" where
  "plain_segs acc \<longleftrightarrow> (\<forall>seg \<in> set acc. seg \<noteq> [] \<and> (\<forall>b \<in> set seg. \<not> win_sep b))"

lemma plain_segs_butlast: "plain_segs acc \<Longrightarrow> plain_segs (butlast acc)"
  by (auto simp: plain_segs_def dest: in_set_butlastD)

lemma plain_segs_snoc:
  "plain_segs (acc @ [seg]) \<longleftrightarrow> plain_segs acc \<and> seg \<noteq> [] \<and> (\<forall>b \<in> set seg. \<not> win_sep b)"
  by (auto simp: plain_segs_def)

lemma plain_segs_simps [simp]:
  "plain_segs []" "plain_segs (seg # acc) \<longleftrightarrow> seg \<noteq> [] \<and> (\<forall>b \<in> set seg. \<not> win_sep b) \<and> plain_segs acc"
  by (auto simp: plain_segs_def)

lemma plain_segs_step:
  assumes "plain_segs acc" "\<forall>b \<in> set seg. \<not> win_sep b"
  shows "plain_segs (collapse_step allow acc seg)"
proof -
  have "\<forall>b \<in> set ''..''. \<not> win_sep b" by (simp add: win_sep_def)
  then show ?thesis
    using assms plain_segs_butlast [of acc] by (simp add: collapse_step_def plain_segs_snoc)
qed

lemma join_BS_Nil: "plain_segs acc \<Longrightarrow> join [BS] acc = [] \<longleftrightarrow> acc = []"
  by (rule join_eq_Nil) (auto simp: plain_segs_def)

lemma plain_last_no_BS: "plain_segs (acc @ [y]) \<Longrightarrow> \<forall>b \<in> set y. b \<noteq> BS"
  by (auto simp: plain_segs_def win_sep_def)

lemma rposition_join:
  assumes "plain_segs (acc @ [y])"
  shows "rposition (\<lambda>b. b = BS) (join [BS] (acc @ [y])) =
    (if acc = [] then None else Some (length (join [BS] acc)))"
  using plain_last_no_BS [OF assms]
  by (auto simp: join_snoc rposition_None rposition_append_last)

lemma segment_length_join:
  "plain_segs acc \<Longrightarrow> segment_length (join [BS] acc) = (if acc = [] then 0 else length (last acc))"
proof (cases acc rule: rev_cases)
  case (snoc ys y)
  assume "plain_segs acc"
  then show ?thesis
    using snoc rposition_join [of ys y] by (auto simp: segment_length_def join_snoc)
qed (simp add: segment_length_def rposition_def)

lemma length_join_two:
  assumes "plain_segs (ys @ [y])" "ys \<noteq> []"
  shows "2 < length (join [BS] (ys @ [y]))"
proof -
  have "y \<noteq> []" "join [BS] ys \<noteq> []"
    using assms join_BS_Nil [of ys] by (auto simp: plain_segs_def)
  then show ?thesis using assms(2) by (cases y; cases "join [BS] ys") (auto simp: join_snoc)
qed

lemma ends_with_join_last:
  "length s = length y \<Longrightarrow> ends_with s (join [BS] (ys @ [y])) \<longleftrightarrow> y = s"
  by (cases "ys = []") (auto simp: join_snoc ends_with_def)

section \<open>The machine computes the reference\<close>

definition dots_of :: "string \<Rightarrow> int" where
  "dots_of cur = (if \<forall>b \<in> set cur. b = CHR ''.'' then int (length cur) else - 1)"

lemma dots_of_iff: "dots_of cur = 1 \<longleftrightarrow> cur = ''.''" "dots_of cur = 2 \<longleftrightarrow> cur = ''..''"
proof -
  show "dots_of cur = 1 \<longleftrightarrow> cur = ''.''" by (cases cur) (auto simp: dots_of_def)
  show "dots_of cur = 2 \<longleftrightarrow> cur = ''..''" by (cases cur; cases "tl cur") (auto simp: dots_of_def)
qed

definition last_length :: "string list \<Rightarrow> nat" where
  "last_length acc = (if acc = [] then 0 else length (last acc))"

lemma last_length_simps [simp]:
  "last_length [] = 0" "last_length [y] = length y" "last_length (ys @ [y]) = length y"
  by (simp_all add: last_length_def)

text \<open>
  The machine's state after reading \<open>pre\<close>: the finished components are \<open>acc\<close>, the unfinished one
  is \<open>cur\<close>.
\<close>

definition tail_inv :: "string \<Rightarrow> string list \<Rightarrow> string \<Rightarrow> tail_state \<Rightarrow> bool" where
  "tail_inv pre acc cur st \<longleftrightarrow> plain_segs acc \<and> (\<exists>p. pre = p @ cur \<and> ts_last_slash st = int (length p) - 1) \<and>
     (\<forall>b \<in> set cur. \<not> win_sep b) \<and> ts_res st = join [BS] acc \<and>
     ts_last_segment_length st = last_length acc \<and> ts_dots st = dots_of cur"

lemma end_segment_simps [simp]:
  "ts_res (end_segment i st) = ts_res st" "ts_dots (end_segment i st) = 0"
  "ts_last_segment_length (end_segment i st) = ts_last_segment_length st"
  "ts_last_slash (end_segment i st) = i" "ts_code (end_segment i st) = ts_code st"
  by (simp_all add: end_segment_def)

lemma tail_sep_dotdot:
  assumes acc: "plain_segs acc" and res: "ts_res st = join [BS] acc"
    and len: "ts_last_segment_length st = last_length acc"
    and dots: "ts_dots st = 2" and slash: "ts_last_slash st \<noteq> int i - 1"
  shows "ts_res (tail_sep path allow i st) = join [BS] (collapse_step allow acc ''..'') \<and>
    ts_last_segment_length (tail_sep path allow i st) = last_length (collapse_step allow acc ''..'')"
proof (cases acc rule: rev_cases)
  case Nil
  then show ?thesis
    using assms by (simp add: tail_sep_def collapse_step_def Let_def last_length_def)
next
  case (snoc ys y)
  have y: "plain_segs (ys @ [y])" "y \<noteq> []" using acc snoc by (auto simp: plain_segs_def)
  have ne: "join [BS] (ys @ [y]) \<noteq> []" using join_BS_Nil [OF y(1)] by simp
  note simps = tail_sep_def dots slash res len snoc Let_def
  show ?thesis
  proof (cases "y = ''..''")
    case True
    have "2 \<le> length (join [BS] (ys @ [y]))" "ends_with ''..'' (join [BS] (ys @ [y]))"
      using True by (cases "ys = []"; simp add: join_snoc ends_with_def)+
    moreover have "last_length (ys @ [y]) = 2" using True by simp
    moreover have "collapse_step allow acc ''..'' = (if allow then acc @ [''..''] else acc)"
      using True snoc by (simp add: collapse_step_def)
    ultimately show ?thesis
      using ne by (simp add: simps join_snoc [of "ys @ [y]"] del: last_length_simps append_assoc)
        (simp add: last_length_def)
  next
    case False
    then have nd: "\<not> (2 \<le> length (join [BS] (ys @ [y])) \<and> length y = 2 \<and> ends_with ''..'' (join [BS] (ys @ [y])))"
      using ends_with_join_last [of "''..''" y ys] by auto
    have step: "collapse_step allow acc ''..'' = ys" using False snoc by (simp add: collapse_step_def)
    show ?thesis
    proof (cases "ys = []")
      case True
      then show ?thesis
        using nd y ne step rposition_join [OF y(1)] by (simp add: simps)
    next
      case False
      have "plain_segs ys" using plain_segs_butlast [OF y(1)] by simp
      then have "segment_length (join [BS] ys) = last_length ys"
        by (simp add: segment_length_join last_length_def)
      then show ?thesis
        using nd False step rposition_join [OF y(1)] length_join_two [OF y(1) False]
        by (simp add: simps join_snoc)
    qed
  qed
qed

lemma tail_sep_inv:
  assumes "tail_inv pre acc cur st" "pre = take i path" "i = length pre" "win_sep b"
  shows "tail_inv (pre @ [b]) (collapse_step allow acc cur) [] (tail_sep path allow i st)"
proof -
  obtain p where p: "pre = p @ cur" "ts_last_slash st = int (length p) - 1"
    and st: "plain_segs acc" "\<forall>b \<in> set cur. \<not> win_sep b" "ts_res st = join [BS] acc"
      "ts_last_segment_length st = last_length acc" "ts_dots st = dots_of cur"
    using assms(1) by (auto simp: tail_inv_def)
  have i: "i = length p + length cur" using assms(3) p(1) by simp
  have slash: "ts_last_slash (tail_sep path allow i st) = int i"
    and dots: "ts_dots (tail_sep path allow i st) = 0"
    by (simp_all add: tail_sep_def Let_def)
  have "ts_res (tail_sep path allow i st) = join [BS] (collapse_step allow acc cur) \<and>
      ts_last_segment_length (tail_sep path allow i st) = last_length (collapse_step allow acc cur)"
  proof -
    consider (skip) "cur = [] \<or> cur = ''.''" | (up) "cur = ''..''"
      | (push) "cur \<noteq> []" "cur \<noteq> ''.''" "cur \<noteq> ''..''" by blast
    then show ?thesis
    proof cases
      case skip
      then have "ts_last_slash st = int i - 1 \<or> ts_dots st = 1"
        using p(2) i st(5) dots_of_iff by auto
      then show ?thesis using skip st by (simp add: tail_sep_def collapse_step_def)
    next
      case up
      then have "ts_dots st = 2" "ts_last_slash st \<noteq> int i - 1"
        using st(5) dots_of_iff(2) [of cur] p(2) i by auto
      then show ?thesis using tail_sep_dotdot [OF st(1,3,4)] up by simp
    next
      case push
      then have "\<not> (ts_last_slash st = int i - 1 \<or> ts_dots st = 1)" "ts_dots st \<noteq> 2"
        using p(2) i st(5) dots_of_iff [of cur] by auto
      moreover have "take (i - length p) (drop (length p) path) = cur"
        using assms(2,3) p(1) i by (metis append_eq_conv_conj drop_take)
      moreover have "ts_res st = [] \<longleftrightarrow> acc = []" using st(1,3) join_BS_Nil by simp
      ultimately show ?thesis
        using push st p(2) i by (simp add: tail_sep_def collapse_step_def Let_def join_snoc)
    qed
  qed
  then show ?thesis
    using slash dots plain_segs_step [OF st(1,2)] assms(3) by (auto simp: tail_inv_def dots_of_def)
qed

lemma tail_char_inv:
  assumes "tail_inv pre acc cur st" "\<not> win_sep b" "ts_code st = b"
  shows "tail_inv (pre @ [b]) acc (cur @ [b]) (tail_char path allow i st)"
proof -
  have "dots_of (cur @ [b]) = (if b = CHR ''.'' \<and> dots_of cur \<noteq> - 1 then dots_of cur + 1 else - 1)"
    by (auto simp: dots_of_def)
  then show ?thesis using assms by (auto simp: tail_inv_def tail_char_def)
qed

lemma tail_inv_code [simp]: "tail_inv pre acc cur (st\<lparr>ts_code := c\<rparr>) = tail_inv pre acc cur st"
  by (simp add: tail_inv_def)

lemma tail_sep_code: "ts_code (tail_sep path allow i st) = ts_code st"
  by (simp add: tail_sep_def Let_def split: option.splits)

lemma tail_char_code: "ts_code (tail_char path allow i st) = ts_code st"
  by (simp add: tail_char_def tail_sep_code)

lemma split_on_cur:
  assumes "\<forall>x \<in> set cur. \<not> P x"
  shows "split_on P (cur @ b # ys) = (if P b then cur # split_on P ys else split_on P ((cur @ [b]) @ ys))"
  using assms by (simp add: split_on_append_sep split_on_no_sep)

lemma tail_loop_collapse:
  assumes "tail_inv pre acc cur st" "pre \<noteq> [] \<Longrightarrow> ts_code st = last pre"
    "pre = [] \<Longrightarrow> \<not> win_sep (ts_code st)"
  shows "ts_res (tail_loop (pre @ suf) allow (length pre) st) =
    join [BS] (foldl (collapse_step allow) acc (split_on win_sep (cur @ suf)))"
  using assms
proof (induction suf arbitrary: pre acc cur st)
  case Nil
  have cur: "\<forall>b \<in> set cur. \<not> win_sep b" and res: "ts_res st = join [BS] acc"
    using Nil.prems(1) by (auto simp: tail_inv_def)
  show ?case
  proof (cases "win_sep (ts_code st)")
    case True
    then have "cur = []"
      using Nil.prems cur by (cases cur rule: rev_cases) (auto simp: tail_inv_def)
    then show ?thesis using True res by (simp add: collapse_step_def)
  next
    case False
    have "tail_inv (pre @ [SL]) (collapse_step allow acc cur) []
        (tail_sep pre allow (length pre) (st\<lparr>ts_code := SL\<rparr>))"
      by (rule tail_sep_inv) (use Nil.prems(1) in \<open>auto simp: win_sep_def\<close>)
    then show ?thesis
      using False cur by (simp add: tail_char_def win_sep_def split_on_no_sep tail_inv_def)
  qed
next
  case (Cons b suf)
  let ?st = "st\<lparr>ts_code := b\<rparr>" and ?path = "(pre @ [b]) @ suf"
  let ?st' = "tail_char ?path allow (length pre) ?st"
  have cur: "\<forall>b \<in> set cur. \<not> win_sep b" using Cons.prems(1) by (simp add: tail_inv_def)
  have code: "ts_code ?st' = b" by (simp add: tail_char_code)
  have loop: "tail_loop (pre @ b # suf) allow (length pre) st =
      tail_loop ?path allow (length (pre @ [b])) ?st'"
    by (subst tail_loop.simps) (simp del: tail_loop.simps)
  show ?case
  proof (cases "win_sep b")
    case True
    have "tail_inv (pre @ [b]) (collapse_step allow acc cur) [] (tail_sep ?path allow (length pre) ?st)"
      by (rule tail_sep_inv) (use Cons.prems(1) True in auto)
    then have "tail_inv (pre @ [b]) (collapse_step allow acc cur) [] ?st'"
      using True by (simp add: tail_char_def)
    from Cons.IH [OF this] code loop show ?thesis
      using True cur by (simp add: split_on_cur del: tail_loop.simps)
  next
    case False
    have "tail_inv (pre @ [b]) acc (cur @ [b]) ?st'"
      by (rule tail_char_inv) (use Cons.prems(1) False in auto)
    from Cons.IH [OF this] code loop show ?thesis
      using False cur by (simp del: tail_loop.simps)
  qed
qed

lemma normalize_tail_collapse:
  "normalize_win32_tail path allow = join [BS] (collapse allow (split_on win_sep path))"
proof -
  let ?st = "\<lparr>ts_res = [], ts_last_segment_length = 0, ts_last_slash = - 1, ts_dots = 0,
    ts_code = CHR 0x00\<rparr>"
  have "tail_inv [] [] [] ?st" by (simp add: tail_inv_def dots_of_def)
  from tail_loop_collapse [OF this, of path allow] show ?thesis
    by (simp add: normalize_win32_tail_def collapse_def win_sep_def del: tail_loop.simps)
qed

section \<open>Canonical paths\<close>

text \<open>A drive or share root followed by real components: what a resolve of an anchored path is.\<close>

definition real_comps :: "string list \<Rightarrow> bool" where
  "real_comps comps \<longleftrightarrow> plain_segs comps \<and> ''.'' \<notin> set comps \<and> ''..'' \<notin> set comps"

definition drive_device :: "string \<Rightarrow> bool" where
  "drive_device d \<longleftrightarrow> (\<exists>c. is_ascii_alphabetic c \<and> d = [c, CHR '':''])"

definition unc_device :: "string \<Rightarrow> bool" where
  "unc_device d \<longleftrightarrow> (\<exists>srv sh. plain_segs [srv, sh] \<and> srv \<noteq> ''.'' \<and> srv \<noteq> ''?'' \<and>
     d = [BS, BS] @ srv @ [BS] @ sh)"

definition win_canonical :: "string \<Rightarrow> bool" where
  "win_canonical r \<longleftrightarrow> (\<exists>dev comps. (drive_device dev \<or> unc_device dev) \<and> real_comps comps \<and>
     r = dev @ [BS] @ join [BS] comps)"

lemma collapse_step_real:
  "real_comps acc \<Longrightarrow> \<forall>b \<in> set seg. \<not> win_sep b \<Longrightarrow> real_comps (collapse_step False acc seg)"
  using plain_segs_step [of acc seg False]
  by (auto simp: real_comps_def collapse_step_def dest: in_set_butlastD)

lemma foldl_collapse_real:
  "real_comps acc \<Longrightarrow> \<forall>seg \<in> set segs. \<forall>b \<in> set seg. \<not> win_sep b \<Longrightarrow>
     real_comps (foldl (collapse_step False) acc segs)"
  by (induction segs arbitrary: acc) (auto simp: collapse_step_real)

lemma collapse_real: "real_comps (collapse False (split_on win_sep path))"
  unfolding collapse_def
  by (rule foldl_collapse_real) (auto simp: real_comps_def dest: split_on_pieces)

lemma foldl_collapse_id:
  "real_comps comps \<Longrightarrow> foldl (collapse_step allow) acc comps = acc @ comps"
  by (induction comps arbitrary: acc) (auto simp: real_comps_def collapse_step_def)

lemma split_join_comps:
  "real_comps comps \<Longrightarrow> comps \<noteq> [] \<Longrightarrow> split_on win_sep (join [BS] comps) = comps"
  by (rule split_on_join) (auto simp: real_comps_def plain_segs_def win_sep_def)

lemma normalize_comps:
  assumes "real_comps comps"
  shows "normalize_win32_tail (join [BS] comps @ [BS]) False = join [BS] comps"
    "normalize_win32_tail (BS # join [BS] comps @ [BS]) False = join [BS] comps"
proof -
  have BS: "win_sep BS" by (simp add: win_sep_def)
  have "foldl (collapse_step False) [] (split_on win_sep (join [BS] comps)) = comps"
  proof (cases "comps = []")
    case False
    then show ?thesis using split_join_comps foldl_collapse_id [of comps False "[]"] assms by simp
  qed (simp add: collapse_step_def)
  then show "normalize_win32_tail (join [BS] comps @ [BS]) False = join [BS] comps"
    "normalize_win32_tail (BS # join [BS] comps @ [BS]) False = join [BS] comps"
    using BS split_on_append_sep [of win_sep BS "join [BS] comps" "[]"]
    by (simp_all add: normalize_tail_collapse collapse_def collapse_step_def)
qed

lemma takeWhile_stop: "\<forall>x \<in> set xs. P x \<Longrightarrow> \<not> P b \<Longrightarrow> takeWhile P (xs @ b # ys) = xs"
  by (induction xs) auto

lemma parse_root_drive:
  "is_ascii_alphabetic c \<Longrightarrow>
     parse_root ([c, CHR '':''] @ [BS] @ t) = \<lparr>rp_end = 3, rp_device = [c, CHR '':''], rp_absolute = True\<rparr>"
  by (auto simp: parse_root_def win_sep_def ascii_defs)

lemma parse_root_unc:
  assumes "plain_segs [srv, sh]" "srv \<noteq> ''.''" "srv \<noteq> ''?''"
  shows "parse_root ([BS, BS] @ srv @ [BS] @ sh @ [BS] @ t) =
    \<lparr>rp_end = length srv + length sh + 3, rp_device = [BS, BS] @ srv @ [BS] @ sh, rp_absolute = True\<rparr>"
proof -
  have BS: "win_sep BS" by (simp add: win_sep_def)
  have tw1: "takeWhile (\<lambda>b. \<not> win_sep b) (srv @ BS # sh @ BS # t) = srv"
    "takeWhile (\<lambda>b. \<not> win_sep b) (sh @ BS # t) = sh"
    using assms(1) BS by (simp_all add: takeWhile_stop)
  have tw2: "takeWhile win_sep (BS # sh @ BS # t) = [BS]"
    using assms(1) BS by (cases sh) auto
  show ?thesis
    using assms tw1 tw2 BS
    by (simp add: parse_root_def unc_root_def Let_def)
qed

text \<open>A canonical path is parsed as its device and an absolute tail of its components.\<close>

lemma parse_root_canonical:
  assumes "drive_device dev \<or> unc_device dev" "real_comps comps"
  shows "\<exists>e. parse_root (dev @ [BS] @ join [BS] comps) = \<lparr>rp_end = e, rp_device = dev, rp_absolute = True\<rparr> \<and>
    normalize_win32_tail (drop e (dev @ [BS] @ join [BS] comps) @ [BS]) False = join [BS] comps"
  using assms(1)
proof
  assume "drive_device dev"
  then obtain c where "is_ascii_alphabetic c" "dev = [c, CHR '':'']" by (auto simp: drive_device_def)
  then show ?thesis using parse_root_drive normalize_comps(1) [OF assms(2)] by simp
next
  assume "unc_device dev"
  then obtain srv sh where u: "plain_segs [srv, sh]" "srv \<noteq> ''.''" "srv \<noteq> ''?''"
    "dev = [BS, BS] @ srv @ [BS] @ sh" by (auto simp: unc_device_def)
  have len: "length srv + length sh + 3 = length dev" using u(4) by simp
  have "drop (length dev) (dev @ [BS] @ join [BS] comps) = [BS] @ join [BS] comps"
    by (metis append_eq_conv_conj)
  then show ?thesis
    using parse_root_unc [OF u(1-3), of "join [BS] comps"] normalize_comps(2) [OF assms(2)]
    by (intro exI [of _ "length dev"]) (simp add: len, simp add: u(4))
qed

lemma device_nonempty: "drive_device dev \<or> unc_device dev \<Longrightarrow> dev \<noteq> []"
  by (auto simp: drive_device_def unc_device_def)

lemma resolve_mode_unfold:
  "win32_resolve_mode path cwd drive_cwd mode =
     (let st = (case resolve_step path \<lparr>rs_device = [], rs_tail = [], rs_absolute = False\<rparr> of
            (st1, stop) \<Rightarrow> if stop then st1
              else fst (resolve_step (cwd_candidate cwd drive_cwd mode (rs_device st1)) st1));
          tail = normalize_win32_tail (rs_tail st) (\<not> rs_absolute st)
      in if rs_absolute st then rs_device st @ [BS] @ tail
         else (let joined = rs_device st @ tail in if joined = [] then ''.'' else joined))"
  by (cases "resolve_step path \<lparr>rs_device = [], rs_tail = [], rs_absolute = False\<rparr>")
    (simp add: win32_resolve_mode_def win32_resolve_all_mode_def)

text \<open>
  Property C15. The byte-by-byte machine that collapses a path's tail computes the component stack:
  it splits at separators, drops empty and \<open>.\<close> components, and lets \<open>..\<close> pop the component before
  it, or stay when there is none and it may climb above the root.
\<close>

theorem normalize_win32_tail_is_collapse:
  "normalize_win32_tail path allow = join [BS] (collapse allow (split_on win_sep path))"
  by (rule normalize_tail_collapse)

text \<open>
  Property C24. A canonical path (a drive or share root and real components) is its own resolve,
  whatever the current directory, the per-drive directories and the mode: a grant resolved once
  at startup does not move when the process changes directory and the entry is resolved again.
\<close>

theorem win32_resolve_canonical_fixed:
  assumes "win_canonical r"
  shows "win32_resolve_mode r cwd drive_cwd mode = r"
proof -
  obtain dev comps where r: "drive_device dev \<or> unc_device dev" "real_comps comps"
    "r = dev @ [BS] @ join [BS] comps" using assms by (auto simp: win_canonical_def)
  obtain e where e: "parse_root r = \<lparr>rp_end = e, rp_device = dev, rp_absolute = True\<rparr>"
    "normalize_win32_tail (drop e r @ [BS]) False = join [BS] comps"
    using parse_root_canonical [OF r(1,2)] r(3) by auto
  have "dev \<noteq> []" "r \<noteq> []" using device_nonempty [OF r(1)] r(3) by auto
  then have "resolve_step r \<lparr>rs_device = [], rs_tail = [], rs_absolute = False\<rparr> =
      (\<lparr>rs_device = dev, rs_tail = drop e r @ [BS], rs_absolute = True\<rparr>, True)"
    using e(1) by (simp add: resolve_step_def Let_def)
  then show ?thesis using e(2) r(3) by (simp add: resolve_mode_unfold)
qed

theorem win32_resolve_canonical_fixed_witness:
  "win32_resolve_mode (''C:'' @ [BS] @ ''box'') ''D:/elsewhere'' (\<lambda>_. None) CppMode = ''C:'' @ [BS] @ ''box''"
proof (rule win32_resolve_canonical_fixed)
  have "drive_device ''C:''" "real_comps [''box'']"
    by (simp_all add: drive_device_def real_comps_def ascii_defs win_sep_def)
  then show "win_canonical (''C:'' @ [BS] @ ''box'')"
    unfolding win_canonical_def by (intro exI [of _ "''C:''"] exI [of _ "[''box'']"]) simp
qed

lemma win_canonicalI:
  "drive_device dev \<or> unc_device dev \<Longrightarrow> win_canonical (dev @ [BS] @ normalize_win32_tail t False)"
  unfolding normalize_tail_collapse win_canonical_def using collapse_real by blast

lemma takeWhile_next_nonempty:
  assumes "j < length c" "j = i + length (takeWhile P (drop i c))"
  shows "takeWhile (\<lambda>x. \<not> P x) (drop j c) \<noteq> []"
proof -
  have "length (takeWhile P (drop i c)) < length (drop i c)" using assms by simp
  then have "\<not> P (drop i c ! length (takeWhile P (drop i c)))" by (rule nth_length_takeWhile)
  then have "\<not> P (c ! j)" using assms by simp
  moreover have "drop j c = c ! j # drop (Suc j) c" using assms(1) by (rule Cons_nth_drop_Suc [symmetric])
  ultimately show ?thesis by simp
qed

lemma unc_root_device:
  assumes "rp_device (unc_root c) \<noteq> []" "\<not> starts_with [BS, BS, CHR ''.''] (rp_device (unc_root c))"
    "\<not> starts_with [BS, BS, CHR ''?''] (rp_device (unc_root c))"
  shows "unc_device (rp_device (unc_root c)) \<and> rp_absolute (unc_root c)"
proof -
  define srv where "srv = takeWhile (\<lambda>b. \<not> win_sep b) (drop 2 c)"
  define j1 where "j1 = 2 + length srv"
  define j2 where "j2 = j1 + length (takeWhile win_sep (drop j1 c))"
  define sh where "sh = takeWhile (\<lambda>b. \<not> win_sep b) (drop j2 c)"
  note folds = srv_def [symmetric] j1_def [symmetric] j2_def [symmetric] sh_def [symmetric]
  have parts: "take (j1 - 2) (drop 2 c) = srv" "take (j2 + length sh - j2) (drop j2 c) = sh"
    by (simp_all add: j1_def srv_def sh_def takeWhile_eq_take [symmetric])
  have root: "unc_root c = (if j1 < length c \<and> j1 \<noteq> 2 then
      if j2 < length c \<and> j2 \<noteq> j1 then
        if j2 + length sh = length c \<or> j2 + length sh \<noteq> j2 then
          if srv \<noteq> ''.'' \<and> srv \<noteq> ''?'' then
            \<lparr>rp_end = j2 + length sh, rp_device = [BS, BS] @ srv @ [BS] @ sh, rp_absolute = True\<rparr>
          else \<lparr>rp_end = 4, rp_device = [BS, BS] @ srv, rp_absolute = True\<rparr>
        else \<lparr>rp_end = 0, rp_device = [], rp_absolute = True\<rparr>
      else \<lparr>rp_end = 0, rp_device = [], rp_absolute = True\<rparr>
    else \<lparr>rp_end = 0, rp_device = [], rp_absolute = True\<rparr>)"
    unfolding unc_root_def Let_def folds parts ..
  have c: "j1 \<noteq> 2" "j2 < length c" using assms(1) unfolding root by (auto split: if_splits)
  have plain: "plain_segs [srv, sh]"
    using c(1) takeWhile_next_nonempty [OF c(2) j2_def]
    by (auto simp: j1_def srv_def sh_def dest: set_takeWhileD)
  have "rp_device (unc_root c) = [BS, BS] @ srv @ [BS] @ sh \<and> srv \<noteq> ''.'' \<and> srv \<noteq> ''?''"
    using assms unfolding root by (auto simp: starts_with_def split: if_splits)
  moreover have "rp_absolute (unc_root c)" unfolding root by simp
  ultimately show ?thesis using plain unfolding unc_device_def by blast
qed

definition namespace_device :: "string \<Rightarrow> bool" where
  "namespace_device d \<longleftrightarrow> starts_with [BS, BS, CHR ''.''] d \<or> starts_with [BS, BS, CHR ''?''] d"

lemma parse_root_device:
  assumes "rp_device (parse_root c) \<noteq> []" "rp_absolute (parse_root c)"
    "\<not> namespace_device (rp_device (parse_root c))" "c \<noteq> []"
  shows "drive_device (rp_device (parse_root c)) \<or> unc_device (rp_device (parse_root c))"
proof (cases "length c \<noteq> 1 \<and> win_sep (c ! 0) \<and> win_sep (c ! 1)")
  case True
  then have "parse_root c = unc_root c" by (simp add: parse_root_def)
  then show ?thesis using assms unc_root_device [of c] by (simp add: namespace_device_def)
next
  case False
  then have "is_ascii_alphabetic (c ! 0)" "c ! 1 = CHR '':''" "rp_device (parse_root c) = take 2 c"
    "2 \<le> length c"
    using assms by (cases c; auto simp: parse_root_def Suc_le_eq split: if_splits)+
  moreover have "take 2 c = [c ! 0, c ! 1]" if "2 \<le> length c"
    using that by (cases c; cases "tl c") (auto simp: numeral_2_eq_2)
  ultimately show ?thesis unfolding drive_device_def by auto
qed

text \<open>
  Property C25. Anchored paths resolve to canonical ones: with a canonical current directory, a path
  that names no device (relative, rooted or empty) or is absolute on a drive or share resolves to a
  drive or share root followed by components that are neither empty, \<open>.\<close> nor \<open>..\<close> and hold no
  separator.
\<close>

theorem win32_resolve_anchored:
  assumes cwd: "win_canonical cwd"
    and p: "p = [] \<or> rp_device (parse_root p) = [] \<or>
      rp_absolute (parse_root p) \<and> \<not> namespace_device (rp_device (parse_root p))"
  shows "win_canonical (win32_resolve_mode p cwd drive_cwd mode)"
proof -
  obtain dev comps where dev: "drive_device dev \<or> unc_device dev" "real_comps comps"
    "cwd = dev @ [BS] @ join [BS] comps" using cwd by (auto simp: win_canonical_def)
  obtain e where e: "parse_root cwd = \<lparr>rp_end = e, rp_device = dev, rp_absolute = True\<rparr>"
    using parse_root_canonical [OF dev(1,2)] dev(3) by auto
  have ne: "dev \<noteq> []" "cwd \<noteq> []" using device_nonempty [OF dev(1)] dev(3) by auto
  have cand: "cwd_candidate cwd drive_cwd mode [] = cwd" by (simp add: cwd_candidate_def)
  consider (no_device) "p = [] \<or> rp_device (parse_root p) = []"
    | (device) "p \<noteq> []" "rp_device (parse_root p) \<noteq> []" "rp_absolute (parse_root p)"
      "\<not> namespace_device (rp_device (parse_root p))"
    using p by blast
  then show ?thesis
  proof cases
    case no_device
    then have "\<exists>t. win32_resolve_mode p cwd drive_cwd mode = dev @ [BS] @ normalize_win32_tail t False"
      using e ne by (auto simp: resolve_mode_unfold resolve_step_def Let_def cand)
    then show ?thesis using win_canonicalI [OF dev(1)] by auto
  next
    case device
    then have "\<exists>t. win32_resolve_mode p cwd drive_cwd mode =
        rp_device (parse_root p) @ [BS] @ normalize_win32_tail t False"
      by (auto simp: resolve_mode_unfold resolve_step_def Let_def)
    then show ?thesis
      using win_canonicalI [OF parse_root_device [OF device(2-4,1)]] by auto
  qed
qed

theorem win32_resolve_anchored_witness:
  "win_canonical (win32_resolve_mode ''../x'' (''C:'' @ [BS] @ ''work'') (\<lambda>_. None) CppMode)"
proof (rule win32_resolve_anchored)
  have "drive_device ''C:''" "real_comps [''work'']"
    by (simp_all add: drive_device_def real_comps_def ascii_defs win_sep_def)
  then show "win_canonical (''C:'' @ [BS] @ ''work'')"
    unfolding win_canonical_def by (intro exI [of _ "''C:''"] exI [of _ "[''work'']"]) simp
  show "''../x'' = [] \<or> rp_device (parse_root ''../x'') = [] \<or>
      rp_absolute (parse_root ''../x'') \<and> \<not> namespace_device (rp_device (parse_root ''../x''))"
    by code_simp
qed

lemma shown_os_path:
  assumes "win_canonical r"
  shows "win32_shown_path (if r ! 0 = BS then
      (if r ! 1 = BS \<and> r ! 2 \<noteq> CHR ''?'' \<and> r ! 2 \<noteq> CHR ''.'' then verbatim_unc @ drop 2 r else r)
    else if is_ascii_alphabetic (r ! 0) \<and> r ! 1 = CHR '':'' \<and> r ! 2 = BS then verbatim @ r else r) = r"
proof -
  obtain dev comps where r: "drive_device dev \<or> unc_device dev" "r = dev @ [BS] @ join [BS] comps"
    using assms by (auto simp: win_canonical_def)
  from r(1) show ?thesis
  proof
    assume "drive_device dev"
    then obtain c where c: "is_ascii_alphabetic c" "r = [c, CHR '':''] @ [BS] @ join [BS] comps"
      using r(2) by (auto simp: drive_device_def)
    have "c \<noteq> BS" "strip_prefix verbatim_unc (verbatim @ r) = None"
      using c by (auto simp: ascii_defs strip_prefix_def starts_with_def verbatim_unc_def verbatim_def)
    then show ?thesis
      using c by (simp add: win32_shown_path_def strip_prefix_append)
  next
    assume "unc_device dev"
    then obtain srv sh where u: "plain_segs [srv, sh]" "srv \<noteq> ''.''" "srv \<noteq> ''?''"
      "r = [BS, BS] @ srv @ [BS] @ sh @ [BS] @ join [BS] comps"
      using r(2) by (auto simp: unc_device_def)
    obtain a srv' where srv: "srv = a # srv'" using u(1) by (cases srv) auto
    have "a = CHR ''?'' \<Longrightarrow> srv' \<noteq> [] \<and> hd srv' \<noteq> BS"
      using u(1,3) srv by (cases srv') (auto simp: win_sep_def)
    then have "a = CHR ''?'' \<Longrightarrow> strip_prefix verbatim r = None \<and> strip_prefix verbatim_unc r = None"
      using u(4) srv by (cases srv') (auto simp: strip_prefix_def starts_with_def verbatim_def verbatim_unc_def)
    moreover have "a \<noteq> CHR ''?'' \<Longrightarrow> strip_prefix verbatim r = None \<and> strip_prefix verbatim_unc r = None"
      using u(4) srv by (auto simp: strip_prefix_def starts_with_def verbatim_def verbatim_unc_def)
    ultimately show ?thesis
      using u(4) srv by (auto simp: win32_shown_path_def strip_prefix_append)
  qed
qed



end
