(* ===== verification/Ip_Addr.thy ===== *)
theory Ip_Addr
  imports Oam_Bytes
begin

text \<open>
  IP addresses as text. The first part is the address grammar of Rust's \<open>core::net\<close>
  (\<open>Ipv4Addr\<close>, \<open>Ipv6Addr\<close>, \<open>IpAddr\<close>: \<open>FromStr\<close> and \<open>Display\<close>), which several components call;
  the second is oam's \<open>PinAddr\<close> (\<open>crates/oam_core/src/net_connect.rs\<close>), an address with an IPv6
  zone id. An IPv4 address is the list of its four octets, an IPv6 address the list of its eight
  groups.

  The theorem: the text of an address with its zone reads back as that address.
\<close>

section \<open>Reading numbers and separators\<close>

datatype ip_addr = V4 "nat list" | V6 "nat list"

definition to_digit :: "nat \<Rightarrow> char \<Rightarrow> nat option" where
  "to_digit radix c =
     (let b = byte_of c;
          d = (if 48 \<le> b \<and> b \<le> 57 then b - 48
               else if 97 \<le> b \<and> b \<le> 122 then b - 87
               else if 65 \<le> b \<and> b \<le> 90 then b - 55 else 36)
      in if d < radix then Some d else None)"

definition digits_in :: "nat \<Rightarrow> string \<Rightarrow> nat" where
  "digits_in radix ds = foldl (\<lambda>v c. v * radix + unwrap_or 0 (to_digit radix c)) 0 ds"

definition read_number :: "nat \<Rightarrow> nat \<Rightarrow> bool \<Rightarrow> nat \<Rightarrow> string \<Rightarrow> (nat \<times> string) option" where
  "read_number radix max_digits allow_zero_prefix bound s =
     (let ds = takeWhile (\<lambda>c. to_digit radix c \<noteq> None) s;
          v = digits_in radix ds
      in if ds = [] \<or> max_digits < length ds then None
         else if \<not> allow_zero_prefix \<and> hd ds = CHR ''0'' \<and> 1 < length ds then None
         else if bound \<le> v then None
         else Some (v, drop (length ds) s))"

definition read_separator :: "char \<Rightarrow> nat \<Rightarrow> (string \<Rightarrow> ('a \<times> string) option) \<Rightarrow> string \<Rightarrow> ('a \<times> string) option" where
  "read_separator sep index inner s =
     (if 0 < index then (case s of [] \<Rightarrow> None | c # r \<Rightarrow> if c = sep then inner r else None)
      else inner s)"

fun read_octets :: "nat \<Rightarrow> nat \<Rightarrow> string \<Rightarrow> (nat list \<times> string) option" where
  "read_octets 0 i s = Some ([], s)"
| "read_octets (Suc n) i s =
     (case read_separator CHR ''.'' i (read_number 10 3 False 256) s of
        None \<Rightarrow> None
      | Some (v, r) \<Rightarrow> map_option (\<lambda>(vs, r'). (v # vs, r')) (read_octets n (Suc i) r))"

definition read_ipv4_addr :: "string \<Rightarrow> (nat list \<times> string) option" where
  "read_ipv4_addr s = read_octets 4 0 s"

function read_groups :: "nat \<Rightarrow> nat \<Rightarrow> string \<Rightarrow> nat list \<times> bool \<times> string" where
  "read_groups limit i s =
     (if limit \<le> i then ([], False, s)
      else case (if i < limit - 1 then read_separator CHR '':'' i read_ipv4_addr s else None) of
        Some (v, r) \<Rightarrow> ([v ! 0 * 256 + v ! 1, v ! 2 * 256 + v ! 3], True, r)
      | None \<Rightarrow>
          (case read_separator CHR '':'' i (read_number 16 4 True 65536) s of
             None \<Rightarrow> ([], False, s)
           | Some (g, r) \<Rightarrow> (let (gs, v4, r') = read_groups limit (Suc i) r in (g # gs, v4, r'))))"
  by auto
termination by (relation "measure (\<lambda>(limit, i, _). limit - i)") auto

definition read_ipv6_addr :: "string \<Rightarrow> (nat list \<times> string) option" where
  "read_ipv6_addr s =
     (let (head, head_ipv4, r) = read_groups 8 0 s in
      if length head = 8 then Some (head, r)
      else if head_ipv4 then None
      else case strip_prefix ''::'' r of
          None \<Rightarrow> None
        | Some r' \<Rightarrow>
            (let (tail, _, r'') = read_groups (8 - (length head + 1)) 0 r'
             in Some (head @ replicate (8 - length head - length tail) 0 @ tail, r'')))"

definition parse_with :: "(string \<Rightarrow> ('a \<times> string) option) \<Rightarrow> string \<Rightarrow> 'a option" where
  "parse_with inner s = (case inner s of Some (a, []) \<Rightarrow> Some a | _ \<Rightarrow> None)"

definition parse_ipv4 :: "string \<Rightarrow> nat list option" where
  "parse_ipv4 s = (if 15 < length s then None else parse_with read_ipv4_addr s)"

definition parse_ipv6 :: "string \<Rightarrow> nat list option" where
  "parse_ipv6 s = parse_with read_ipv6_addr s"

definition read_ip_addr :: "string \<Rightarrow> (ip_addr \<times> string) option" where
  "read_ip_addr s = (case read_ipv4_addr s of
     Some (v, r) \<Rightarrow> Some (V4 v, r)
   | None \<Rightarrow> map_option (\<lambda>(g, r). (V6 g, r)) (read_ipv6_addr s))"

definition parse_ip :: "string \<Rightarrow> ip_addr option" where
  "parse_ip s = parse_with read_ip_addr s"

section \<open>Printing\<close>

definition digit_char :: "nat \<Rightarrow> char" where
  "digit_char d = char_of (if d < 10 then 48 + d else 87 + d)"

text \<open>The digits of a number, most significant first; \<open>{}\<close> and \<open>{:x}\<close>.\<close>

function show_radix :: "nat \<Rightarrow> nat \<Rightarrow> string" where
  "show_radix radix n =
     (if radix < 2 \<or> n < radix then [digit_char n]
      else show_radix radix (n div radix) @ [digit_char (n mod radix)])"
  by auto
termination by (relation "measure snd") auto

abbreviation show_dec :: "nat \<Rightarrow> string" where "show_dec \<equiv> show_radix 10"
abbreviation show_hex :: "nat \<Rightarrow> string" where "show_hex \<equiv> show_radix 16"

definition show_ipv4 :: "nat list \<Rightarrow> string" where
  "show_ipv4 v = join ''.'' (map show_dec v)"

text \<open>The first longest run of zero groups: its start and length.\<close>

fun zero_span :: "nat \<Rightarrow> nat \<times> nat \<Rightarrow> nat \<times> nat \<Rightarrow> nat list \<Rightarrow> nat \<times> nat" where
  "zero_span i current longest [] = longest"
| "zero_span i current longest (g # gs) =
     (if g = 0 then
        (let start = (if snd current = 0 then i else fst current);
             cur = (start, snd current + 1)
         in zero_span (Suc i) cur (if snd longest < snd cur then cur else longest) gs)
      else zero_span (Suc i) (0, 0) longest gs)"

definition fmt_subslice :: "nat list \<Rightarrow> string" where
  "fmt_subslice gs = join '':'' (map show_hex gs)"

definition show_ipv6 :: "nat list \<Rightarrow> string" where
  "show_ipv6 gs =
     (if take 6 gs = [0, 0, 0, 0, 0, 0xFFFF] then
        ''::ffff:'' @ show_ipv4 [gs ! 6 div 256, gs ! 6 mod 256, gs ! 7 div 256, gs ! 7 mod 256]
      else
        (let (start, len) = zero_span 0 (0, 0) (0, 0) gs in
         if 1 < len then fmt_subslice (take start gs) @ ''::'' @ fmt_subslice (drop (start + len) gs)
         else fmt_subslice gs))"

fun show_ip :: "ip_addr \<Rightarrow> string" where
  "show_ip (V4 v) = show_ipv4 v"
| "show_ip (V6 g) = show_ipv6 g"

section \<open>Addresses with a zone\<close>

record pin_addr =
  pin_ip :: ip_addr
  pin_zone :: "string option"

definition pin_of_ip :: "ip_addr \<Rightarrow> pin_addr" where
  "pin_of_ip ip = \<lparr>pin_ip = ip, pin_zone = None\<rparr>"

text \<open>\<open>str::split_once\<close> and \<open>rsplit_once\<close> on one character.\<close>

definition split_once :: "char \<Rightarrow> string \<Rightarrow> (string \<times> string) option" where
  "split_once c s = map_option (\<lambda>i. (take i s, drop (i + 1) s)) (position (\<lambda>b. b = c) s)"

definition rsplit_once :: "char \<Rightarrow> string \<Rightarrow> (string \<times> string) option" where
  "rsplit_once c s = map_option (\<lambda>i. (take i s, drop (i + 1) s)) (rposition (\<lambda>b. b = c) s)"

definition zone_ok :: "string \<Rightarrow> bool" where
  "zone_ok zone \<longleftrightarrow> zone \<noteq> [] \<and>
     (\<forall>b \<in> set zone. is_ascii_alphabetic b \<or> is_ascii_digit b \<or> b = CHR ''-'' \<or> b = CHR ''.'' \<or> b = CHR '':'')"

definition parse_pin_addr :: "string \<Rightarrow> pin_addr option" where
  "parse_pin_addr s =
     (case split_once CHR ''%'' s of
        None \<Rightarrow> map_option (\<lambda>ip. \<lparr>pin_ip = ip, pin_zone = None\<rparr>) (parse_ip s)
      | Some (address, zone) \<Rightarrow>
          (case parse_ipv6 address of
             None \<Rightarrow> None
           | Some ip \<Rightarrow> if \<not> zone_ok zone then None else Some \<lparr>pin_ip = V6 ip, pin_zone = Some zone\<rparr>))"

definition show_pin_addr :: "pin_addr \<Rightarrow> string" where
  "show_pin_addr p = (case pin_zone p of
     Some zone \<Rightarrow> show_ip (pin_ip p) @ ''%'' @ zone
   | None \<Rightarrow> show_ip (pin_ip p))"

section \<open>Numbers read back\<close>

declare show_radix.simps [simp del]

lemma byte_of_char_of: "b < 256 \<Longrightarrow> byte_of (char_of b) = b"
  by (simp add: byte_of_def of_char_of)

lemma to_digit_digit_char: "d < radix \<Longrightarrow> radix \<le> 16 \<Longrightarrow> to_digit radix (digit_char d) = Some d"
  by (simp add: to_digit_def digit_char_def byte_of_char_of Let_def)

lemma digit_char_0: "digit_char 0 = CHR ''0''"
  by code_simp

lemma digits_in_simps [simp]:
  "digits_in radix [] = 0"
  "digits_in radix (ds @ [c]) = digits_in radix ds * radix + unwrap_or 0 (to_digit radix c)"
  by (simp_all add: digits_in_def)

lemma show_radix_nonempty [simp]: "show_radix radix n \<noteq> []"
  by (subst show_radix.simps) simp

lemma show_radix_digits:
  "2 \<le> radix \<Longrightarrow> radix \<le> 16 \<Longrightarrow> c \<in> set (show_radix radix n) \<Longrightarrow> \<exists>d < radix. c = digit_char d"
proof (induction radix n rule: show_radix.induct)
  case (1 radix n)
  show ?case
  proof (cases "n < radix")
    case True
    then show ?thesis using 1 by (subst (asm) show_radix.simps) auto
  next
    case False
    then have "show_radix radix n = show_radix radix (n div radix) @ [digit_char (n mod radix)]"
      using 1 by (subst show_radix.simps) auto
    moreover have "n mod radix < radix" using 1 by simp
    ultimately consider "c \<in> set (show_radix radix (n div radix))" | "c = digit_char (n mod radix)"
      "n mod radix < radix"
      using 1 by auto
    then show ?thesis
    proof cases
      case 1
      then show ?thesis using "1.IH" "1.prems" False by auto
    next
      case 2
      then show ?thesis by blast
    qed
  qed
qed

lemma digits_in_show: "2 \<le> radix \<Longrightarrow> radix \<le> 16 \<Longrightarrow> digits_in radix (show_radix radix n) = n"
proof (induction radix n rule: show_radix.induct)
  case (1 radix n)
  show ?case
  proof (cases "n < radix")
    case True
    then have "show_radix radix n = [] @ [digit_char n]" by (subst show_radix.simps) auto
    then show ?thesis using 1 True by (simp only: digits_in_simps to_digit_digit_char) simp
  next
    case False
    then have "show_radix radix n = show_radix radix (n div radix) @ [digit_char (n mod radix)]"
      using 1 by (subst show_radix.simps) auto
    then show ?thesis using 1 False by (simp add: to_digit_digit_char)
  qed
qed

lemma length_show_radix:
  "2 \<le> radix \<Longrightarrow> 0 < k \<Longrightarrow> n < radix ^ k \<Longrightarrow> length (show_radix radix n) \<le> k"
proof (induction radix n arbitrary: k rule: show_radix.induct)
  case (1 radix n)
  show ?case
  proof (cases "n < radix")
    case True
    then show ?thesis using 1 by (subst show_radix.simps) auto
  next
    case False
    then obtain k' where k: "k = Suc k'" "0 < k'" using 1 by (cases k; cases "k - 1") auto
    then have "n div radix < radix ^ k'"
      using 1 by (simp add: less_mult_imp_div_less mult.commute)
    then have "length (show_radix radix (n div radix)) \<le> k'" using 1 False k by simp
    then show ?thesis using 1 False k by (subst show_radix.simps) simp
  qed
qed

text \<open>No leading zero: the text of a number is the only canonical one.\<close>

lemma hd_show_radix: "2 \<le> radix \<Longrightarrow> radix \<le> 16 \<Longrightarrow> 0 < n \<Longrightarrow> hd (show_radix radix n) \<noteq> CHR ''0''"
proof (induction radix n rule: show_radix.induct)
  case (1 radix n)
  show ?case
  proof (cases "n < radix")
    case True
    then have "show_radix radix n = [digit_char n]" by (subst show_radix.simps) auto
    moreover have "digit_char n \<noteq> digit_char 0"
      using 1 True to_digit_digit_char [of n radix] to_digit_digit_char [of 0 radix] by auto
    ultimately show ?thesis by (simp add: digit_char_0)
  next
    case False
    then have "show_radix radix n = show_radix radix (n div radix) @ [digit_char (n mod radix)]"
      using 1 by (subst show_radix.simps) auto
    moreover have "0 < n div radix" using False 1 by (simp add: div_greater_zero_iff)
    ultimately show ?thesis using 1 False by simp
  qed
qed

lemma show_dec_0: "show_dec 0 = ''0''"
  by (subst show_radix.simps) (simp add: digit_char_0)

lemma digit_char_value: "is_ascii_digit c \<Longrightarrow> to_digit 10 c = Some (digit_value c) \<and> digit_char (digit_value c) = c \<and> digit_value c < 10"
proof -
  assume "is_ascii_digit c"
  then have "48 \<le> byte_of c" "byte_of c \<le> 57" by (auto simp: is_ascii_digit_def)
  moreover have "char_of (byte_of c) = c" by (simp add: byte_of_def)
  ultimately show ?thesis by (simp add: to_digit_def digit_char_def digit_value_def Let_def)
qed

lemma decimal_snoc [simp]: "decimal (s @ [c]) = decimal s * 10 + digit_value c"
  by (simp add: decimal_def)

lemma decimal_pos:
  "s \<noteq> [] \<Longrightarrow> \<forall>c \<in> set s. is_ascii_digit c \<Longrightarrow> hd s \<noteq> CHR ''0'' \<Longrightarrow> 0 < decimal s"
proof (induction s rule: rev_induct)
  case (snoc c s)
  show ?case
  proof (cases "s = []")
    case True
    have "digit_char (digit_value c) = c" "c \<noteq> CHR ''0''"
      using snoc.prems True digit_char_value [of c] by auto
    then have "digit_value c \<noteq> 0" using digit_char_0 by metis
    then show ?thesis using True by (simp add: decimal_def)
  next
    case False
    then show ?thesis using snoc by simp
  qed
qed simp

lemma show_dec_decimal:
  "s \<noteq> [] \<Longrightarrow> \<forall>c \<in> set s. is_ascii_digit c \<Longrightarrow> s = ''0'' \<or> hd s \<noteq> CHR ''0'' \<Longrightarrow>
     show_dec (decimal s) = s"
proof (induction s rule: rev_induct)
  case (snoc c s)
  have c: "digit_value c < 10" "digit_char (digit_value c) = c"
    using snoc.prems(2) digit_char_value by auto
  show ?case
  proof (cases "s = []")
    case True
    then show ?thesis using c by (subst show_radix.simps) (simp add: decimal_def)
  next
    case False
    then have hd: "hd s \<noteq> CHR ''0''" using snoc.prems(3) by (cases s) auto
    have "0 < decimal s" using False snoc.prems(2) hd by (intro decimal_pos) auto
    then have "show_dec (decimal (s @ [c])) = show_dec (decimal s) @ [digit_char (digit_value c)]"
      using c by (subst show_radix.simps) simp
    then show ?thesis using snoc.IH [OF False] snoc.prems(2) hd c by simp
  qed
qed simp

lemma show_dec_is_digit: "\<forall>c \<in> set (show_dec n). is_ascii_digit c"
proof
  fix c assume "c \<in> set (show_dec n)"
  then obtain d where "d < 10" "c = digit_char d" using show_radix_digits [of 10 c n] by auto
  then show "is_ascii_digit c" by (simp add: is_ascii_digit_def digit_char_def byte_of_char_of)
qed

lemma decimal_show_dec: "decimal (show_dec n) = n"
proof -
  have "decimal s = digits_in 10 s" if "\<forall>c \<in> set s. is_ascii_digit c" for s
    using that by (induction s rule: rev_induct) (simp_all add: digit_char_value, simp add: decimal_def)
  then show ?thesis using digits_in_show [of 10 n] show_dec_is_digit by simp
qed


section \<open>Addresses read back\<close>

declare read_groups.simps [simp del]

lemma read_ipv4_unfold: "read_ipv4_addr s = read_octets (Suc (Suc (Suc (Suc 0)))) 0 s"
  by (simp add: read_ipv4_addr_def numeral_eq_Suc)

lemma takeWhile_show:
  assumes "2 \<le> radix" "radix \<le> 16" "r = [] \<or> to_digit radix (hd r) = None"
  shows "takeWhile (\<lambda>c. to_digit radix c \<noteq> None) (show_radix radix n @ r) = show_radix radix n"
proof -
  have "\<forall>c \<in> set (show_radix radix n). to_digit radix c \<noteq> None"
    using show_radix_digits [OF assms(1,2)] to_digit_digit_char [OF _ assms(2)] by fastforce
  moreover have "takeWhile (\<lambda>c. to_digit radix c \<noteq> None) r = []" using assms(3) by (cases r) auto
  ultimately show ?thesis by (simp add: takeWhile_append2)
qed

lemma read_number_hex:
  assumes "g < 65536" "r = [] \<or> to_digit 16 (hd r) = None"
  shows "read_number 16 4 True 65536 (show_hex g @ r) = Some (g, r)"
  using assms takeWhile_show [of 16 r g] length_show_radix [of 16 4 g] digits_in_show [of 16 g]
  by (simp add: read_number_def Let_def)

lemma read_number_dec:
  assumes "v < 256" "r = [] \<or> to_digit 10 (hd r) = None"
  shows "read_number 10 3 False 256 (show_dec v @ r) = Some (v, r)"
proof -
  have "v = 0 \<or> hd (show_dec v) \<noteq> CHR ''0''" using hd_show_radix [of 10 v] by auto
  then have "\<not> (hd (show_dec v) = CHR ''0'' \<and> 1 < length (show_dec v))" by (auto simp: show_dec_0)
  then show ?thesis
    using assms takeWhile_show [of 10 r v] length_show_radix [of 10 3 v] digits_in_show [of 10 v]
    by (auto simp: read_number_def Let_def)
qed

lemma separators_not_digits:
  "to_digit 10 CHR ''.'' = None" "to_digit 16 CHR '':'' = None" "to_digit 10 CHR '':'' = None"
  "to_digit 16 CHR ''.'' = None"
  by code_simp+

definition ipv4_ok :: "nat list \<Rightarrow> bool" where
  "ipv4_ok v \<longleftrightarrow> length v = 4 \<and> (\<forall>b \<in> set v. b < 256)"

definition ipv6_ok :: "nat list \<Rightarrow> bool" where
  "ipv6_ok g \<longleftrightarrow> length g = 8 \<and> (\<forall>x \<in> set g. x < 65536)"

lemma read_ipv4_show:
  assumes "ipv4_ok v" "r = [] \<or> to_digit 10 (hd r) = None"
  shows "read_ipv4_addr (show_ipv4 v @ r) = Some (v, r)"
proof -
  obtain a b c d where v: "v = [a, b, c, d]" "a < 256" "b < 256" "c < 256" "d < 256"
    using assms(1) by (auto simp: ipv4_ok_def length_Suc_conv eval_nat_numeral)
  show ?thesis
    using v read_number_dec separators_not_digits assms(2)
    by (simp add: read_ipv4_unfold show_ipv4_def read_separator_def)
qed

lemma read_number_rest: "read_number radix k z b s = Some (v, r) \<Longrightarrow> set r \<subseteq> set s"
  by (auto simp: read_number_def Let_def dest: in_set_dropD split: if_splits)

lemma read_ipv4_needs_dot:
  assumes "CHR ''.'' \<notin> set s"
  shows "read_ipv4_addr s = None"
proof (cases "read_number 10 3 False 256 s")
  case None
  then show ?thesis by (simp add: read_ipv4_unfold read_separator_def)
next
  case (Some p)
  obtain v r where p: "p = (v, r)" by fastforce
  then have "CHR ''.'' \<notin> set r" using read_number_rest [of 10 3 False 256 s v r] Some assms by auto
  then have "read_separator CHR ''.'' (Suc 0) (read_number 10 3 False 256) r = None"
    by (cases r) (auto simp: read_separator_def)
  then show ?thesis using Some p by (simp add: read_ipv4_unfold read_separator_def [of _ 0])
qed

lemma read_ipv4_colon: "read_ipv4_addr (CHR '':'' # s) = None"
  by (simp add: read_ipv4_unfold read_separator_def read_number_def separators_not_digits)

text \<open>Where a run of groups ends: at the end of the text, or at a second colon.\<close>

definition run_end :: "string \<Rightarrow> bool" where
  "run_end r \<longleftrightarrow> r = [] \<or> (\<exists>t. r = ''::'' @ t)"

lemma read_groups_end: "run_end r \<Longrightarrow> read_groups limit i r = ([], False, r)"
  by (auto simp: read_groups.simps [of limit i r] run_end_def read_separator_def read_ipv4_colon read_number_def
      separators_not_digits read_ipv4_needs_dot split: option.splits)

lemma show_hex_chars: "c \<in> set (show_hex g) \<Longrightarrow> c \<noteq> CHR ''.'' \<and> c \<noteq> CHR '':'' \<and> c \<noteq> CHR ''%''"
proof -
  assume "c \<in> set (show_hex g)"
  then obtain d where "d < 16" "c = digit_char d" using show_radix_digits [of 16 c g] by auto
  then have "to_digit 16 c = Some d" by (simp add: to_digit_digit_char)
  moreover have "to_digit 16 CHR ''%'' = None" by code_simp
  ultimately show ?thesis using separators_not_digits by auto
qed

lemma fmt_subslice_chars: "c \<in> set (fmt_subslice gs) \<Longrightarrow> c \<noteq> CHR ''.'' \<and> c \<noteq> CHR ''%''"
  unfolding fmt_subslice_def
  by (induction gs rule: induct_list012) (auto dest: show_hex_chars)


definition colon_groups :: "nat list \<Rightarrow> string" where
  "colon_groups gs = concat (map (\<lambda>g. CHR '':'' # show_hex g) gs)"

lemma fmt_subslice_Cons: "fmt_subslice (g # gs) = show_hex g @ colon_groups gs"
  by (induction gs arbitrary: g) (auto simp: fmt_subslice_def colon_groups_def join_Cons)

lemma colon_groups_hd: "run_end r \<Longrightarrow> colon_groups gs @ r = [] \<or> to_digit 16 (hd (colon_groups gs @ r)) = None"
  by (cases gs) (auto simp: colon_groups_def run_end_def separators_not_digits)

lemma colon_groups_chars: "c \<in> set (colon_groups gs) \<Longrightarrow> c \<noteq> CHR ''.''"
  using show_hex_chars by (auto simp: colon_groups_def split: if_splits)

lemma read_colon_groups:
  assumes "0 < i" "i + length gs \<le> limit" "run_end r" "CHR ''.'' \<notin> set r" "\<forall>g \<in> set gs. g < 65536"
  shows "read_groups limit i (colon_groups gs @ r) = (gs, False, r)"
  using assms(1,2,5)
proof (induction gs arbitrary: i)
  case Nil
  then show ?case using read_groups_end [OF assms(3)] by (simp add: colon_groups_def)
next
  case (Cons g gs)
  let ?s = "show_hex g @ colon_groups gs @ r"
  have shape: "colon_groups (g # gs) @ r = CHR '':'' # ?s" by (simp add: colon_groups_def)
  have "CHR ''.'' \<notin> set ?s" using assms(4) colon_groups_chars show_hex_chars by fastforce
  then have "read_ipv4_addr ?s = None" by (rule read_ipv4_needs_dot)
  moreover have "read_number 16 4 True 65536 ?s = Some (g, colon_groups gs @ r)"
    using Cons.prems colon_groups_hd [OF assms(3)] by (intro read_number_hex) auto
  moreover have "read_groups limit (Suc i) (colon_groups gs @ r) = (gs, False, r)"
    using Cons by simp
  ultimately show ?case
    using Cons.prems unfolding shape by (simp add: read_groups.simps [of limit i] read_separator_def)
qed

lemma read_fmt_subslice:
  assumes "length gs \<le> limit" "run_end r" "CHR ''.'' \<notin> set r" "\<forall>g \<in> set gs. g < 65536"
  shows "read_groups limit 0 (fmt_subslice gs @ r) = (gs, False, r)"
proof (cases gs)
  case Nil
  then show ?thesis using read_groups_end [OF assms(2)] by (simp add: fmt_subslice_def)
next
  case (Cons g gs')
  let ?s = "show_hex g @ colon_groups gs' @ r"
  have "CHR ''.'' \<notin> set ?s" using assms(3) colon_groups_chars show_hex_chars by fastforce
  then have "read_ipv4_addr ?s = None" by (rule read_ipv4_needs_dot)
  moreover have "read_number 16 4 True 65536 ?s = Some (g, colon_groups gs' @ r)"
    using assms(4) Cons colon_groups_hd [OF assms(2)] by (intro read_number_hex) auto
  moreover have "read_groups limit (Suc 0) (colon_groups gs' @ r) = (gs', False, r)"
    using assms Cons by (intro read_colon_groups) auto
  ultimately show ?thesis
    using assms(1) Cons by (simp add: fmt_subslice_Cons read_groups.simps [of limit 0] read_separator_def)
qed

text \<open>The span that is left out holds zeros only.\<close>

definition span_ok :: "nat list \<Rightarrow> nat \<times> nat \<Rightarrow> bool" where
  "span_ok gs = (\<lambda>(start, len). start + len \<le> length gs \<and> take len (drop start gs) = replicate len 0)"

lemma zero_span_ok:
  assumes "gs = pre @ post" "span_ok gs longest" "span_ok gs current" "snd current \<noteq> 0 \<longrightarrow> fst current + snd current = length pre"
  shows "span_ok gs (zero_span (length pre) current longest post)"
  using assms
proof (induction post arbitrary: pre current longest)
  case (Cons g post)
  note IH = Cons.IH [of "pre @ [g]"]
  show ?case
  proof (cases "g = 0")
    case True
    let ?start = "if snd current = 0 then length pre else fst current"
    have "?start + snd current = length pre" using Cons.prems(4) by simp
    moreover have "take (snd current) (drop ?start gs) = replicate (snd current) 0"
      using Cons.prems(3) by (auto simp: span_ok_def)
    ultimately have "take (Suc (snd current)) (drop ?start gs) = replicate (Suc (snd current)) 0"
      using True Cons.prems(1)
      by (subst take_Suc_conv_app_nth) (auto simp: replicate_append_same nth_append)
    then have cur: "span_ok gs (?start, snd current + 1)"
      using \<open>?start + snd current = length pre\<close> Cons.prems(1) by (auto simp: span_ok_def)
    have "span_ok gs (zero_span (length (pre @ [g])) (?start, snd current + 1)
        (if snd longest < snd current + 1 then (?start, snd current + 1) else longest) post)"
      using cur Cons.prems(1,2) \<open>?start + snd current = length pre\<close> by (intro IH) auto
    then show ?thesis using True by (simp add: Let_def split: if_splits)
  next
    case False
    have "span_ok gs (zero_span (length (pre @ [g])) (0, 0) longest post)"
      using Cons.prems(1,2) by (intro IH) (auto simp: span_ok_def)
    then show ?thesis using False by simp
  qed
qed simp

lemma read_ipv6_compressed:
  assumes "ipv6_ok gs" "span_ok gs (start, len)" "1 < len"
  shows "read_ipv6_addr (fmt_subslice (take start gs) @ ''::'' @ fmt_subslice (drop (start + len) gs)) = Some (gs, [])"
proof -
  let ?tail = "drop (start + len) gs"
  have len: "length gs = 8" "start + len \<le> 8" using assms by (auto simp: ipv6_ok_def span_ok_def)
  have small: "\<forall>g \<in> set (take start gs). g < 65536" "\<forall>g \<in> set ?tail. g < 65536"
    using assms(1) by (auto simp: ipv6_ok_def dest: in_set_takeD in_set_dropD)
  have "CHR ''.'' \<notin> set (fmt_subslice ?tail)" using fmt_subslice_chars by blast
  then have head: "read_groups 8 0 (fmt_subslice (take start gs) @ ''::'' @ fmt_subslice ?tail) =
      (take start gs, False, ''::'' @ fmt_subslice ?tail)"
    using len small(1) by (intro read_fmt_subslice) (auto simp: run_end_def)
  have tail: "read_groups (8 - (start + 1)) 0 (fmt_subslice ?tail) = (?tail, False, [])"
    using read_fmt_subslice [of ?tail "8 - (start + 1)" "[]"] len small(2) assms(3) by (simp add: run_end_def)
  have "gs = take start gs @ take len (drop start gs) @ ?tail"
    by (metis append_take_drop_id drop_drop add.commute)
  then have "take start gs @ replicate len 0 @ ?tail = gs"
    using assms(2) by (simp add: span_ok_def)
  moreover have "8 - start - (8 - (start + len)) = len" "start < 8" using len assms(3) by linarith+
  ultimately show ?thesis
    using head tail len strip_prefix_append [of "''::''" "fmt_subslice ?tail"]
    by (simp add: read_ipv6_addr_def min_def)
qed


lemma read_ipv6_mapped:
  assumes "a < 65536" "b < 65536"
  shows "read_ipv6_addr (''::ffff:'' @ show_ipv4 [a div 256, a mod 256, b div 256, b mod 256]) =
    Some ([0, 0, 0, 0, 0, 0xFFFF, a, b], [])"
proof -
  let ?v = "[a div 256, a mod 256, b div 256, b mod 256]"
  have v4: "read_ipv4_addr (show_ipv4 ?v) = Some (?v, [])"
    using read_ipv4_show [of ?v "[]"] assms by (simp add: ipv4_ok_def less_mult_imp_div_less)
  have ffff: "show_hex 0xFFFF = ''ffff''" by code_simp
  have hex: "read_number 16 4 True 65536 (''ffff:'' @ show_ipv4 ?v) = Some (0xFFFF, '':'' @ show_ipv4 ?v)"
    using read_number_hex [of "0xFFFF" "'':'' @ show_ipv4 ?v"] by (simp add: ffff separators_not_digits)
  have nv4: "read_ipv4_addr (''ffff:'' @ show_ipv4 ?v) = None"
    using separators_not_digits
    by (simp add: read_ipv4_unfold read_separator_def read_number_def to_digit_def byte_of_def)
  have one: "read_groups 7 (Suc 0) ('':'' @ show_ipv4 ?v) = ([a, b], True, [])"
    using v4 by (simp add: read_groups.simps [of 7 "Suc 0"] read_separator_def)
  have "read_groups 7 0 (''ffff:'' @ show_ipv4 ?v) = ([0xFFFF, a, b], True, [])"
    using nv4 hex one by (simp add: read_groups.simps [of 7 0] read_separator_def)
  moreover have "read_groups 8 0 (''::ffff:'' @ show_ipv4 ?v) = ([], False, ''::ffff:'' @ show_ipv4 ?v)"
    by (rule read_groups_end) (simp add: run_end_def)
  moreover have "replicate 5 (0 :: nat) = [0, 0, 0, 0, 0]" by (simp add: numeral_eq_Suc)
  ultimately show ?thesis
    using strip_prefix_append [of "''::''" "''ffff:'' @ show_ipv4 ?v"] by (simp add: read_ipv6_addr_def)
qed

lemma read_ipv6_show:
  assumes "ipv6_ok gs"
  shows "read_ipv6_addr (show_ipv6 gs) = Some (gs, [])"
proof (cases "take 6 gs = [0, 0, 0, 0, 0, 0xFFFF]")
  case True
  have len: "length gs = 8" using assms by (simp add: ipv6_ok_def)
  then have "drop 6 gs = [gs ! 6, gs ! 7]"
    by (simp add: Cons_nth_drop_Suc [symmetric])
  then have "gs = [0, 0, 0, 0, 0, 0xFFFF, gs ! 6, gs ! 7]"
    using True append_take_drop_id [of 6 gs] by simp
  moreover have "gs ! 6 < 65536" "gs ! 7 < 65536" using assms len by (auto simp: ipv6_ok_def)
  ultimately show ?thesis using read_ipv6_mapped True by (simp add: show_ipv6_def)
next
  case False
  obtain start len where span: "zero_span 0 (0, 0) (0, 0) gs = (start, len)" by fastforce
  have "span_ok gs (start, len)"
    using zero_span_ok [of gs "[]" gs "(0, 0)" "(0, 0)"] span by (simp add: span_ok_def)
  show ?thesis
  proof (cases "1 < len")
    case True
    then show ?thesis
      using False span read_ipv6_compressed [OF assms \<open>span_ok gs (start, len)\<close>] by (simp add: show_ipv6_def)
  next
    case small: False
    have "read_groups 8 0 (fmt_subslice gs) = (gs, False, [])"
      using read_fmt_subslice [of gs 8 "[]"] assms by (simp add: ipv6_ok_def run_end_def)
    then show ?thesis
      using False span small assms by (simp add: show_ipv6_def read_ipv6_addr_def ipv6_ok_def)
  qed
qed

fun ip_ok :: "ip_addr \<Rightarrow> bool" where
  "ip_ok (V4 v) = ipv4_ok v"
| "ip_ok (V6 g) = ipv6_ok g"

lemma read_ipv4_of_ipv6:
  assumes "ipv6_ok gs"
  shows "read_ipv4_addr (show_ipv6 gs) = None"
proof (cases "take 6 gs = [0, 0, 0, 0, 0, 0xFFFF]")
  case True
  then show ?thesis by (simp add: show_ipv6_def read_ipv4_colon)
next
  case False
  have "CHR ''.'' \<notin> set (fmt_subslice xs)" for xs using fmt_subslice_chars by blast
  then have "CHR ''.'' \<notin> set (show_ipv6 gs)"
    using False by (simp add: show_ipv6_def split: prod.splits)
  then show ?thesis by (rule read_ipv4_needs_dot)
qed

lemma parse_ip_show: "ip_ok ip \<Longrightarrow> parse_ip (show_ip ip) = Some ip"
  using read_ipv4_show [of _ "[]"] read_ipv6_show read_ipv4_of_ipv6
  by (cases ip) (simp_all add: parse_ip_def parse_with_def read_ip_addr_def)

lemma show_ip_no_percent: "CHR ''%'' \<notin> set (show_ip ip)"
proof -
  have dec: "CHR ''%'' \<notin> set (show_dec n)" for n
    using show_dec_is_digit [of n] by (auto simp: is_ascii_digit_def byte_of_def)
  have v4: "CHR ''%'' \<notin> set (show_ipv4 v)" for v
    unfolding show_ipv4_def by (induction v rule: induct_list012) (auto simp: dec)
  have "CHR ''%'' \<notin> set (fmt_subslice xs)" for xs using fmt_subslice_chars by blast
  with v4 show ?thesis by (cases ip) (simp_all add: show_ipv6_def split: prod.splits)
qed


definition pin_ok :: "pin_addr \<Rightarrow> bool" where
  "pin_ok p \<longleftrightarrow> ip_ok (pin_ip p) \<and>
     (case pin_zone p of None \<Rightarrow> True | Some zone \<Rightarrow> (\<exists>g. pin_ip p = V6 g) \<and> zone_ok zone)"

lemma split_once_percent:
  "CHR ''%'' \<notin> set s \<Longrightarrow> split_once CHR ''%'' s = None"
  "CHR ''%'' \<notin> set s \<Longrightarrow> split_once CHR ''%'' (s @ CHR ''%'' # t) = Some (s, t)"
proof -
  assume s: "CHR ''%'' \<notin> set s"
  have "position (\<lambda>b. b = CHR ''%'') s = None" using s by (auto simp: position_None)
  then show "split_once CHR ''%'' s = None" by (simp add: split_once_def)
  have "position (\<lambda>b. b = CHR ''%'') (s @ CHR ''%'' # t) = Some (length s)"
    using s by (induction s) auto
  then show "split_once CHR ''%'' (s @ CHR ''%'' # t) = Some (s, t)" by (simp add: split_once_def)
qed

text \<open>
  Property C36. Printing an address and reading it back gives the same address: every IPv4 and IPv6
  address, the IPv4-mapped ones and every placement of the zero run that is left out included, and
  every zone id the reader admits.
\<close>

theorem pin_addr_roundtrip:
  assumes "pin_ok p"
  shows "parse_pin_addr (show_pin_addr p) = Some p"
proof (cases "pin_zone p")
  case None
  then show ?thesis
    using assms parse_ip_show split_once_percent(1) [OF show_ip_no_percent]
    by (simp add: pin_ok_def show_pin_addr_def parse_pin_addr_def)
next
  case (Some zone)
  then obtain g where g: "pin_ip p = V6 g" "ipv6_ok g" "zone_ok zone" using assms by (auto simp: pin_ok_def)
  then have "parse_ipv6 (show_ip (V6 g)) = Some g"
    using read_ipv6_show by (simp add: parse_ipv6_def parse_with_def)
  then show ?thesis
    using g Some split_once_percent(2) [OF show_ip_no_percent, of "V6 g" zone]
    by (simp add: show_pin_addr_def parse_pin_addr_def)
qed

theorem pin_addr_roundtrip_witness:
  "parse_pin_addr (show_pin_addr \<lparr>pin_ip = V6 [0xFE80, 0, 0, 0, 0, 0, 0, 1], pin_zone = Some ''eth0''\<rparr>) =
     Some \<lparr>pin_ip = V6 [0xFE80, 0, 0, 0, 0, 0, 0, 1], pin_zone = Some ''eth0''\<rparr>"
  by (rule pin_addr_roundtrip) (simp add: pin_ok_def ipv6_ok_def zone_ok_def is_ascii_alphabetic_def is_ascii_digit_def
    byte_of_def)

end
