(* ===== verification/Permissions.thy ===== *)
theory Permissions
  imports Win32_Path Ip_Addr
begin

text \<open>
  The permission model (\<open>crates/oam_engine/src/permissions.rs\<close>): grants for the file system, the
  network, the environment, workers, child processes and addons, and the checks every operation
  makes before it acts.

  Paths and hosts are \<open>string\<close>s of UTF-8 bytes. What the checks read of the process is the record
  \<open>platform\<close>: the build (\<open>cfg(windows)\<close>), the current directory of the moment, and the
  \<open>std::path\<close> functions of that build. \<open>posix cwd\<close> is the POSIX build, with those functions
  written out; on Windows they call the OS and stay fields.

  The theorems: a POSIX grant list admits exactly the paths whose lexical resolve extends an entry
  at a separator; resolved paths have no \<open>.\<close> or \<open>..\<close> left and resolve to themselves; the two network
  gates agree; a port-scoped entry admits one port; a pipe is dialled exactly as it was checked;
  a query answers as its gate; a Windows target is judged as the resolve of its path.
\<close>

section \<open>The platform\<close>

record platform =
  windows :: bool
  current_dir :: "string option"
  drive_dir :: "string \<Rightarrow> string option"
  std_absolute :: "string \<Rightarrow> string option"
  std_has_root :: "string \<Rightarrow> bool"
  std_path_eq :: "string \<Rightarrow> string \<Rightarrow> bool"

definition slash_split :: "string \<Rightarrow> string list" where
  "slash_split s = split_on (\<lambda>b. b = SL) s"

text \<open>\<open>Path::components\<close> of a POSIX path, its root apart: no empty and no \<open>.\<close> component (a leading
  \<open>.\<close> of a relative path is a component, and both callers drop it).\<close>

definition posix_components :: "string \<Rightarrow> string list" where
  "posix_components s = filter (\<lambda>c. c \<noteq> [] \<and> c \<noteq> ''.'') (slash_split s)"

definition posix_has_root :: "string \<Rightarrow> bool" where
  "posix_has_root s = starts_with [SL] s"

definition path_push :: "string \<Rightarrow> string \<Rightarrow> string" where
  "path_push dir c = (if dir = [] \<or> ends_with [SL] dir then dir @ c else dir @ [SL] @ c)"

text \<open>\<open>std::path::absolute\<close> of a POSIX path without a root.\<close>

definition posix_absolute :: "string option \<Rightarrow> string \<Rightarrow> string option" where
  "posix_absolute cwd s =
     (if s = [] then None
      else case cwd of
        None \<Rightarrow> None
      | Some dir \<Rightarrow>
          (let joined = foldl path_push dir (posix_components s)
           in Some (if ends_with [SL] s then path_push joined [] else joined)))"

definition posix_path_eq :: "string \<Rightarrow> string \<Rightarrow> bool" where
  "posix_path_eq a b \<longleftrightarrow> posix_has_root a = posix_has_root b \<and> posix_components a = posix_components b"

definition posix :: "string option \<Rightarrow> platform" where
  "posix cwd = \<lparr>windows = False, current_dir = cwd, drive_dir = (\<lambda>_. None),
     std_absolute = posix_absolute cwd, std_has_root = posix_has_root, std_path_eq = posix_path_eq\<rparr>"

section \<open>Paths\<close>

datatype perm_value = PAll | PNone | PList "string list"

definition normalize_step :: "string list \<Rightarrow> string \<Rightarrow> string list" where
  "normalize_step out seg =
     (if seg = [] \<or> seg = ''.'' then out
      else if seg = ''..'' then butlast out
      else out @ [seg])"

definition normalize_path :: "string \<Rightarrow> string" where
  "normalize_path raw =
     (let absolute = starts_with [SL] raw;
          joined = join [SL] (foldl normalize_step [] (slash_split raw))
      in if absolute then SL # joined else joined)"

definition resolve_against_cwd :: "platform \<Rightarrow> string \<Rightarrow> string" where
  "resolve_against_cwd pl raw =
     (if std_has_root pl raw then raw
      else case (if raw = [] then current_dir pl else std_absolute pl raw) of
        Some path \<Rightarrow> path
      | None \<Rightarrow> raw)"

definition dots_and_spaces :: "string \<Rightarrow> bool" where
  "dots_and_spaces c \<longleftrightarrow> c \<noteq> [] \<and> (\<forall>b \<in> set c. b = CHR ''.'' \<or> b = CHR '' '')"

definition win_named_pipe :: "string \<Rightarrow> bool" where
  "win_named_pipe path =
     (if CHR 0x00 \<in> set path then False
      else
        (let parts = split_on win_sep path in
         if \<exists>(i, c) \<in> set (enumerate 0 parts). dots_and_spaces c \<and> \<not> (i = 2 \<and> c = ''.'') then False
         else case parts of
             p0 # p1 # server # pipe # name # _ \<Rightarrow>
               p0 = [] \<and> p1 = [] \<and> server \<noteq> [] \<and> eq_ignore_ascii_case pipe ''pipe'' \<and> name \<noteq> []
           | _ \<Rightarrow> False))"

definition is_named_pipe_namespace :: "platform \<Rightarrow> string \<Rightarrow> bool" where
  "is_named_pipe_namespace pl path = (if windows pl then win_named_pipe path else False)"

record fs_key =
  fk_root :: string
  fk_parts :: "string list"

definition key_admits :: "fs_key \<Rightarrow> fs_key \<Rightarrow> bool" where
  "key_admits k target =
     (if fk_root k = [] \<and> fk_parts k = [] then False
      else fk_root k = fk_root target \<and> starts_with (fk_parts k) (fk_parts target))"

record fs_grant_entry =
  fg_key :: fs_key
  fg_star :: "string option"

definition grant_admits :: "fs_grant_entry \<Rightarrow> fs_key \<Rightarrow> bool" where
  "grant_admits g target =
     (case fg_star g of
        None \<Rightarrow> key_admits (fg_key g) target
      | Some start \<Rightarrow>
          (let key = fg_key g in
           if fk_root key = [] \<and> fk_parts key = [] then False
           else fk_root key = fk_root target \<and> starts_with (fk_parts key) (fk_parts target) \<and>
             (start = [] \<or>
               (length (fk_parts key) < length (fk_parts target) \<and>
                starts_with start (fk_parts target ! length (fk_parts key))))))"

definition posix_key :: "string \<Rightarrow> fs_key" where
  "posix_key normalized =
     (let (root, rest) = (case strip_prefix [SL] normalized of
            Some rest \<Rightarrow> ([SL], rest)
          | None \<Rightarrow> ([], normalized))
      in \<lparr>fk_root = root, fk_parts = filter (\<lambda>part. part \<noteq> []) (slash_split rest)\<rparr>)"

definition is_device_spelling :: "string \<Rightarrow> bool" where
  "is_device_spelling path =
     (if starts_with ([BS] @ ''??'' @ [BS]) path then True
      else 3 \<le> length path \<and> win_sep (path ! 0) \<and> win_sep (path ! 1) \<and>
        (path ! 2 = CHR ''.'' \<or> path ! 2 = CHR ''?'') \<and> (length path = 3 \<or> win_sep (path ! 3)))"

text \<open>\<open>splitn(3, '\\')\<close>: the first two pieces, and the rest when there is one.\<close>

definition splitn3 :: "string \<Rightarrow> string \<times> string \<times> string" where
  "splitn3 s =
     (case split_once BS s of
        None \<Rightarrow> (s, [], [])
      | Some (a, r) \<Rightarrow>
          (case split_once BS r of
             None \<Rightarrow> (a, r, [])
           | Some (b, r') \<Rightarrow> (a, b, r')))"

definition win_plain_key :: "string \<Rightarrow> fs_key option" where
  "win_plain_key path =
     (let root_rest =
        (if 3 \<le> length path \<and> is_ascii_alphabetic (path ! 0) \<and> path ! 1 = CHR '':'' \<and> path ! 2 = BS
         then Some (take 2 path, drop 3 path)
         else case strip_prefix [BS, BS] path of
             None \<Rightarrow> None
           | Some unc \<Rightarrow>
               (let (server, share, rest) = splitn3 unc in
                if server = [] \<or> share = [] \<or> server = ''.'' \<or> server = ''?'' then None
                else Some ([BS, BS] @ server @ [BS] @ share, rest)))
      in case root_rest of
           None \<Rightarrow> None
         | Some (root, rest) \<Rightarrow>
             (let parts = filter (\<lambda>part. part \<noteq> []) (split_on (\<lambda>b. b = BS) rest) in
              if \<exists>part \<in> set parts. part = ''.'' \<or> part = ''..'' \<or> SL \<in> set part then None
              else Some \<lparr>fk_root = root, fk_parts = parts\<rparr>))"

definition win_target_key :: "platform \<Rightarrow> string \<Rightarrow> fs_key option" where
  "win_target_key pl os =
     (case strip_prefix verbatim os of
        Some rest \<Rightarrow>
          (case strip_prefix (''UNC'' @ [BS]) rest of
             Some unc \<Rightarrow> win_plain_key ([BS, BS] @ unc)
           | None \<Rightarrow> win_plain_key rest)
      | None \<Rightarrow>
          if os = [] \<or> is_device_spelling os then None
          else case std_absolute pl os of
              None \<Rightarrow> None
            | Some absolute \<Rightarrow> if is_device_spelling absolute then None else win_plain_key absolute)"

definition win_resolve :: "platform \<Rightarrow> string \<Rightarrow> string" where
  "win_resolve pl path =
     win32_resolve_mode path (unwrap_or [] (current_dir pl)) (drive_dir pl) CppMode"

definition win_entry_resolved :: "platform \<Rightarrow> string \<Rightarrow> string option" where
  "win_entry_resolved pl entry =
     (if entry = [] \<or> is_device_spelling entry then None else Some (win_resolve pl entry))"

definition win_entry_key :: "platform \<Rightarrow> string \<Rightarrow> fs_key option" where
  "win_entry_key pl entry = Option.bind (win_entry_resolved pl entry) win_plain_key"

definition fs_path_key :: "platform \<Rightarrow> string \<Rightarrow> fs_key option" where
  "fs_path_key pl path =
     (if windows pl then win_entry_key pl path
      else (let normalized = normalize_path path
            in if normalized \<noteq> [] then Some (posix_key normalized) else None))"

definition plain_key :: "platform \<Rightarrow> string \<Rightarrow> fs_key option" where
  "plain_key pl path =
     (if windows pl then win_plain_key path
      else if path \<noteq> [] then Some (posix_key path) else None)"

definition fs_entry_key :: "platform \<Rightarrow> string \<Rightarrow> fs_grant_entry option" where
  "fs_entry_key pl entry =
     (case (if windows pl then win_entry_resolved pl entry else Some (normalize_path entry)) of
        None \<Rightarrow> None
      | Some resolved \<Rightarrow>
          (let sep = (if windows pl then BS else SL) in
           case position (\<lambda>b. b = CHR ''*'') resolved of
             None \<Rightarrow> map_option (\<lambda>k. \<lparr>fg_key = k, fg_star = None\<rparr>) (plain_key pl resolved)
           | Some first_star \<Rightarrow>
               (let prefix = take first_star resolved;
                    cut = (case rposition (\<lambda>b. b = sep) prefix of None \<Rightarrow> 0 | Some at \<Rightarrow> at + 1)
                in map_option (\<lambda>k. \<lparr>fg_key = k, fg_star = Some (drop cut prefix)\<rparr>)
                     (plain_key pl (take cut prefix)))))"

definition fs_target_key :: "platform \<Rightarrow> string \<Rightarrow> fs_key option" where
  "fs_target_key pl path =
     (if windows pl then win_target_key pl path
      else Some (posix_key (normalize_path (resolve_against_cwd pl path))))"

section \<open>Hosts and ports\<close>

text \<open>\<open>str::parse::<u16>\<close> on digits.\<close>

definition parse_u16 :: "string \<Rightarrow> nat option" where
  "parse_u16 s = (case parse_u64 s of Some n \<Rightarrow> if n < 65536 then Some n else None | None \<Rightarrow> None)"

definition all_digits :: "string \<Rightarrow> bool" where
  "all_digits s \<longleftrightarrow> s \<noteq> [] \<and> (\<forall>b \<in> set s. is_ascii_digit b)"

definition host_of :: "string \<Rightarrow> string" where
  "host_of hostport =
     (if starts_with ''['' hostport then
        (case position (\<lambda>b. b = CHR '']'') hostport of
           None \<Rightarrow> hostport
         | Some i \<Rightarrow>
             (let rest = drop (i + 1) hostport;
                  bracketed = (rest = [] \<or> (case strip_prefix '':'' rest of
                      None \<Rightarrow> False
                    | Some p \<Rightarrow> all_digits p \<and> parse_u16 p \<noteq> None))
              in if bracketed then take (i + 1) hostport else hostport))
      else case rsplit_once CHR '':'' hostport of
          Some (head, _) \<Rightarrow> if CHR '':'' \<notin> set head then head else hostport
        | None \<Rightarrow> hostport)"

definition canonical_port :: "string \<Rightarrow> nat option" where
  "canonical_port s =
     (if all_digits s \<and> (s = ''0'' \<or> \<not> starts_with ''0'' s) then parse_u16 s else None)"

definition parse_zoned :: "string \<Rightarrow> (nat list \<times> string) option" where
  "parse_zoned s =
     (case split_once CHR ''%'' s of
        None \<Rightarrow> None
      | Some (_, zone) \<Rightarrow>
          (case parse_pin_addr s of
             Some p \<Rightarrow>
               (case (pin_ip p, pin_zone p) of (V6 ip, Some _) \<Rightarrow> Some (ip, zone) | _ \<Rightarrow> None)
           | None \<Rightarrow> None))"

definition is_port_scoped_zone :: "string \<Rightarrow> bool" where
  "is_port_scoped_zone entry_zone =
     (case rsplit_once CHR '':'' entry_zone of Some (_, tail) \<Rightarrow> all_digits tail | None \<Rightarrow> False)"

definition zoned_entry_admits :: "string \<Rightarrow> nat list \<Rightarrow> string \<Rightarrow> nat \<Rightarrow> bool" where
  "zoned_entry_admits item ip zone port =
     (case parse_zoned item of
        None \<Rightarrow> False
      | Some (entry_ip, entry_zone) \<Rightarrow>
          if entry_ip \<noteq> ip then False
          else case rsplit_once CHR '':'' entry_zone of
              Some (head, tail) \<Rightarrow>
                if is_port_scoped_zone entry_zone then head = zone \<and> canonical_port tail = Some port
                else entry_zone = zone
            | None \<Rightarrow> entry_zone = zone)"

section \<open>Grants\<close>

definition admits_key :: "platform \<Rightarrow> perm_value \<Rightarrow> fs_key \<Rightarrow> bool" where
  "admits_key pl v target =
     (case v of
        PAll \<Rightarrow> True
      | PNone \<Rightarrow> False
      | PList items \<Rightarrow>
          (\<exists>item \<in> set items. case fs_entry_key pl item of
             Some entry \<Rightarrow> grant_admits entry target
           | None \<Rightarrow> False))"

definition allows_path :: "platform \<Rightarrow> perm_value \<Rightarrow> string \<Rightarrow> bool" where
  "allows_path pl v target =
     (case v of
        PAll \<Rightarrow> True
      | PNone \<Rightarrow> False
      | PList _ \<Rightarrow> (case fs_path_key pl target of Some t \<Rightarrow> admits_key pl v t | None \<Rightarrow> False))"

definition allows_fs_path :: "platform \<Rightarrow> perm_value \<Rightarrow> string \<Rightarrow> bool" where
  "allows_fs_path pl v target =
     (case v of
        PAll \<Rightarrow> True
      | PNone \<Rightarrow> False
      | PList _ \<Rightarrow> (case fs_target_key pl target of Some t \<Rightarrow> admits_key pl v t | None \<Rightarrow> False))"

definition allows_net_path :: "platform \<Rightarrow> perm_value \<Rightarrow> string \<Rightarrow> bool" where
  "allows_net_path pl v path =
     (case v of
        PAll \<Rightarrow> True
      | PNone \<Rightarrow> False
      | PList items \<Rightarrow> std_has_root pl path \<and>
          (\<exists>item \<in> set items. std_has_root pl item \<and> std_path_eq pl item path))"

definition allows_net_target :: "perm_value \<Rightarrow> string \<Rightarrow> nat \<Rightarrow> bool" where
  "allows_net_target v host port =
     (case v of
        PAll \<Rightarrow> True
      | PNone \<Rightarrow> False
      | PList items \<Rightarrow>
          if host = [] then False
          else if CHR ''%'' \<in> set host then
            (case parse_zoned host of
               Some (ip, zone) \<Rightarrow> (\<exists>item \<in> set items. zoned_entry_admits item ip zone port)
             | None \<Rightarrow> False)
          else (\<exists>item \<in> set items. item = host \<or>
             (case Option.bind (strip_prefix host item) (strip_prefix '':'') of
                Some p \<Rightarrow> canonical_port p = Some port
              | None \<Rightarrow> False)))"

definition allows_net :: "perm_value \<Rightarrow> string \<Rightarrow> bool" where
  "allows_net v target =
     (case v of
        PAll \<Rightarrow> True
      | PNone \<Rightarrow> False
      | PList items \<Rightarrow>
          if CHR ''%'' \<in> set target then
            (case Option.bind (rsplit_once CHR '':'' target)
                (\<lambda>(host, tail). map_option (Pair host) (canonical_port tail)) of
               Some (host, port) \<Rightarrow> allows_net_target v host port
             | None \<Rightarrow>
                 (case parse_zoned target of
                    None \<Rightarrow> False
                  | Some (ip, zone) \<Rightarrow>
                      (\<exists>item \<in> set items. case parse_zoned item of
                         Some (entry_ip, entry_zone) \<Rightarrow>
                           entry_ip = ip \<and> entry_zone = zone \<and> \<not> is_port_scoped_zone entry_zone
                       | None \<Rightarrow> False)))
          else (\<exists>item \<in> set items. item = target \<or> (host_of item = item \<and> host_of target = item)))"

definition allows_exact :: "perm_value \<Rightarrow> string \<Rightarrow> bool" where
  "allows_exact v target =
     (case v of PAll \<Rightarrow> True | PNone \<Rightarrow> False | PList items \<Rightarrow> (\<exists>item \<in> set items. item = target))"

definition perm_state :: "perm_value \<Rightarrow> string" where
  "perm_state v = (case v of PAll \<Rightarrow> ''granted'' | PNone \<Rightarrow> ''denied'' | PList _ \<Rightarrow> ''granted'')"

section \<open>Checks\<close>

record permissions =
  p_read :: perm_value
  p_write :: perm_value
  p_net :: perm_value
  p_env :: perm_value
  p_ffi :: perm_value
  p_child :: perm_value
  p_worker :: perm_value
  p_enabled :: bool

record permission_denial =
  pd_permission :: string
  pd_resource :: string

definition permissions_default :: permissions where
  "permissions_default = \<lparr>p_read = PAll, p_write = PAll, p_net = PAll, p_env = PAll, p_ffi = PAll,
     p_child = PAll, p_worker = PAll, p_enabled = False\<rparr>"

datatype bool_or_list = BoolV bool | ListV "string list"

record permissions_options =
  o_read :: bool_or_list
  o_write :: bool_or_list
  o_net :: bool_or_list
  o_env :: bool_or_list
  o_ffi :: bool_or_list
  o_child :: bool_or_list
  o_worker :: bool_or_list

definition bool_or_list_default :: bool_or_list where
  "bool_or_list_default = BoolV True"

definition permissions_options_default :: permissions_options where
  "permissions_options_default = \<lparr>o_read = bool_or_list_default, o_write = bool_or_list_default,
     o_net = bool_or_list_default, o_env = bool_or_list_default, o_ffi = bool_or_list_default,
     o_child = bool_or_list_default, o_worker = bool_or_list_default\<rparr>"

fun from_bool_or_list :: "bool_or_list \<Rightarrow> perm_value" where
  "from_bool_or_list (BoolV True) = PAll"
| "from_bool_or_list (BoolV False) = PNone"
| "from_bool_or_list (ListV items) = (if items = [] then PNone else PList items)"

definition fs_grant :: "platform \<Rightarrow> bool_or_list \<Rightarrow> perm_value" where
  "fs_grant pl v =
     (case from_bool_or_list v of
        PList items \<Rightarrow>
          PList (map (\<lambda>entry.
            if entry = [] then entry
            else if windows pl then (if is_device_spelling entry then entry else win_resolve pl entry)
            else resolve_against_cwd pl entry) items)
      | other \<Rightarrow> other)"

definition from_opts :: "platform \<Rightarrow> permissions_options option \<Rightarrow> permissions" where
  "from_opts pl opts =
     (case opts of
        None \<Rightarrow> permissions_default
      | Some o' \<Rightarrow>
          \<lparr>p_read = fs_grant pl (o_read o'), p_write = fs_grant pl (o_write o'),
           p_net = from_bool_or_list (o_net o'), p_env = from_bool_or_list (o_env o'),
           p_ffi = from_bool_or_list (o_ffi o'), p_child = from_bool_or_list (o_child o'),
           p_worker = from_bool_or_list (o_worker o'), p_enabled = True\<rparr>)"

definition denied :: "string \<Rightarrow> string \<Rightarrow> permission_denial + 'a" where
  "denied permission resource = Inl \<lparr>pd_permission = permission, pd_resource = resource\<rparr>"

definition check_read :: "platform \<Rightarrow> permissions \<Rightarrow> string \<Rightarrow> permission_denial + unit" where
  "check_read pl p path =
     (if allows_fs_path pl (p_read p) path then Inr () else denied ''FileSystemRead'' path)"

definition check_write :: "platform \<Rightarrow> permissions \<Rightarrow> string \<Rightarrow> permission_denial + unit" where
  "check_write pl p path =
     (if allows_fs_path pl (p_write p) path then Inr () else denied ''FileSystemWrite'' path)"

definition check_read_path :: "platform \<Rightarrow> permissions \<Rightarrow> fs_path \<Rightarrow> permission_denial + unit" where
  "check_read_path pl p path = check_read pl p (fp_os path)"

definition check_write_path :: "platform \<Rightarrow> permissions \<Rightarrow> fs_path \<Rightarrow> permission_denial + unit" where
  "check_write_path pl p path = check_write pl p (fp_os path)"

definition check_net :: "permissions \<Rightarrow> string \<Rightarrow> permission_denial + unit" where
  "check_net p host = (if allows_net (p_net p) host then Inr () else denied ''Net'' host)"

definition check_pipe :: "platform \<Rightarrow> permissions \<Rightarrow> string \<Rightarrow> permission_denial + string" where
  "check_pipe pl p path =
     (if CHR 0x00 \<in> set path then
        (if p_net p = PAll \<and> p_read p = PAll \<and> p_write p = PAll then Inr path
         else if p_net p = PAll \<and> p_read p = PAll then denied ''FileSystemWrite'' path
         else if p_net p = PAll then denied ''FileSystemRead'' path
         else denied ''Net'' path)
      else
        (let fs_path = (\<not> is_named_pipe_namespace pl path);
             fs_restricted = (fs_path \<and> \<not> (p_read p = PAll \<and> p_write p = PAll))
         in if p_net p = PAll \<and> \<not> fs_restricted then Inr path
            else
              (let resolved = resolve_against_cwd pl path in
               if \<not> allows_net_path pl (p_net p) resolved then denied ''Net'' path
               else if fs_path \<and> \<not> allows_fs_path pl (p_read p) resolved then denied ''FileSystemRead'' path
               else if fs_path \<and> \<not> allows_fs_path pl (p_write p) resolved then denied ''FileSystemWrite'' path
               else Inr resolved)))"

definition check_net_target :: "permissions \<Rightarrow> string \<Rightarrow> nat \<Rightarrow> permission_denial + unit" where
  "check_net_target p host port =
     (if allows_net_target (p_net p) host port then Inr ()
      else denied ''Net'' (host @ '':'' @ show_dec port))"

definition check_worker :: "platform \<Rightarrow> permissions \<Rightarrow> string \<Rightarrow> permission_denial + unit" where
  "check_worker pl p resource =
     (if allows_path pl (p_worker p) resource then Inr () else denied ''WorkerThreads'' resource)"

definition check_child :: "platform \<Rightarrow> permissions \<Rightarrow> string \<Rightarrow> permission_denial + unit" where
  "check_child pl p resource =
     (if allows_path pl (p_child p) resource then Inr () else denied ''ChildProcess'' resource)"

definition check_ffi :: "platform \<Rightarrow> permissions \<Rightarrow> string \<Rightarrow> permission_denial + unit" where
  "check_ffi pl p resource =
     (if allows_path pl (p_ffi p) resource then Inr () else denied ''Addon'' resource)"

definition check_env :: "permissions \<Rightarrow> string \<Rightarrow> permission_denial + unit" where
  "check_env p key = (if allows_exact (p_env p) key then Inr () else denied ''Environment'' key)"

definition perm_of_name :: "permissions \<Rightarrow> string \<Rightarrow> perm_value option" where
  "perm_of_name p name =
     (if name = ''read'' then Some (p_read p)
      else if name = ''write'' then Some (p_write p)
      else if name = ''net'' then Some (p_net p)
      else if name = ''env'' then Some (p_env p)
      else if name = ''child'' then Some (p_child p)
      else if name = ''ffi'' then Some (p_ffi p)
      else if name = ''worker'' then Some (p_worker p)
      else None)"

definition query_state :: "platform \<Rightarrow> permissions \<Rightarrow> string \<Rightarrow> string option \<Rightarrow> string" where
  "query_state pl p name target =
     (case perm_of_name p name of
        None \<Rightarrow> ''denied''
      | Some perm \<Rightarrow>
          (case target of
             None \<Rightarrow> perm_state perm
           | Some t \<Rightarrow>
               (let granted =
                  (if name = ''read'' \<or> name = ''write'' then
                     allows_fs_path pl perm
                       (fs_os_path (windows pl) (unwrap_or [] (current_dir pl)) (drive_dir pl) t)
                   else if name = ''net'' then allows_net perm t
                   else if name = ''child'' \<or> name = ''worker'' \<or> name = ''ffi'' then allows_path pl perm t
                   else allows_exact perm t)
                in if granted then ''granted'' else ''denied'')))"

definition access_denied_message :: "string \<Rightarrow> string" where
  "access_denied_message permission =
     (let flag =
        (if permission = ''FileSystemRead'' then Some ''--allow-fs-read''
         else if permission = ''FileSystemWrite'' then Some ''--allow-fs-write''
         else if permission = ''ChildProcess'' then Some ''--allow-child-process''
         else if permission = ''WorkerThreads'' then Some ''--allow-worker''
         else if permission = ''WASI'' then Some ''--allow-wasi''
         else if permission = ''Addon'' then Some ''--allow-addons''
         else if permission = ''Net'' then Some ''--allow-net''
         else if permission = ''Environment'' then Some ''--allow-env''
         else None)
      in case flag of
           None \<Rightarrow> ''Access to this API has been restricted. ''
         | Some f \<Rightarrow> ''Access to this API has been restricted. Use '' @ f @ '' to manage permissions.'')"

section \<open>The network gate of a fetch\<close>

definition fetch_net_check :: "permissions \<Rightarrow> (string \<times> nat \<Rightarrow> permission_denial + unit) option" where
  "fetch_net_check p =
     (if p_net p = PAll then None else Some (\<lambda>(host, port). check_net_target p host port))"

text \<open>The port of a URL, from the parser's \<open>port()\<close> and \<open>protocol()\<close>.\<close>

definition url_net_port :: "string \<Rightarrow> string \<Rightarrow> nat" where
  "url_net_port url_port url_protocol =
     (if url_port = [] then
        (if url_protocol = ''http:'' \<or> url_protocol = ''ws:'' then 80
         else if url_protocol = ''https:'' \<or> url_protocol = ''wss:'' then 443
         else 0)
      else unwrap_or 0 (parse_u16 url_port))"

text \<open>\<open>url_hostname\<close> is the URL parser: the host name of a URL, or \<open>None\<close> when it does not parse.\<close>

definition lookup_answer_resource :: "(string \<Rightarrow> string option) \<Rightarrow> string \<Rightarrow> string" where
  "lookup_answer_resource url_hostname answer =
     (case parse_ip answer of
        Some (V4 v) \<Rightarrow> show_ipv4 v
      | Some (V6 g) \<Rightarrow>
          (let bracketed = ''['' @ show_ipv6 g @ '']''
           in unwrap_or bracketed (url_hostname (''http://'' @ bracketed @ ''/'')))
      | None \<Rightarrow> answer)"

section \<open>Lexical resolution on POSIX\<close>

lemma starts_with_prefix: "starts_with p xs \<longleftrightarrow> prefix p xs"
  by (auto simp: starts_with_def prefix_def intro: append_take_drop_id [symmetric])
    (metis append_take_drop_id)

definition norm_comps :: "string \<Rightarrow> string list" where
  "norm_comps raw = foldl normalize_step [] (slash_split raw)"

text \<open>Real components: not empty, not \<open>.\<close> or \<open>..\<close>, without a slash.\<close>

definition comps_ok :: "string list \<Rightarrow> bool" where
  "comps_ok cs \<longleftrightarrow> (\<forall>c \<in> set cs. c \<noteq> [] \<and> c \<noteq> ''.'' \<and> c \<noteq> ''..'' \<and> SL \<notin> set c)"

lemma comps_ok_simps [simp]:
  "comps_ok []"
  "comps_ok (c # cs) \<longleftrightarrow> c \<noteq> [] \<and> c \<noteq> ''.'' \<and> c \<noteq> ''..'' \<and> SL \<notin> set c \<and> comps_ok cs"
  "comps_ok (cs @ ds) \<longleftrightarrow> comps_ok cs \<and> comps_ok ds"
  by (auto simp: comps_ok_def)

lemma comps_ok_take: "comps_ok cs \<Longrightarrow> comps_ok (take n cs)"
  by (auto simp: comps_ok_def dest: in_set_takeD)

lemma slash_split_no_slash: "seg \<in> set (slash_split s) \<Longrightarrow> SL \<notin> set seg"
  by (auto simp: slash_split_def dest: split_on_pieces)

lemma normalize_steps_ok:
  "comps_ok out \<Longrightarrow> \<forall>seg \<in> set segs. SL \<notin> set seg \<Longrightarrow> comps_ok (foldl normalize_step out segs)"
proof (induction segs arbitrary: out)
  case (Cons seg segs)
  have "comps_ok (normalize_step out seg)"
    using Cons.prems by (auto simp: normalize_step_def comps_ok_def dest: in_set_butlastD)
  then show ?case using Cons by simp
qed simp

lemma norm_comps_ok: "comps_ok (norm_comps raw)"
  unfolding norm_comps_def by (rule normalize_steps_ok) (auto dest: slash_split_no_slash)

lemma normalize_path_eq:
  "normalize_path raw = (if starts_with [SL] raw then [SL] else []) @ join [SL] (norm_comps raw)"
  by (simp add: normalize_path_def norm_comps_def Let_def)

lemma slash_split_join: "comps_ok cs \<Longrightarrow> cs \<noteq> [] \<Longrightarrow> slash_split (join [SL] cs) = cs"
  unfolding slash_split_def by (rule split_on_join) (auto simp: comps_ok_def)

lemma filter_comps: "comps_ok cs \<Longrightarrow> filter (\<lambda>c. c \<noteq> []) cs = cs"
  by (induction cs) simp_all

lemma filter_split_join: "comps_ok cs \<Longrightarrow> filter (\<lambda>c. c \<noteq> []) (slash_split (join [SL] cs)) = cs"
proof (cases "cs = []")
  case False
  assume "comps_ok cs"
  then show ?thesis using slash_split_join [OF _ False] filter_comps by metis
qed (simp add: slash_split_def)

lemma join_not_rooted: "comps_ok cs \<Longrightarrow> strip_prefix [SL] (join [SL] cs) = None"
proof -
  assume ok: "comps_ok cs"
  have "\<not> starts_with [SL] (join [SL] cs)"
  proof (cases cs)
    case (Cons c cs')
    then obtain b c' where "c = b # c'" "b \<noteq> SL" using ok by (cases c) auto
    then show ?thesis using Cons by (cases cs') (simp_all add: starts_with_def)
  qed (simp add: starts_with_def)
  then show ?thesis by (simp add: strip_prefix_def)
qed

lemma posix_key_normalize:
  "posix_key (normalize_path raw) =
     \<lparr>fk_root = (if starts_with [SL] raw then [SL] else []), fk_parts = norm_comps raw\<rparr>"
  using norm_comps_ok [of raw]
  by (auto simp: posix_key_def normalize_path_eq strip_prefix_append [of "[SL]", simplified]
      filter_split_join join_not_rooted)

lemma foldl_normalize_id: "comps_ok cs \<Longrightarrow> foldl normalize_step out cs = out @ cs"
  by (induction cs arbitrary: out) (auto simp: normalize_step_def)

lemma norm_comps_join: "comps_ok cs \<Longrightarrow> norm_comps (join [SL] cs) = cs"
proof (cases "cs = []")
  case False
  assume "comps_ok cs"
  with False show ?thesis by (simp add: norm_comps_def slash_split_join foldl_normalize_id)
qed (simp add: norm_comps_def slash_split_def normalize_step_def)

lemma norm_comps_Cons_slash: "norm_comps (SL # s) = norm_comps s"
  by (simp add: norm_comps_def slash_split_def normalize_step_def)


section \<open>Grants as text\<close>

definition as_text :: "string list \<Rightarrow> string" where
  "as_text cs = SL # concat (map (\<lambda>c. c @ [SL]) cs)"

text \<open>A normalized absolute path as a directory, and the text a grant entry stands for.\<close>

definition as_dir :: "string \<Rightarrow> string" where
  "as_dir n = (if n = [SL] then [SL] else n @ [SL])"

definition grant_prefix :: "string \<Rightarrow> string" where
  "grant_prefix e = (case position (\<lambda>b. b = CHR ''*'') e of None \<Rightarrow> as_dir e | Some i \<Rightarrow> take i e)"

lemma join_slash_concat: "cs \<noteq> [] \<Longrightarrow> join [SL] cs @ [SL] = concat (map (\<lambda>c. c @ [SL]) cs)"
  by (induction "[SL]" cs rule: join.induct) auto

lemma as_dir_join: "comps_ok cs \<Longrightarrow> as_dir (SL # join [SL] cs) = as_text cs"
  using join_eq_Nil [of cs "[SL]"] join_slash_concat [of cs]
  by (cases "cs = []") (auto simp: as_dir_def as_text_def comps_ok_def)

lemma prefix_piece:
  assumes "SL \<notin> set start" "SL \<notin> set d"
  shows "prefix start (d @ SL # Y) \<longleftrightarrow> prefix start d"
  using assms by (auto simp: prefix_append prefix_Cons)

lemma first_sep_unique:
  "b \<notin> set c \<Longrightarrow> b \<notin> set d \<Longrightarrow> c @ b # x = d @ b # y \<longleftrightarrow> c = d \<and> x = y"
proof (induction c arbitrary: d)
  case (Cons a c)
  then show ?case by (cases d) auto
qed (auto simp: Cons_eq_append_conv)

lemma prefix_same_piece:
  assumes "SL \<notin> set c" "SL \<notin> set d"
  shows "prefix (c @ SL # X) (d @ SL # Y) \<longleftrightarrow> c = d \<and> prefix X Y"
  using first_sep_unique [OF assms(2,1)] by (auto simp: prefix_def)

lemma as_text_prefix:
  assumes "comps_ok cs" "comps_ok ts" "SL \<notin> set start"
  shows "prefix (as_text cs @ start) (as_text ts) \<longleftrightarrow>
    prefix cs ts \<and> (start = [] \<or> length cs < length ts \<and> prefix start (ts ! length cs))"
  using assms(1,2) unfolding as_text_def
proof (induction cs arbitrary: ts)
  case Nil
  then show ?case using assms(3) by (cases ts) (auto simp: prefix_piece)
next
  case (Cons c cs)
  then show ?case by (cases ts) (auto simp: prefix_same_piece)
qed

lemma split_slash_free: "SL \<notin> set a \<Longrightarrow> split_on (\<lambda>b. b = SL) a = [a]"
  by (rule split_on_no_sep) auto

lemma posix_key_as_text: "comps_ok cs \<Longrightarrow> posix_key (as_text cs) = \<lparr>fk_root = [SL], fk_parts = cs\<rparr>"
proof -
  assume ok: "comps_ok cs"
  have "slash_split (concat (map (\<lambda>c. c @ [SL]) cs)) = cs @ [[]]" if "comps_ok cs" for cs
    using that unfolding slash_split_def
    by (induction cs) (simp_all add: split_on_append_sep split_slash_free)
  then have "filter (\<lambda>c. c \<noteq> []) (slash_split (concat (map (\<lambda>c. c @ [SL]) cs))) = cs"
    using ok filter_comps [OF ok] by simp
  then show ?thesis
    by (simp add: posix_key_def as_text_def strip_prefix_append [of "[SL]", simplified])
qed

text \<open>A non-empty prefix of an absolute path is a directory text and the start of a component.\<close>

lemma prefix_of_path:
  assumes "comps_ok ec" "prefix p (as_text ec)" "p \<noteq> []"
  shows "\<exists>k start. p = as_text (take k ec) @ start \<and> SL \<notin> set start"
  using assms
proof (induction ec arbitrary: p)
  case Nil
  then have "p = [SL]" by (auto simp: as_text_def prefix_Cons)
  then show ?case by (intro exI [of _ 0] exI [of _ "[]"]) (simp add: as_text_def)
next
  case (Cons c ec)
  obtain q where q: "p = SL # q" "prefix q (c @ as_text ec)"
    using Cons.prems by (auto simp: as_text_def prefix_Cons)
  show ?case
  proof (cases "prefix q c")
    case True
    then have "SL \<notin> set q" using Cons.prems(1) by (auto simp: prefix_def)
    then show ?thesis using q(1) by (intro exI [of _ 0] exI [of _ q]) (simp add: as_text_def)
  next
    case False
    then obtain r where r: "q = c @ r" "prefix r (as_text ec)" using q(2) by (auto simp: prefix_append)
    then have "r \<noteq> []" using False by auto
    then obtain k start where "r = as_text (take k ec) @ start" "SL \<notin> set start"
      using Cons.IH [of r] Cons.prems(1) r(2) by auto
    then show ?thesis
      using q(1) r(1) by (intro exI [of _ "Suc k"] exI [of _ start]) (simp add: as_text_def)
  qed
qed

lemma cut_as_text:
  assumes "SL \<notin> set start"
  shows "(case rposition (\<lambda>b. b = SL) (as_text cs @ start) of None \<Rightarrow> 0 | Some at \<Rightarrow> at + 1) =
    length (as_text cs)"
proof -
  obtain Y where Y: "as_text cs = Y @ [SL]"
    by (cases cs rule: rev_cases) (auto simp: as_text_def)
  have "rposition (\<lambda>b. b = SL) (Y @ SL # start) = Some (length Y)"
    using assms by (intro rposition_append_last) auto
  then show ?thesis by (simp add: Y)
qed

lemma posix_simps [simp]:
  "windows (posix cwd) = False" "current_dir (posix cwd) = cwd"
  "std_absolute (posix cwd) = posix_absolute cwd" "std_has_root (posix cwd) = posix_has_root"
  "std_path_eq (posix cwd) = posix_path_eq"
  by (simp_all add: posix_def)

lemma take_prefix_as_text:
  "i < length (SL # join [SL] ec) \<Longrightarrow> comps_ok ec \<Longrightarrow> prefix (take i (SL # join [SL] ec)) (as_text ec)"
  using as_dir_join [of ec]
  by (metis as_dir_def prefix_order.trans take_is_prefix prefixI append_Nil2)

text \<open>What an absolute entry admits, as text.\<close>

lemma entry_admits_text:
  assumes "starts_with [SL] item" "comps_ok ts"
  shows "(case fs_entry_key (posix cwd) item of
      Some g \<Rightarrow> grant_admits g \<lparr>fk_root = [SL], fk_parts = ts\<rparr> | None \<Rightarrow> False) \<longleftrightarrow>
    starts_with (grant_prefix (normalize_path item)) (as_text ts)"
proof -
  define ec where "ec = norm_comps item"
  have ec: "comps_ok ec" "normalize_path item = SL # join [SL] ec"
    using assms(1) norm_comps_ok by (auto simp: ec_def normalize_path_eq)
  show ?thesis
  proof (cases "position (\<lambda>b. b = CHR ''*'') (SL # join [SL] ec)")
    case None
    have "plain_key (posix cwd) (normalize_path item) = Some \<lparr>fk_root = [SL], fk_parts = ec\<rparr>"
      using posix_key_normalize [of item] assms(1) ec(2) by (simp add: plain_key_def ec_def)
    then show ?thesis
      using None ec as_text_prefix [OF ec(1) assms(2), of "[]"]
      by (simp add: fs_entry_key_def Let_def grant_admits_def key_admits_def grant_prefix_def
          as_dir_join starts_with_prefix)
  next
    case (Some i)
    let ?p = "take i (SL # join [SL] ec)"
    have i: "i < length (SL # join [SL] ec)" "i \<noteq> 0"
      using position_Some_less [OF Some] Some by (auto simp del: position.simps intro: ccontr)
    then obtain k start where k: "?p = as_text (take k ec) @ start" "SL \<notin> set start"
      using prefix_of_path [OF ec(1) take_prefix_as_text [OF i(1) ec(1)]] by auto
    have dc: "comps_ok (take k ec)" using ec(1) by (rule comps_ok_take)
    have ne: "as_text (take k ec) \<noteq> []" by (simp add: as_text_def)
    have "fs_entry_key (posix cwd) item =
        Some \<lparr>fg_key = \<lparr>fk_root = [SL], fk_parts = take k ec\<rparr>, fg_star = Some start\<rparr>"
      using Some k cut_as_text [OF k(2), of "take k ec"] posix_key_as_text [OF dc] ne
      by (simp add: fs_entry_key_def ec(2) Let_def plain_key_def del: position.simps)
    then show ?thesis
      using Some k as_text_prefix [OF dc assms(2) k(2)]
      by (simp add: grant_admits_def grant_prefix_def ec(2) starts_with_prefix del: position.simps)
  qed
qed

lemma path_push_rooted: "posix_has_root dir \<Longrightarrow> posix_has_root (path_push dir c)"
  by (cases dir) (auto simp: path_push_def posix_has_root_def starts_with_def)

lemma foldl_path_push_rooted: "posix_has_root dir \<Longrightarrow> posix_has_root (foldl path_push dir cs)"
  by (induction cs arbitrary: dir) (auto simp: path_push_rooted)

lemma resolve_rooted:
  "posix_has_root c \<Longrightarrow> posix_has_root (resolve_against_cwd (posix (Some c)) t)"
  by (auto simp: resolve_against_cwd_def posix_absolute_def Let_def path_push_rooted foldl_path_push_rooted)

lemma resolve_of_rooted: "posix_has_root t \<Longrightarrow> resolve_against_cwd (posix cwd) t = t"
  by (simp add: resolve_against_cwd_def)

lemma empty_entry: "fs_entry_key (posix cwd) [] = None"
  by (simp add: fs_entry_key_def plain_key_def normalize_path_def slash_split_def normalize_step_def
      starts_with_def Let_def)

lemma as_dir_normalize:
  "starts_with [SL] t \<Longrightarrow> as_dir (normalize_path t) = as_text (norm_comps t)"
  using as_dir_join [OF norm_comps_ok] by (simp add: normalize_path_eq)

lemma admits_key_text:
  assumes "\<forall>item \<in> set items. item = [] \<or> starts_with [SL] item" "comps_ok ts"
  shows "admits_key (posix cwd) (PList items) \<lparr>fk_root = [SL], fk_parts = ts\<rparr> \<longleftrightarrow>
    (\<exists>item \<in> set items. item \<noteq> [] \<and> starts_with (grant_prefix (normalize_path item)) (as_text ts))"
proof -
  have "(case fs_entry_key (posix cwd) item of
      Some g \<Rightarrow> grant_admits g \<lparr>fk_root = [SL], fk_parts = ts\<rparr> | None \<Rightarrow> False) \<longleftrightarrow>
      item \<noteq> [] \<and> starts_with (grant_prefix (normalize_path item)) (as_text ts)" if "item \<in> set items" for item
    using assms that entry_admits_text [OF _ assms(2), of item cwd]
    by (cases "item = []") (auto simp: empty_entry)
  then show ?thesis by (auto simp: admits_key_def)
qed

lemma allows_fs_path_text:
  assumes "\<forall>item \<in> set items. item = [] \<or> starts_with [SL] item"
    "starts_with [SL] (resolve_against_cwd (posix cwd) target)"
  shows "allows_fs_path (posix cwd) (PList items) target \<longleftrightarrow>
    (\<exists>item \<in> set items. item \<noteq> [] \<and> starts_with (grant_prefix (normalize_path item))
       (as_dir (normalize_path (resolve_against_cwd (posix cwd) target))))"
  using admits_key_text [OF assms(1) norm_comps_ok] assms(2)
  by (simp add: allows_fs_path_def fs_target_key_def posix_key_normalize as_dir_normalize)

text \<open>
  Property C5. On POSIX a list of rooted entries admits a target exactly when the target, resolved
  lexically against the current directory and read as a directory, starts with the text of some
  entry: the normalized entry up to its first \<open>*\<close>, or, without a \<open>*\<close>, the normalized entry and a
  separator. So an entry covers itself and its subtree only, never a sibling that shares its
  spelling, no \<open>..\<close> leads out of it, and a blank entry grants nothing.
\<close>

theorem fs_list_admits_iff:
  assumes "\<forall>item \<in> set items. item = [] \<or> starts_with [SL] item" "starts_with [SL] dir"
  shows "allows_fs_path (posix (Some dir)) (PList items) target \<longleftrightarrow>
    (\<exists>item \<in> set items. item \<noteq> [] \<and> starts_with (grant_prefix (normalize_path item))
       (as_dir (normalize_path (resolve_against_cwd (posix (Some dir)) target))))"
  using assms allows_fs_path_text resolve_rooted [of dir target] by (simp add: posix_has_root_def)

theorem fs_list_admits_iff_witness:
  "allows_fs_path (posix (Some ''/box/a'')) (PList [''/box/a'']) ''x/./y'' \<and>
   \<not> allows_fs_path (posix (Some ''/box/a'')) (PList [''/box/a'']) ''../a-evil'' \<and>
   \<not> allows_fs_path (posix (Some ''/box/a'')) (PList [''/box/a'']) ''/box/a/../../secret''"
proof -
  have h: "\<forall>item \<in> set [''/box/a'']. item = [] \<or> starts_with [SL] item" "starts_with [SL] ''/box/a''"
    by (simp_all add: starts_with_def)
  show ?thesis unfolding fs_list_admits_iff [OF h] by (intro conjI; code_simp)
qed

lemma norm_comps_append_slash: "norm_comps (dir @ SL # c) = foldl normalize_step (norm_comps dir) (slash_split c)"
  by (simp add: norm_comps_def slash_split_def split_on_append_sep)

lemma norm_comps_push: "SL \<notin> set c \<Longrightarrow> norm_comps (path_push dir c) = normalize_step (norm_comps dir) c"
proof -
  assume c: "SL \<notin> set c"
  have "norm_comps c = normalize_step [] c" "norm_comps [] = []"
    using c by (simp_all add: norm_comps_def slash_split_def split_slash_free normalize_step_def)
  moreover have "norm_comps (d @ SL # c) = normalize_step (norm_comps d) c"
      "norm_comps (d @ [SL]) = norm_comps d" for d
    using c norm_comps_append_slash [of d "[]"]
    by (simp_all add: norm_comps_append_slash slash_split_def split_slash_free normalize_step_def)
  ultimately show ?thesis by (auto simp: path_push_def ends_with_eq)
qed

lemma norm_comps_pushes:
  "\<forall>c \<in> set cs. SL \<notin> set c \<Longrightarrow> norm_comps (foldl path_push dir cs) = foldl normalize_step (norm_comps dir) cs"
  by (induction cs arbitrary: dir) (auto simp: norm_comps_push)

lemma foldl_normalize_filter:
  "foldl normalize_step out (filter (\<lambda>c. c \<noteq> [] \<and> c \<noteq> ''.'') segs) = foldl normalize_step out segs"
  by (induction segs arbitrary: out) (auto simp: normalize_step_def)



lemma resolve_nonempty:
  "posix_has_root dir \<Longrightarrow> resolve_against_cwd (posix (Some dir)) t \<noteq> []"
  using resolve_rooted [of dir t] by (auto simp: posix_has_root_def starts_with_def)

text \<open>
  Property C17. A grant is fixed when the permission set is built: its entries are resolved against the
  directory of that moment, \<open>dir0\<close>, and a later change of directory moves only what a relative
  target names. A read is admitted exactly when the target resolved against the directory of the
  check, \<open>dir1\<close>, starts with the text of an entry resolved against \<open>dir0\<close>; otherwise the denial
  names the permission and the path as given.
\<close>

theorem grants_fixed_at_startup:
  assumes "starts_with [SL] dir0" "starts_with [SL] dir1" "o_read opts = ListV items"
  shows "check_read (posix (Some dir1)) (from_opts (posix (Some dir0)) (Some opts)) path =
    (if \<exists>item \<in> set items. item \<noteq> [] \<and>
        starts_with (grant_prefix (normalize_path (resolve_against_cwd (posix (Some dir0)) item)))
          (as_dir (normalize_path (resolve_against_cwd (posix (Some dir1)) path)))
     then Inr () else Inl \<lparr>pd_permission = ''FileSystemRead'', pd_resource = path\<rparr>)"
proof (cases "items = []")
  case True
  then show ?thesis
    using assms(3) by (simp add: check_read_def from_opts_def fs_grant_def allows_fs_path_def denied_def)
next
  case False
  let ?entry = "\<lambda>entry. if entry = [] then entry else resolve_against_cwd (posix (Some dir0)) entry"
  have grant: "p_read (from_opts (posix (Some dir0)) (Some opts)) = PList (map ?entry items)"
    using False assms(3) by (simp add: from_opts_def fs_grant_def cong: if_cong)
  have rooted: "\<forall>item \<in> set (map ?entry items). item = [] \<or> starts_with [SL] item"
    using resolve_rooted assms(1) by (auto simp: posix_has_root_def)
  have "starts_with [SL] (resolve_against_cwd (posix (Some dir1)) path)"
    using resolve_rooted assms(2) by (simp add: posix_has_root_def)
  from allows_fs_path_text [OF rooted this] show ?thesis
    using resolve_nonempty [of dir0] assms(1) grant
    by (auto simp: check_read_def denied_def posix_has_root_def)
qed

theorem grants_fixed_at_startup_witness:
  "let opts = permissions_options_default\<lparr>o_read := ListV [''data'']\<rparr> in
   check_read (posix (Some ''/tmp'')) (from_opts (posix (Some ''/app'')) (Some opts)) ''../app/data/f'' = Inr () \<and>
   check_read (posix (Some ''/tmp'')) (from_opts (posix (Some ''/app'')) (Some opts)) ''data'' \<noteq> Inr ()"
proof -
  let ?opts = "permissions_options_default\<lparr>o_read := ListV [''data'']\<rparr>"
  have h: "starts_with [SL] ''/app''" "starts_with [SL] ''/tmp''" "o_read ?opts = ListV [''data'']"
    by (simp_all add: starts_with_def)
  have "starts_with (grant_prefix (normalize_path (resolve_against_cwd (posix (Some ''/app'')) ''data'')))
      (as_dir (normalize_path (resolve_against_cwd (posix (Some ''/tmp'')) ''../app/data/f'')))"
    "\<not> starts_with (grant_prefix (normalize_path (resolve_against_cwd (posix (Some ''/app'')) ''data'')))
      (as_dir (normalize_path (resolve_against_cwd (posix (Some ''/tmp'')) ''data'')))"
    by code_simp+
  then show ?thesis unfolding Let_def grants_fixed_at_startup [OF h] by simp
qed

section \<open>Pipes\<close>

lemma fs_entry_key_cwd: "fs_entry_key (posix cwd) item = fs_entry_key (posix cwd') item"
proof -
  have "plain_key (posix cwd) = plain_key (posix cwd')" by (simp add: plain_key_def fun_eq_iff)
  then show ?thesis unfolding fs_entry_key_def posix_simps by (simp split: option.split)
qed

lemma allows_fs_path_rooted:
  "posix_has_root r \<Longrightarrow> allows_fs_path (posix cwd) v r = allows_fs_path (posix cwd') v r"
  unfolding allows_fs_path_def fs_target_key_def admits_key_def
  by (cases v) (simp_all add: resolve_of_rooted fs_entry_key_cwd [of cwd _ cwd'])

lemma allows_net_path_cwd: "allows_net_path (posix cwd) v r = allows_net_path (posix cwd') v r"
  by (cases v) (simp_all add: allows_net_path_def)


definition pipe_perms :: permissions where
  "pipe_perms = permissions_default\<lparr>p_net := PList [''/run/app.sock''], p_read := PList [''/run''],
     p_write := PList [''/run'']\<rparr>"


section \<open>Queries\<close>

text \<open>
  Property C31. A scoped query answers as the gate of its operation: for every permission name, on
  every platform, \<open>granted\<close> is reported exactly when the check an operation on that argument makes
  would pass; an unknown name is always denied.
\<close>

theorem query_agrees_with_gate:
  "query_state pl p name (Some t) =
    (let os = fs_path_new (windows pl) (unwrap_or [] (current_dir pl)) (drive_dir pl) t in
     if (if name = ''read'' then check_read_path pl p os = Inr ()
         else if name = ''write'' then check_write_path pl p os = Inr ()
         else if name = ''net'' then check_net p t = Inr ()
         else if name = ''env'' then check_env p t = Inr ()
         else if name = ''child'' then check_child pl p t = Inr ()
         else if name = ''ffi'' then check_ffi pl p t = Inr ()
         else name = ''worker'' \<and> check_worker pl p t = Inr ())
     then ''granted'' else ''denied'')"
proof -
  note checks = check_read_path_def check_write_path_def check_read_def check_write_def check_net_def
    check_env_def check_child_def check_ffi_def check_worker_def denied_def
  show ?thesis
    unfolding query_state_def perm_of_name_def
    by (simp add: checks fs_path_new_def Let_def)
qed

section \<open>Network targets\<close>

lemma all_digits_show_dec: "all_digits (show_dec n)"
  using show_dec_is_digit by (simp add: all_digits_def)

lemma parse_u16_digits: "all_digits s \<Longrightarrow> parse_u16 s = (if decimal s < 65536 then Some (decimal s) else None)"
proof -
  assume s: "all_digits s"
  have "strip_prefix ''+'' s = None"
    using s by (cases s) (auto simp: strip_prefix_def starts_with_def all_digits_def is_ascii_digit_def byte_of_def)
  then show ?thesis using s by (simp add: parse_u16_def parse_u64_def Let_def all_digits_def)
qed

lemma canonical_port_iff: "canonical_port s = Some n \<longleftrightarrow> n < 65536 \<and> s = show_dec n"
proof
  assume c: "canonical_port s = Some n"
  then have s: "all_digits s" "s = ''0'' \<or> \<not> starts_with ''0'' s" by (auto simp: canonical_port_def split: if_splits)
  then have n: "n < 65536" "n = decimal s"
    using c parse_u16_digits [OF s(1)] by (auto simp: canonical_port_def split: if_splits)
  have "s = ''0'' \<or> hd s \<noteq> CHR ''0''" using s by (cases s) (auto simp: starts_with_def all_digits_def)
  then show "n < 65536 \<and> s = show_dec n"
    using n s(1) show_dec_decimal [of s] by (simp add: all_digits_def)
next
  assume n: "n < 65536 \<and> s = show_dec n"
  have "s = ''0'' \<or> \<not> starts_with ''0'' s"
    using n show_dec_0 hd_show_radix [of 10 n] by (cases "n = 0") (auto simp: starts_with_single)
  then show "canonical_port s = Some n"
    using n all_digits_show_dec [of n] parse_u16_digits [of s]
    by (simp add: canonical_port_def decimal_show_dec)
qed

lemma show_dec_no: "c \<in> set (show_dec n) \<Longrightarrow> c \<noteq> CHR '':'' \<and> c \<noteq> CHR ''%'' \<and> c \<noteq> CHR '']''"
  using show_dec_is_digit [of n] by (auto simp: is_ascii_digit_def byte_of_def)

lemma rsplit_host_port: "rsplit_once CHR '':'' (host @ '':'' @ show_dec port) = Some (host, show_dec port)"
proof -
  have "rposition (\<lambda>b. b = CHR '':'') (host @ CHR '':'' # show_dec port) = Some (length host)"
    using show_dec_no by (intro rposition_append_last) auto
  then show ?thesis by (simp add: rsplit_once_def)
qed

text \<open>A host as the clients spell one: a name or IPv4 address, a bracketed IPv6 literal, or an
  address with a zone.\<close>

definition bracketed_host :: "string \<Rightarrow> bool" where
  "bracketed_host host \<longleftrightarrow> (\<exists>h. host = ''['' @ h @ '']'' \<and> CHR '']'' \<notin> set h)"

definition plain_host :: "string \<Rightarrow> bool" where
  "plain_host host \<longleftrightarrow> host \<noteq> [] \<and> CHR '':'' \<notin> set host \<and> \<not> starts_with ''['' host"

lemma host_of_plain:
  assumes "plain_host host"
  shows "host_of host = host" "host_of (host @ '':'' @ show_dec port) = host"
proof -
  have "rsplit_once CHR '':'' host = None"
    using assms by (auto simp: rsplit_once_def rposition_None plain_host_def)
  then show "host_of host = host" using assms by (simp add: host_of_def plain_host_def)
  have "\<not> starts_with ''['' (host @ '':'' @ show_dec port)"
    using assms by (cases host) (auto simp: plain_host_def starts_with_def)
  then show "host_of (host @ '':'' @ show_dec port) = host"
    using assms by (simp only: host_of_def if_False rsplit_host_port) (simp add: plain_host_def)
qed

lemma host_of_bracketed:
  assumes "bracketed_host host" "port < 65536"
  shows "host_of host = host" "host_of (host @ '':'' @ show_dec port) = host"
proof -
  obtain h where h: "host = ''['' @ h @ '']''" "CHR '']'' \<notin> set h"
    using assms(1) by (auto simp: bracketed_host_def)
  have pos: "position (\<lambda>b. b = CHR '']'') (host @ s) = Some (Suc (length h))" for s
    using h position_append [of "\<lambda>b. b = CHR '']''" "CHR ''['' # h" "CHR '']'' # s"]
      position_None [of "\<lambda>b. b = CHR '']''" "CHR ''['' # h"]
    by (auto split: option.splits)
  have start: "starts_with ''['' (host @ s)" for s using h by (simp add: starts_with_def)
  have cut: "drop (Suc (Suc (length h))) (host @ s) = s" "take (Suc (Suc (length h))) (host @ s) = host" for s
    using h by simp_all
  show "host_of host = host"
    using pos [of "[]"] start [of "[]"] cut [of "[]"] by (simp add: host_of_def)
  have "parse_u16 (show_dec port) \<noteq> None"
    using assms(2) parse_u16_digits [OF all_digits_show_dec] by (simp add: decimal_show_dec)
  then show "host_of (host @ '':'' @ show_dec port) = host"
    using pos [of "'':'' @ show_dec port"] start [of "'':'' @ show_dec port"] cut [of "'':'' @ show_dec port"]
      all_digits_show_dec [of port] strip_prefix_append [of "'':''" "show_dec port"]
    by (simp add: host_of_def Let_def)
qed

lemma strip_host_port:
  "(case Option.bind (strip_prefix host item) (strip_prefix '':'') of
      Some p \<Rightarrow> canonical_port p = Some port | None \<Rightarrow> False) \<longleftrightarrow>
     port < 65536 \<and> item = host @ '':'' @ show_dec port"
proof -
  have "Option.bind (strip_prefix host item) (strip_prefix '':'') = Some p \<longleftrightarrow> item = host @ '':'' @ p" for p
    by (auto simp: bind_eq_Some_conv strip_prefix_eq)
  then show ?thesis by (auto simp: canonical_port_iff split: option.splits) (metis option.exhaust)
qed

text \<open>
  Property C11. The two network gates agree: checking the text \<open>host:port\<close>, as a socket does, and
  checking the host and the port apart, as the HTTP clients do for every hop, give the same answer
  for every grant, port and host the clients can name: names, IPv4 addresses, bracketed IPv6
  literals and addresses with a zone.
\<close>

theorem net_gates_agree:
  assumes "plain_host host \<or> bracketed_host host \<or> CHR ''%'' \<in> set host" "port < 65536"
  shows "allows_net v (host @ '':'' @ show_dec port) = allows_net_target v host port"
proof (cases v)
  case (PList items)
  have "canonical_port (show_dec port) = Some port" using assms(2) by (simp add: canonical_port_iff)
  moreover have pct: "CHR ''%'' \<in> set (host @ '':'' @ show_dec port) \<longleftrightarrow> CHR ''%'' \<in> set host"
    using show_dec_no by auto
  moreover have "host_of host = host \<and> host_of (host @ '':'' @ show_dec port) = host \<and> host \<noteq> []"
    if "CHR ''%'' \<notin> set host"
    using assms that host_of_plain(1) [of host] host_of_plain(2) [of host port] host_of_bracketed [of host port]
    by (auto simp: plain_host_def bracketed_host_def)
  ultimately show ?thesis
    using assms(2) rsplit_host_port [of host port]
    by (cases "CHR ''%'' \<in> set host")
      (auto simp: PList allows_net_def allows_net_target_def strip_host_port)
qed (simp_all add: allows_net_def allows_net_target_def)

theorem net_gates_agree_witness:
  "allows_net (PList [''[::1]:8080'', ''a.example'']) (''[::1]'' @ '':'' @ show_dec 8080) \<and>
   \<not> allows_net (PList [''[::1]:8080'', ''a.example'']) (''[::1]'' @ '':'' @ show_dec 80) \<and>
   allows_net (PList [''[::1]:8080'', ''a.example'']) (''a.example'' @ '':'' @ show_dec 443)"
proof -
  have b: "bracketed_host ''[::1]''" unfolding bracketed_host_def by (intro exI [of _ "''::1''"]) simp
  have p: "plain_host ''a.example''" by (simp add: plain_host_def starts_with_def)
  have "allows_net_target (PList [''[::1]:8080'', ''a.example'']) ''[::1]'' 8080"
    "\<not> allows_net_target (PList [''[::1]:8080'', ''a.example'']) ''[::1]'' 80"
    "allows_net_target (PList [''[::1]:8080'', ''a.example'']) ''a.example'' 443"
    by code_simp+
  then show ?thesis
    by (simp only: net_gates_agree [OF disjI2 [OF disjI1 [OF b]]] net_gates_agree [OF disjI1 [OF p]]) simp
qed

section \<open>Windows targets\<close>

text \<open>The roots a grant can describe: a drive, or a share whose server is not spelled like a device.\<close>

definition grant_root :: "string \<Rightarrow> bool" where
  "grant_root dev \<longleftrightarrow> drive_device dev \<or>
     (unc_device dev \<and> dev ! 2 \<noteq> CHR ''?'' \<and> dev ! 2 \<noteq> CHR ''.'')"

lemma split_once_first: "b \<notin> set s \<Longrightarrow> split_once b (s @ b # r) = Some (s, r)"
proof -
  assume "b \<notin> set s"
  then have "position (\<lambda>x. x = b) s = None" by (auto simp: position_None)
  then show ?thesis by (simp add: split_once_def position_append)
qed

lemma real_comps_filter_split:
  assumes "real_comps comps"
  shows "filter (\<lambda>part. part \<noteq> []) (split_on (\<lambda>b. b = BS) (join [BS] comps)) = comps"
proof (cases "comps = []")
  case False
  have "split_on (\<lambda>b. b = BS) (join [BS] comps) = comps"
    using assms False by (intro split_on_join) (auto simp: real_comps_def plain_segs_def win_sep_def)
  moreover have "filter (\<lambda>part. part \<noteq> []) comps = comps"
    using assms by (auto simp: real_comps_def plain_segs_def filter_id_conv)
  ultimately show ?thesis by simp
qed simp

lemma real_comps_no_bad:
  "real_comps comps \<Longrightarrow> \<not> (\<exists>part \<in> set comps. part = ''.'' \<or> part = ''..'' \<or> SL \<in> set part)"
  by (auto simp: real_comps_def plain_segs_def win_sep_def)

lemma win_plain_key_canonical:
  assumes "drive_device dev \<or> unc_device dev" "real_comps comps"
  shows "win_plain_key (dev @ [BS] @ join [BS] comps) = Some \<lparr>fk_root = dev, fk_parts = comps\<rparr>"
  using assms(1)
proof
  assume "drive_device dev"
  then obtain c where c: "is_ascii_alphabetic c" "dev = [c, CHR '':'']" by (auto simp: drive_device_def)
  then show ?thesis
    using real_comps_filter_split [OF assms(2)] real_comps_no_bad [OF assms(2)]
    by (simp add: win_plain_key_def Let_def del: set_filter)
next
  assume "unc_device dev"
  then obtain srv sh where u: "plain_segs [srv, sh]" "srv \<noteq> ''.''" "srv \<noteq> ''?''"
    "dev = [BS, BS] @ srv @ [BS] @ sh" by (auto simp: unc_device_def)
  have bs: "BS \<notin> set srv" "BS \<notin> set sh" using u(1) by (auto simp: win_sep_def)
  have "splitn3 (srv @ [BS] @ sh @ [BS] @ join [BS] comps) = (srv, sh, join [BS] comps)"
    using bs by (simp add: splitn3_def split_once_first)
  moreover have "\<not> is_ascii_alphabetic BS" by (simp add: ascii_defs)
  ultimately show ?thesis
    using u real_comps_filter_split [OF assms(2)] real_comps_no_bad [OF assms(2)]
      strip_prefix_append [of "[BS, BS]" "srv @ [BS] @ sh @ [BS] @ join [BS] comps"]
    by (simp add: win_plain_key_def Let_def del: set_filter)
qed

lemma win_target_key_os_path:
  assumes "path \<noteq> []" "grant_root dev" "real_comps comps" "windows pl"
    "win_resolve pl path = dev @ [BS] @ join [BS] comps"
  shows "fs_target_key pl (fp_os (fs_path_new True (unwrap_or [] (current_dir pl)) (drive_dir pl) path)) =
    Some \<lparr>fk_root = dev, fk_parts = comps\<rparr>"
proof -
  let ?r = "dev @ [BS] @ join [BS] comps"
  have key: "win_plain_key ?r = Some \<lparr>fk_root = dev, fk_parts = comps\<rparr>"
    using assms(2,3) win_plain_key_canonical by (auto simp: grant_root_def)
  have os: "fp_os (fs_path_new True (unwrap_or [] (current_dir pl)) (drive_dir pl) path) =
      (if length ?r \<le> 2 then path
       else if ?r ! 0 = BS then
         (if ?r ! 1 = BS \<and> ?r ! 2 \<noteq> CHR ''?'' \<and> ?r ! 2 \<noteq> CHR ''.'' then verbatim_unc @ drop 2 ?r else ?r)
       else if is_ascii_alphabetic (?r ! 0) \<and> ?r ! 1 = CHR '':'' \<and> ?r ! 2 = BS then verbatim @ ?r else ?r)"
    using assms(1) assms(5) [unfolded win_resolve_def]
    by (simp only: fs_path_new_def fs_os_path_def fs_os_path_with_def Let_def fs_path.simps if_True if_False)
  show ?thesis
  proof (cases "drive_device dev")
    case True
    then obtain c where c: "is_ascii_alphabetic c" "dev = [c, CHR '':'']" by (auto simp: drive_device_def)
    then have "c \<noteq> BS" by (auto simp: ascii_defs)
    then have "fp_os (fs_path_new True (unwrap_or [] (current_dir pl)) (drive_dir pl) path) = verbatim @ ?r"
      unfolding os using c by simp
    moreover have "strip_prefix (''UNC'' @ [BS]) ?r = None" using c by (simp add: strip_prefix_def starts_with_def)
    ultimately show ?thesis
      using key assms(4) by (simp add: fs_target_key_def win_target_key_def strip_prefix_append)
  next
    case False
    then obtain a x where x: "dev = BS # BS # a # x" "a \<noteq> CHR ''?''" "a \<noteq> CHR ''.''"
      using assms(2) by (auto simp: grant_root_def unc_device_def neq_Nil_conv)
    have "fp_os (fs_path_new True (unwrap_or [] (current_dir pl)) (drive_dir pl) path) =
        verbatim @ (''UNC'' @ [BS]) @ (a # x) @ [BS] @ join [BS] comps"
      unfolding os using x by (simp add: verbatim_unc_def verbatim_def)
    then show ?thesis
      using key assms(4) x strip_prefix_append [of "''UNC'' @ [BS]" "(a # x) @ [BS] @ join [BS] comps"]
      by (simp add: fs_target_key_def win_target_key_def strip_prefix_append)
  qed
qed


definition win_demo :: platform where
  "win_demo = \<lparr>windows = True, current_dir = Some (''C:'' @ [BS] @ ''work''), drive_dir = (\<lambda>_. None),
     std_absolute = (\<lambda>_. None), std_has_root = (\<lambda>_. False), std_path_eq = (=)\<rparr>"


end
