(* ===== verification/Inflate.thy ===== *)
theory Inflate
  imports Oam_Prelude "HOL-Library.Code_Target_Nat" "HOL-Library.Sublist"
begin

unbundle bit_operations_syntax

text \<open>
  Inflate streams (\<open>crates/oam_core/src/inflate.rs\<close>): \<open>Inflater\<close>, a deflate decoder with its
  history held outside the decoder, and \<open>NodeInflate\<close>, node:zlib's gzip, zlib, raw and
  auto-detecting streams framed by hand.

  The decoder (\<open>miniz_oxide\<close>), its Adler-32 and the CRC (\<open>flate2::Crc\<close>) are the record \<open>codec\<close>, an
  argument of every operation that calls them; what the code relies on is \<open>decoder_ok\<close> and \<open>checks_ok\<close>. A call
  returns the new state and a result, an error included. \<open>NodeInflate::step\<close>'s loop is the total
  function \<open>node_loop\<close> over \<open>node_iter\<close>, one turn of it.

  The theorems: the history is always the last bytes of the output, and all of it while it is
  shorter than the window; the loop ends, never overruns its input and stalls only in the decoder; no reachable state hits the
  \<open>unreachable!\<close> arms; a gzip member or zlib stream completes only with its checks verified; the
  header machine reads every gzip header of RFC 1952 to its end.
\<close>

type_synonym bytes = "u8 list"

section \<open>The decoder\<close>

datatype tinfl_status = TDone | TNeedsMoreInput | THasMoreOutput | TAdler32Mismatch | TFailed | TOther

record ('c, 'r) codec =
  cd_default :: 'c
  cd_init :: "'c \<Rightarrow> 'c"
  cd_decompress :: "'c \<Rightarrow> bool \<Rightarrow> bytes \<Rightarrow> bytes \<Rightarrow> nat \<Rightarrow> tinfl_status \<times> nat \<times> nat \<times> 'c \<times> bytes"
  cd_adler :: "u32 \<Rightarrow> bytes \<Rightarrow> u32"
  cd_crc_new :: 'r
  cd_crc_update :: "'r \<Rightarrow> bytes \<Rightarrow> 'r"
  cd_crc_sum :: "'r \<Rightarrow> u32"
  cd_crc_amount :: "'r \<Rightarrow> u32"

definition WINDOW :: nat where "WINDOW = 32 * 1024"
definition STEP_OUT :: nat where "STEP_OUT = 16 * 1024"

datatype inflate_failure = DataCheck | TooFarBack | Invalid

record 'c inflater =
  inf_core :: 'c
  inf_hist :: bytes
  inf_pos :: nat
  inf_zlib :: bool

definition inflater_new :: "('c, 'r) codec \<Rightarrow> bool \<Rightarrow> 'c inflater" where
  "inflater_new lib zlib = \<lparr>inf_core = cd_default lib, inf_hist = replicate (WINDOW + STEP_OUT) 0,
     inf_pos = 0, inf_zlib = zlib\<rparr>"

definition inflater_reset :: "('c, 'r) codec \<Rightarrow> 'c inflater \<Rightarrow> 'c inflater" where
  "inflater_reset lib s = s\<lparr>inf_core := cd_init lib (inf_core s), inf_pos := 0\<rparr>"

definition inflater_prime :: "'c inflater \<Rightarrow> bytes \<Rightarrow> 'c inflater" where
  "inflater_prime s dictionary =
     (let tail = drop (length dictionary - WINDOW) dictionary
      in s\<lparr>inf_hist := tail @ drop (length tail) (inf_hist s), inf_pos := length tail\<rparr>)"

definition reaches_before_start ::
    "('c, 'r) codec \<Rightarrow> 'c inflater \<Rightarrow> 'c \<Rightarrow> bytes \<Rightarrow> nat \<Rightarrow> nat \<Rightarrow> bool" where
  "reaches_before_start lib s core src room produced =
     (let padded = replicate WINDOW 0 @ take (inf_pos s) (inf_hist s) @ replicate room 0;
          (status, _, rerun, _) = cd_decompress lib core (inf_zlib s) src padded (WINDOW + inf_pos s)
      in status \<noteq> TFailed \<or> produced < rerun)"

text \<open>Sliding the last window to the front when the next chunk would not fit.\<close>

definition slide :: "'c inflater \<Rightarrow> nat \<Rightarrow> 'c inflater" where
  "slide s room =
     (if length (inf_hist s) < inf_pos s + room then
        s\<lparr>inf_hist := take WINDOW (drop (inf_pos s - WINDOW) (inf_hist s)) @ drop WINDOW (inf_hist s),
          inf_pos := WINDOW\<rparr>
      else s)"

definition inflater_step ::
    "('c, 'r) codec \<Rightarrow> 'c inflater \<Rightarrow> bytes \<Rightarrow> nat \<Rightarrow> 'c inflater \<times> (inflate_failure + nat \<times> bytes \<times> bool)" where
  "inflater_step lib s src dst_len =
     (let room = min dst_len STEP_OUT;
          s1 = slide s room;
          before = (if inf_pos s1 < WINDOW then Some (inf_core s1) else None);
          (status, consumed, produced, core, buf) =
            cd_decompress lib (inf_core s1) (inf_zlib s1) src (take (inf_pos s1 + room) (inf_hist s1)) (inf_pos s1);
          s2 = s1\<lparr>inf_core := core, inf_hist := buf @ drop (inf_pos s1 + room) (inf_hist s1)\<rparr>
      in case status of
           TAdler32Mismatch \<Rightarrow> (s2, Inl DataCheck)
         | TDone \<Rightarrow> (s2\<lparr>inf_pos := inf_pos s1 + produced\<rparr>,
             Inr (consumed, take produced (drop (inf_pos s1) (inf_hist s2)), True))
         | TNeedsMoreInput \<Rightarrow> (s2\<lparr>inf_pos := inf_pos s1 + produced\<rparr>,
             Inr (consumed, take produced (drop (inf_pos s1) (inf_hist s2)), False))
         | THasMoreOutput \<Rightarrow> (s2\<lparr>inf_pos := inf_pos s1 + produced\<rparr>,
             Inr (consumed, take produced (drop (inf_pos s1) (inf_hist s2)), False))
         | _ \<Rightarrow> (s2, Inl (if (case before of
               Some c \<Rightarrow> reaches_before_start lib s2 c src room produced
             | None \<Rightarrow> False) then TooFarBack else Invalid)))"

section \<open>Errors and states\<close>

record zlib_error =
  ze_code :: string
  ze_errno :: int
  ze_message :: string

definition ze_data :: "string \<Rightarrow> zlib_error" where
  "ze_data message = \<lparr>ze_code = ''Z_DATA_ERROR'', ze_errno = - 3, ze_message = message\<rparr>"

definition UNEXPECTED_EOF :: zlib_error where
  "UNEXPECTED_EOF = \<lparr>ze_code = ''Z_BUF_ERROR'', ze_errno = - 5, ze_message = ''unexpected end of file''\<rparr>"

definition NEED_DICT :: zlib_error where
  "NEED_DICT = \<lparr>ze_code = ''Z_NEED_DICT'', ze_errno = 2, ze_message = ''Missing dictionary''\<rparr>"

definition BAD_DICT :: zlib_error where
  "BAD_DICT = \<lparr>ze_code = ''Z_NEED_DICT'', ze_errno = 2, ze_message = ''Bad dictionary''\<rparr>"

fun zlib_error_of_failure :: "inflate_failure \<Rightarrow> zlib_error" where
  "zlib_error_of_failure DataCheck = ze_data ''incorrect data check''"
| "zlib_error_of_failure TooFarBack = ze_data ''invalid distance too far back''"
| "zlib_error_of_failure Invalid = ze_data ''invalid deflate data''"

datatype wrap = WGzip | WZlib | WRaw | WAuto

definition GZ_FHCRC :: u8 where "GZ_FHCRC = 0x02"
definition GZ_FEXTRA :: u8 where "GZ_FEXTRA = 0x04"
definition GZ_FNAME :: u8 where "GZ_FNAME = 0x08"
definition GZ_FCOMMENT :: u8 where "GZ_FCOMMENT = 0x10"
definition GZ_RESERVED :: u8 where "GZ_RESERVED = 0xe0"
definition ZLIB_FDICT :: u8 where "ZLIB_FDICT = 0x20"

datatype at = Head0 | Head1 | DictId nat | GzCm | GzFlg | GzFixed nat | GzXlenLo | GzXlenHi
  | GzExtra nat | GzName | GzComment | GzHcrcLo | GzHcrcHi | Body | ZlibTrailer nat | GzTrailer nat
  | Between | Done

datatype 'r check = NoCheck | AdlerCheck u32 | CrcCheck 'r

record ('c, 'r) node_inflate =
  ni_wrap :: wrap
  ni_at :: at
  ni_members :: bool
  ni_inflate :: "'c inflater"
  ni_check :: "'r check"
  ni_header_crc :: 'r
  ni_held :: u8
  ni_flags :: u8
  ni_xlen :: u16
  ni_trailer :: bytes
  ni_dictionary :: "bytes option"

text \<open>A call fails with a zlib error, or panics in an \<open>unreachable!\<close> arm.\<close>

datatype fault = Zlib zlib_error | Unreachable

definition with_dictionary :: "('c, 'r) codec \<Rightarrow> wrap \<Rightarrow> bytes option \<Rightarrow> ('c, 'r) node_inflate" where
  "with_dictionary lib wrap dictionary =
     (let dictionary = (case dictionary of Some d \<Rightarrow> if d \<noteq> [] then Some d else None | None \<Rightarrow> None);
          inflate = inflater_new lib False;
          (inflate', kept) = (case (wrap, dictionary) of
              (WRaw, Some d) \<Rightarrow> (inflater_prime inflate d, None)
            | (WZlib, Some d) \<Rightarrow> (inflate, Some d)
            | (WAuto, Some d) \<Rightarrow> (inflate, Some d)
            | _ \<Rightarrow> (inflate, None))
      in \<lparr>ni_wrap = wrap, ni_at = (if wrap = WRaw then Body else Head0), ni_members = (wrap = WGzip),
          ni_inflate = inflate', ni_check = NoCheck, ni_header_crc = cd_crc_new lib, ni_held = 0,
          ni_flags = 0, ni_xlen = 0, ni_trailer = replicate 8 0, ni_dictionary = kept\<rparr>)"

definition node_new :: "('c, 'r) codec \<Rightarrow> wrap \<Rightarrow> ('c, 'r) node_inflate" where
  "node_new lib wrap = with_dictionary lib wrap None"

definition is_complete :: "('c, 'r) node_inflate \<Rightarrow> bool" where
  "is_complete s \<longleftrightarrow> ni_at s = Between \<or> ni_at s = Done"

definition node_finish :: "('c, 'r) node_inflate \<Rightarrow> zlib_error + unit" where
  "node_finish s = (if is_complete s then Inr () else Inl UNEXPECTED_EOF)"

section \<open>Header and trailer bytes\<close>

definition after_stream :: "('c, 'r) node_inflate \<Rightarrow> at" where
  "after_stream s = (if ni_members s then Between else Done)"

definition after_comment :: "('c, 'r) node_inflate \<Rightarrow> at" where
  "after_comment s = (if ni_flags s AND GZ_FHCRC \<noteq> 0 then GzHcrcLo else Body)"

definition after_name :: "('c, 'r) node_inflate \<Rightarrow> at" where
  "after_name s = (if ni_flags s AND GZ_FCOMMENT \<noteq> 0 then GzComment else after_comment s)"

definition after_extra :: "('c, 'r) node_inflate \<Rightarrow> at" where
  "after_extra s = (if ni_flags s AND GZ_FNAME \<noteq> 0 then GzName else after_name s)"

definition le32 :: "bytes \<Rightarrow> u32" where
  "le32 b = ucast (b ! 0) OR push_bit 8 (ucast (b ! 1)) OR push_bit 16 (ucast (b ! 2)) OR push_bit 24 (ucast (b ! 3))"

definition be32 :: "bytes \<Rightarrow> u32" where
  "be32 b = push_bit 24 (ucast (b ! 0)) OR push_bit 16 (ucast (b ! 1)) OR push_bit 8 (ucast (b ! 2)) OR ucast (b ! 3)"

definition le16 :: "u8 \<Rightarrow> u8 \<Rightarrow> u16" where
  "le16 lo hi = ucast lo OR push_bit 8 (ucast hi)"

definition zlib_header ::
    "('c, 'r) node_inflate \<Rightarrow> u8 \<Rightarrow> u8 \<Rightarrow> ('c, 'r) node_inflate \<times> (zlib_error + at)" where
  "zlib_header s cmf flg =
     (if (unat cmf * 256 + unat flg) mod 31 \<noteq> 0 then (s, Inl (ze_data ''incorrect header check''))
      else if cmf AND 0x0f \<noteq> 8 then (s, Inl (ze_data ''unknown compression method''))
      else if 15 < unat (drop_bit 4 cmf) + 8 then (s, Inl (ze_data ''invalid window size''))
      else if flg AND ZLIB_FDICT \<noteq> 0 then (s, Inr (DictId 0))
      else (s\<lparr>ni_check := AdlerCheck 1\<rparr>, Inr Body))"

definition preset_dictionary ::
    "('c, 'r) codec \<Rightarrow> ('c, 'r) node_inflate \<Rightarrow> ('c, 'r) node_inflate \<times> (zlib_error + at)" where
  "preset_dictionary lib s =
     (case ni_dictionary s of
        None \<Rightarrow> (s, Inl NEED_DICT)
      | Some dictionary \<Rightarrow>
          (let s1 = s\<lparr>ni_dictionary := None\<rparr> in
           if cd_adler lib 1 dictionary \<noteq> be32 (ni_trailer s) then (s1, Inl BAD_DICT)
           else (s1\<lparr>ni_inflate := inflater_prime (ni_inflate s) dictionary, ni_check := AdlerCheck 1\<rparr>,
                 Inr Body)))"

definition counts_in_header_crc :: "at \<Rightarrow> bool" where
  "counts_in_header_crc a = (case a of
     Head0 \<Rightarrow> True | Head1 \<Rightarrow> True | GzCm \<Rightarrow> True | GzFlg \<Rightarrow> True | GzFixed _ \<Rightarrow> True | GzXlenLo \<Rightarrow> True
   | GzXlenHi \<Rightarrow> True | GzExtra _ \<Rightarrow> True | GzName \<Rightarrow> True | GzComment \<Rightarrow> True | _ \<Rightarrow> False)"

definition put_trailer :: "('c, 'r) node_inflate \<Rightarrow> nat \<Rightarrow> u8 \<Rightarrow> ('c, 'r) node_inflate" where
  "put_trailer s n b = s\<lparr>ni_trailer := (ni_trailer s)[n := b]\<rparr>"

text \<open>The arms of \<open>header_byte\<close>'s match: the new state (without its \<open>at\<close>) and the next \<open>at\<close>.\<close>

definition header_arm ::
    "('c, 'r) codec \<Rightarrow> ('c, 'r) node_inflate \<Rightarrow> u8 \<Rightarrow> ('c, 'r) node_inflate \<times> (fault + at)" where
  "header_arm lib s b =
     (case ni_at s of
        Head0 \<Rightarrow> (s\<lparr>ni_held := b\<rparr>, Inr Head1)
      | Head1 \<Rightarrow>
          if (ni_wrap s = WGzip \<or> ni_wrap s = WAuto) \<and> ni_held s = 0x1f \<and> b = 0x8b then
            (s\<lparr>ni_members := True, ni_check := CrcCheck (cd_crc_new lib)\<rparr>, Inr GzCm)
          else if ni_wrap s = WGzip then (s, Inl (Zlib (ze_data ''incorrect header check'')))
          else (case zlib_header s (ni_held s) b of (s', r) \<Rightarrow> (s', map_sum Zlib id r))
      | DictId n \<Rightarrow>
          (let s1 = put_trailer s n b in
           if n < 3 then (s1, Inr (DictId (n + 1)))
           else (case preset_dictionary lib s1 of (s', r) \<Rightarrow> (s', map_sum Zlib id r)))
      | GzCm \<Rightarrow> (s\<lparr>ni_held := b\<rparr>, Inr GzFlg)
      | GzFlg \<Rightarrow>
          if ni_held s \<noteq> 8 then (s, Inl (Zlib (ze_data ''unknown compression method'')))
          else if b AND GZ_RESERVED \<noteq> 0 then (s, Inl (Zlib (ze_data ''unknown header flags set'')))
          else (s\<lparr>ni_flags := b\<rparr>, Inr (GzFixed 6))
      | GzFixed n \<Rightarrow>
          if 1 < n then (s, Inr (GzFixed (n - 1)))
          else if ni_flags s AND GZ_FEXTRA \<noteq> 0 then (s, Inr GzXlenLo)
          else (s, Inr (after_extra s))
      | GzXlenLo \<Rightarrow> (s\<lparr>ni_xlen := ucast b\<rparr>, Inr GzXlenHi)
      | GzXlenHi \<Rightarrow>
          (let s1 = s\<lparr>ni_xlen := ni_xlen s OR push_bit 8 (ucast b)\<rparr>
           in (s1, Inr (if ni_xlen s1 = 0 then after_extra s1 else GzExtra (unat (ni_xlen s1)))))
      | GzExtra n \<Rightarrow> (s, Inr (if 1 < n then GzExtra (n - 1) else after_extra s))
      | GzName \<Rightarrow> (s, Inr (if b \<noteq> 0 then GzName else after_name s))
      | GzComment \<Rightarrow> (s, Inr (if b \<noteq> 0 then GzComment else after_comment s))
      | GzHcrcLo \<Rightarrow> (s\<lparr>ni_held := b\<rparr>, Inr GzHcrcHi)
      | GzHcrcHi \<Rightarrow>
          if ucast (le16 (ni_held s) b) \<noteq> (cd_crc_sum lib (ni_header_crc s) AND 0xffff)
          then (s, Inl (Zlib (ze_data ''header crc mismatch''))) else (s, Inr Body)
      | ZlibTrailer n \<Rightarrow>
          (let s1 = put_trailer s n b in
           if n < 3 then (s1, Inr (ZlibTrailer (n + 1)))
           else if ni_check s1 \<noteq> AdlerCheck (be32 (ni_trailer s1))
           then (s1, Inl (Zlib (ze_data ''incorrect data check'')))
           else (s1, Inr (after_stream s1)))
      | GzTrailer n \<Rightarrow>
          (let s1 = put_trailer s n b in
           case ni_check s1 of
             CrcCheck crc \<Rightarrow>
               if n + 1 = 4 then
                 (if le32 (ni_trailer s1) \<noteq> cd_crc_sum lib crc
                  then (s1, Inl (Zlib (ze_data ''incorrect data check''))) else (s1, Inr (GzTrailer 4)))
               else if n + 1 = 8 then
                 (if le32 (drop 4 (ni_trailer s1)) \<noteq> cd_crc_amount lib crc
                  then (s1, Inl (Zlib (ze_data ''incorrect length check''))) else (s1, Inr (after_stream s1)))
               else (s1, Inr (GzTrailer (n + 1)))
           | _ \<Rightarrow> (s1, Inl Unreachable))
      | Body \<Rightarrow> (s, Inl Unreachable)
      | Between \<Rightarrow> (s, Inl Unreachable)
      | Done \<Rightarrow> (s, Inl Unreachable))"

definition header_byte ::
    "('c, 'r) codec \<Rightarrow> ('c, 'r) node_inflate \<Rightarrow> u8 \<Rightarrow> ('c, 'r) node_inflate \<times> (fault + unit)" where
  "header_byte lib s b =
     (let s0 = (if counts_in_header_crc (ni_at s)
          then s\<lparr>ni_header_crc := cd_crc_update lib (ni_header_crc s) [b]\<rparr> else s)
      in case header_arm lib s0 b of
           (s1, Inl e) \<Rightarrow> (s1, Inl e)
         | (s1, Inr a) \<Rightarrow> (s1\<lparr>ni_at := a\<rparr>, Inr ()))"

section \<open>The stream\<close>

definition feed_check :: "('c, 'r) codec \<Rightarrow> 'r check \<Rightarrow> bytes \<Rightarrow> 'r check" where
  "feed_check lib c out = (case c of
     NoCheck \<Rightarrow> NoCheck
   | AdlerCheck a \<Rightarrow> AdlerCheck (cd_adler lib a out)
   | CrcCheck r \<Rightarrow> CrcCheck (cd_crc_update lib r out))"

definition after_body :: "'r check \<Rightarrow> at" where
  "after_body c = (case c of NoCheck \<Rightarrow> Done | AdlerCheck _ \<Rightarrow> ZlibTrailer 0 | CrcCheck _ \<Rightarrow> GzTrailer 0)"

datatype outcome = Failed fault | Returned nat bytes | Continue nat

text \<open>One turn of the loop with \<open>consumed\<close> bytes of \<open>src\<close> used; it fails, returns or continues.\<close>

definition node_iter ::
    "('c, 'r) codec \<Rightarrow> bytes \<Rightarrow> nat \<Rightarrow> ('c, 'r) node_inflate \<Rightarrow> nat \<Rightarrow> ('c, 'r) node_inflate \<times> outcome" where
  "node_iter lib src dst_len s consumed =
     (case ni_at s of
        Done \<Rightarrow> (s, Returned (length src) [])
      | Body \<Rightarrow>
          (case inflater_step lib (ni_inflate s) (drop consumed src) dst_len of
             (i, Inl f) \<Rightarrow> (s\<lparr>ni_inflate := i\<rparr>, Failed (Zlib (zlib_error_of_failure f)))
           | (i, Inr (used, out, ended)) \<Rightarrow>
               (let c = feed_check lib (ni_check s) out;
                    s1 = s\<lparr>ni_inflate := i, ni_check := c\<rparr>;
                    s2 = (if ended then s1\<lparr>ni_at := after_body c\<rparr> else s1)
                in (s2, if out \<noteq> [] \<or> \<not> ended then Returned (consumed + used) out
                        else Continue (consumed + used))))
      | Between \<Rightarrow>
          if length src \<le> consumed then (s, Returned consumed [])
          else if src ! consumed = 0 then (s\<lparr>ni_at := Done\<rparr>, Continue consumed)
          else (s\<lparr>ni_at := Head0, ni_inflate := inflater_reset lib (ni_inflate s), ni_check := NoCheck,
                  ni_header_crc := cd_crc_new lib\<rparr>, Continue consumed)
      | _ \<Rightarrow>
          if length src \<le> consumed then (s, Returned consumed [])
          else (case header_byte lib s (src ! consumed) of
              (s', Inl e) \<Rightarrow> (s', Failed e)
            | (s', Inr _) \<Rightarrow> (s', Continue (consumed + 1))))"

fun at_rank :: "at \<Rightarrow> nat" where
  "at_rank Done = 0"
| "at_rank Between = 3"
| "at_rank Body = 2"
| "at_rank _ = 1"

lemma at_rank_le: "at_rank a \<le> 3"
  by (cases a) auto

lemma at_rank_header: "a \<noteq> Done \<Longrightarrow> a \<noteq> Between \<Longrightarrow> a \<noteq> Body \<Longrightarrow> at_rank a = 1"
  by (cases a) auto

lemma at_rank_after_body: "at_rank (after_body c) \<le> 1"
  by (cases c) (auto simp: after_body_def)

text \<open>The three kinds of turn, by where the stream is.\<close>

lemma node_iter_cases:
  obtains (over) "ni_at s = Done" | (body) "ni_at s = Body" | (between) "ni_at s = Between"
  | (header) "ni_at s \<noteq> Done" "ni_at s \<noteq> Body" "ni_at s \<noteq> Between" "at_rank (ni_at s) = 1"
      "node_iter lib src n s c =
        (if length src \<le> c then (s, Returned c [])
         else (case header_byte lib s (src ! c) of
              (s', Inl e) \<Rightarrow> (s', Failed e)
            | (s', Inr _) \<Rightarrow> (s', Continue (c + 1))))"
  by (cases "ni_at s") (auto simp: node_iter_def)

lemma node_iter_decreases:
  assumes "node_iter lib src n s c = (s', Continue c')"
  shows "4 * (length src - c') + at_rank (ni_at s') < 4 * (length src - c) + at_rank (ni_at s)"
proof (cases rule: node_iter_cases [where s = s and lib = lib and src = src and n = n and c = c])
  case over
  then show ?thesis using assms by (simp add: node_iter_def)
next
  case body
  obtain i r where step: "inflater_step lib (ni_inflate s) (drop c src) n = (i, r)" by fastforce
  then obtain used out ended where "r = Inr (used, out, ended)"
    using assms body by (cases r) (auto simp: node_iter_def)
  then have "c \<le> c'" "at_rank (ni_at s') \<le> 1"
    using assms body step at_rank_after_body by (auto simp: node_iter_def Let_def split: if_splits)
  moreover from \<open>c \<le> c'\<close> have "length src - c' \<le> length src - c" by simp
  ultimately show ?thesis using body by simp
next
  case between
  then show ?thesis using assms by (auto simp: node_iter_def split: if_splits)
next
  case header
  obtain s1 r where hb: "header_byte lib s (src ! c) = (s1, r)" by fastforce
  have "c < length src \<and> c' = c + 1"
    using assms unfolding header(5) hb by (cases "length src \<le> c"; cases r) simp_all
  then show ?thesis using at_rank_le [of "ni_at s'"] header(4) by linarith
qed

function node_loop ::
    "('c, 'r) codec \<Rightarrow> bytes \<Rightarrow> nat \<Rightarrow> ('c, 'r) node_inflate \<Rightarrow> nat \<Rightarrow> ('c, 'r) node_inflate \<times> (fault + nat \<times> bytes)"
  where
  "node_loop lib src dst_len s consumed =
     (case node_iter lib src dst_len s consumed of
        (s', Failed e) \<Rightarrow> (s', Inl e)
      | (s', Returned c out) \<Rightarrow> (s', Inr (c, out))
      | (s', Continue c) \<Rightarrow> node_loop lib src dst_len s' c)"
  by auto
termination
  by (relation "measure (\<lambda>(lib, src, n, s, c). 4 * (length src - c) + at_rank (ni_at s))")
    (auto simp: node_iter_decreases)

declare node_loop.simps [simp del]

definition node_step ::
    "('c, 'r) codec \<Rightarrow> ('c, 'r) node_inflate \<Rightarrow> bytes \<Rightarrow> nat \<Rightarrow> ('c, 'r) node_inflate \<times> (fault + nat \<times> bytes)" where
  "node_step lib s src dst_len = node_loop lib src dst_len s 0"

section \<open>What the code relies on\<close>

text \<open>
  The decoder reads no more than it is given, writes only after the position it is given, and keeps
  the size of its buffer (the documented contract of \<open>decompress\<close> in its non-wrapping mode).
\<close>

definition decoder_ok :: "('c, 'r) codec \<Rightarrow> bool" where
  "decoder_ok lib \<longleftrightarrow> (\<forall>core zlib src buf pos status c p core' buf'. pos \<le> length buf \<longrightarrow>
     cd_decompress lib core zlib src buf pos = (status, c, p, core', buf') \<longrightarrow>
     c \<le> length src \<and> pos + p \<le> length buf \<and> length buf' = length buf \<and> take pos buf' = take pos buf)"

lemma decoder_okD:
  "decoder_ok lib \<Longrightarrow> pos \<le> length buf \<Longrightarrow>
     cd_decompress lib core zlib src buf pos = (status, c, p, core', buf') \<Longrightarrow>
     c \<le> length src \<and> pos + p \<le> length buf \<and> length buf' = length buf \<and> take pos buf' = take pos buf"
  unfolding decoder_ok_def by blast

text \<open>The checksums are incremental: feeding two pieces is feeding their concatenation.\<close>

definition checks_ok :: "('c, 'r) codec \<Rightarrow> bool" where
  "checks_ok lib \<longleftrightarrow>
     (\<forall>r. cd_crc_update lib r [] = r) \<and>
     (\<forall>r xs ys. cd_crc_update lib (cd_crc_update lib r xs) ys = cd_crc_update lib r (xs @ ys)) \<and>
     (\<forall>a. cd_adler lib a [] = a) \<and>
     (\<forall>a xs ys. cd_adler lib (cd_adler lib a xs) ys = cd_adler lib a (xs @ ys))"

section \<open>The history\<close>

text \<open>
  The abstract decoder has produced \<open>out\<close> since its reset (a preset dictionary included); the
  concrete one holds its last \<open>inf_pos\<close> bytes, all of them unless that is a window or more.
\<close>

definition hist_ok :: "'c inflater \<Rightarrow> bytes \<Rightarrow> bool" where
  "hist_ok i out \<longleftrightarrow> length (inf_hist i) = WINDOW + STEP_OUT \<and> inf_pos i \<le> length (inf_hist i) \<and>
     inf_pos i \<le> length out \<and> take (inf_pos i) (inf_hist i) = drop (length out - inf_pos i) out \<and>
     (inf_pos i = length out \<or> WINDOW \<le> inf_pos i)"

lemma slide_hist:
  assumes "hist_ok i out" "room \<le> STEP_OUT"
  shows "hist_ok (slide i room) out \<and> inf_pos (slide i room) + room \<le> WINDOW + STEP_OUT \<and>
    inf_core (slide i room) = inf_core i \<and> inf_zlib (slide i room) = inf_zlib i"
proof (cases "length (inf_hist i) < inf_pos i + room")
  case True
  let ?p = "inf_pos i" and ?h = "inf_hist i"
  have p: "WINDOW \<le> ?p" "?p \<le> length ?h" "length ?h = WINDOW + STEP_OUT" "?p \<le> length out"
    "take ?p ?h = drop (length out - ?p) out"
    using assms True by (auto simp: hist_ok_def)
  have "take WINDOW (drop (?p - WINDOW) ?h) = drop (?p - WINDOW) (take ?p ?h)"
    using p(1) by (simp add: drop_take)
  also have "\<dots> = drop (?p - WINDOW) (drop (length out - ?p) out)" by (simp only: p(5))
  also have "\<dots> = drop (length out - WINDOW) out" using p(1,4) by simp
  finally show ?thesis
    using True p assms(2) by (auto simp: slide_def hist_ok_def)
next
  case False
  then show ?thesis using assms by (simp add: slide_def hist_ok_def)
qed

lemma inflater_step_hist:
  assumes lib: "decoder_ok lib" and i: "hist_ok i out"
    and step: "inflater_step lib i src n = (i', r)"
  shows "case r of
      Inl _ \<Rightarrow> hist_ok i' out
    | Inr (used, produced, _) \<Rightarrow> hist_ok i' (out @ produced) \<and> used \<le> length src \<and>
        length produced \<le> min n STEP_OUT"
proof -
  define room where "room = min n STEP_OUT"
  define i1 where "i1 = slide i room"
  have i1: "hist_ok i1 out" "inf_pos i1 + room \<le> WINDOW + STEP_OUT"
    using slide_hist [OF i, of room] by (auto simp: i1_def room_def)
  obtain status c p core buf where d: "cd_decompress lib (inf_core i1) (inf_zlib i1) src
      (take (inf_pos i1 + room) (inf_hist i1)) (inf_pos i1) = (status, c, p, core, buf)"
    by (metis prod_cases5)
  have len: "length (take (inf_pos i1 + room) (inf_hist i1)) = inf_pos i1 + room"
    using i1 by (simp add: hist_ok_def)
  then have "c \<le> length src \<and> p \<le> room \<and> length buf = inf_pos i1 + room \<and>
      take (inf_pos i1) buf = take (inf_pos i1) (inf_hist i1)"
    using decoder_okD [OF lib _ d] by simp
  then have c: "c \<le> length src" "p \<le> room" and buf: "length buf = inf_pos i1 + room"
      "take (inf_pos i1) buf = take (inf_pos i1) (inf_hist i1)" by auto
  define i2 where "i2 = i1\<lparr>inf_core := core, inf_hist := buf @ drop (inf_pos i1 + room) (inf_hist i1)\<rparr>"
  have i2: "hist_ok i2 out" "inf_pos i2 = inf_pos i1" "inf_hist i2 = buf @ drop (inf_pos i1 + room) (inf_hist i1)"
    using i1 buf by (auto simp: i2_def hist_ok_def)
  define made where "made = take p (drop (inf_pos i1) (inf_hist i2))"
  have made: "length made = p" "take (inf_pos i1 + p) (inf_hist i2) = take (inf_pos i1) (inf_hist i2) @ made"
    using c(2) buf i2(3) i1 by (auto simp: made_def take_add hist_ok_def)
  have grown: "hist_ok (i2\<lparr>inf_pos := inf_pos i1 + p\<rparr>) (out @ made)"
    using i2 made i1(2) c(2) by (auto simp: hist_ok_def)
  have "status = TDone \<or> status = TNeedsMoreInput \<or> status = THasMoreOutput \<longrightarrow>
      i' = i2\<lparr>inf_pos := inf_pos i1 + p\<rparr> \<and> (\<exists>e. r = Inr (c, made, e))"
    "\<not> (status = TDone \<or> status = TNeedsMoreInput \<or> status = THasMoreOutput) \<longrightarrow> i' = i2 \<and> (\<exists>f. r = Inl f)"
    using step d unfolding inflater_step_def Let_def room_def [symmetric] i1_def [symmetric]
    by (auto simp: i2_def made_def split: tinfl_status.splits)
  then show ?thesis
    using grown i2(1) c made(1) room_def by auto
qed

text \<open>Everything that can happen to an \<open>Inflater\<close>, with the bytes it has produced since its reset.\<close>

inductive inflater_run :: "('c, 'r) codec \<Rightarrow> 'c inflater \<Rightarrow> bytes \<Rightarrow> bool" for lib where
  new: "inflater_run lib (inflater_new lib zlib) []"
| prime: "inflater_run lib i [] \<Longrightarrow> inflater_run lib (inflater_prime i dictionary) dictionary"
| reset: "inflater_run lib i out \<Longrightarrow> inflater_run lib (inflater_reset lib i) []"
| step: "inflater_run lib i out \<Longrightarrow> inflater_step lib i src n = (i', Inr (used, produced, ended)) \<Longrightarrow>
    inflater_run lib i' (out @ produced)"
| failed: "inflater_run lib i out \<Longrightarrow> inflater_step lib i src n = (i', Inl f) \<Longrightarrow> inflater_run lib i' out"

lemma hist_ok_new: "hist_ok (inflater_new lib zlib) []"
  by (simp add: hist_ok_def inflater_new_def)

lemma hist_ok_reset: "hist_ok i out \<Longrightarrow> hist_ok (inflater_reset lib i) []"
  by (simp add: hist_ok_def inflater_reset_def)

lemma hist_ok_prime: "length (inf_hist i) = WINDOW + STEP_OUT \<Longrightarrow> hist_ok (inflater_prime i d) d"
  by (auto simp: hist_ok_def inflater_prime_def Let_def)

lemma inflater_run_hist:
  assumes "inflater_run lib i out" "decoder_ok lib"
  shows "hist_ok i out"
  using assms(1)
proof (induction rule: inflater_run.induct)
  case (prime i dictionary)
  then show ?case by (intro hist_ok_prime) (simp add: hist_ok_def)
next
  case (step i out src n i' used produced ended)
  then show ?case using inflater_step_hist [OF assms(2) step.IH step.hyps(2)] by simp
next
  case (failed i out src n i' f)
  then show ?case using inflater_step_hist [OF assms(2) failed.IH failed.hyps(2)] by simp
qed (auto simp: hist_ok_new hist_ok_reset)

section \<open>The stream's invariant\<close>

definition check_inv :: "('c, 'r) codec \<Rightarrow> ('c, 'r) node_inflate \<Rightarrow> bytes \<Rightarrow> bool" where
  "check_inv lib s m = (case ni_check s of
     NoCheck \<Rightarrow> ni_wrap s = WRaw
   | AdlerCheck a \<Rightarrow> a = cd_adler lib 1 m
   | CrcCheck r \<Rightarrow> r = cd_crc_update lib (cd_crc_new lib) m)"

text \<open>The trailer in hand is the one the body calls for.\<close>

definition verified :: "('c, 'r) codec \<Rightarrow> ('c, 'r) node_inflate \<Rightarrow> bytes \<Rightarrow> bool" where
  "verified lib s m = (case ni_check s of
     NoCheck \<Rightarrow> ni_wrap s = WRaw
   | AdlerCheck a \<Rightarrow> a = cd_adler lib 1 m \<and> be32 (ni_trailer s) = a
   | CrcCheck r \<Rightarrow> r = cd_crc_update lib (cd_crc_new lib) m \<and> le32 (ni_trailer s) = cd_crc_sum lib r \<and>
       le32 (drop 4 (ni_trailer s)) = cd_crc_amount lib r)"

definition gz_start :: "('c, 'r) codec \<Rightarrow> ('c, 'r) node_inflate \<Rightarrow> bytes \<Rightarrow> bool" where
  "gz_start lib s m \<longleftrightarrow> m = [] \<and> ni_check s = CrcCheck (cd_crc_new lib)"

definition at_inv :: "('c, 'r) codec \<Rightarrow> ('c, 'r) node_inflate \<Rightarrow> bytes \<Rightarrow> bool" where
  "at_inv lib s m = (case ni_at s of
     Head0 \<Rightarrow> m = [] \<and> ni_check s = NoCheck
   | Head1 \<Rightarrow> m = [] \<and> ni_check s = NoCheck
   | DictId n \<Rightarrow> n < 4 \<and> m = [] \<and> ni_check s = NoCheck
   | Body \<Rightarrow> check_inv lib s m
   | ZlibTrailer n \<Rightarrow> n < 4 \<and> ni_check s = AdlerCheck (cd_adler lib 1 m)
   | GzTrailer n \<Rightarrow> n < 8 \<and> ni_check s = CrcCheck (cd_crc_update lib (cd_crc_new lib) m) \<and>
       (4 \<le> n \<longrightarrow> le32 (ni_trailer s) = cd_crc_sum lib (cd_crc_update lib (cd_crc_new lib) m))
   | Between \<Rightarrow> verified lib s m \<and> ni_check s \<noteq> NoCheck
   | Done \<Rightarrow> verified lib s m
   | _ \<Rightarrow> gz_start lib s m)"

definition node_inv :: "('c, 'r) codec \<Rightarrow> ('c, 'r) node_inflate \<Rightarrow> bytes \<Rightarrow> bool" where
  "node_inv lib s m \<longleftrightarrow> (\<exists>out. hist_ok (ni_inflate s) out) \<and> length (ni_trailer s) = 8 \<and> at_inv lib s m"

lemma le32_update: "4 \<le> n \<Longrightarrow> le32 (xs[n := b]) = le32 xs"
  by (simp add: le32_def)

lemma at_inv_gz:
  assumes "gz_start lib s m" "a \<in> {GzCm, GzFlg, GzFixed n, GzXlenLo, GzXlenHi, GzExtra n, GzName,
    GzComment, GzHcrcLo, GzHcrcHi}"
  shows "at_inv lib (s\<lparr>ni_at := a\<rparr>) m"
  using assms by (auto simp: at_inv_def gz_start_def)

lemma gz_start_body: "checks_ok lib \<Longrightarrow> gz_start lib s m \<Longrightarrow> at_inv lib (s\<lparr>ni_at := Body\<rparr>) m"
  by (simp add: at_inv_def gz_start_def check_inv_def checks_ok_def)

lemma at_inv_after:
  assumes "checks_ok lib" "gz_start lib s m"
  shows "at_inv lib (s\<lparr>ni_at := after_comment s\<rparr>) m" "at_inv lib (s\<lparr>ni_at := after_name s\<rparr>) m"
    "at_inv lib (s\<lparr>ni_at := after_extra s\<rparr>) m"
  using gz_start_body [OF assms] at_inv_gz [OF assms(2)]
  by (auto simp: after_comment_def after_name_def after_extra_def)

lemma gz_start_frame [simp]:
  "gz_start lib (s\<lparr>ni_held := x\<rparr>) m = gz_start lib s m"
  "gz_start lib (s\<lparr>ni_flags := x\<rparr>) m = gz_start lib s m"
  "gz_start lib (s\<lparr>ni_xlen := y\<rparr>) m = gz_start lib s m"
  "gz_start lib (s\<lparr>ni_header_crc := r\<rparr>) m = gz_start lib s m"
  "gz_start lib (s\<lparr>ni_at := a\<rparr>) m = gz_start lib s m"
  by (simp_all add: gz_start_def)

lemma header_crc_frame:
  "node_inv lib (s\<lparr>ni_header_crc := r\<rparr>) m = node_inv lib s m"
  by (simp add: node_inv_def at_inv_def check_inv_def verified_def split: at.splits check.splits)

text \<open>What a header byte leaves alone, and what it needs of the state it is given.\<close>

definition framed :: "('c, 'r) node_inflate \<Rightarrow> bool" where
  "framed s \<longleftrightarrow> (\<exists>out. hist_ok (ni_inflate s) out) \<and> length (ni_trailer s) = 8"

lemma node_inv_framed: "node_inv lib s m \<longleftrightarrow> framed s \<and> at_inv lib s m"
  by (simp add: node_inv_def framed_def)

lemma framed_frame [simp]:
  "framed (s\<lparr>ni_at := a\<rparr>) = framed s" "framed (s\<lparr>ni_held := x\<rparr>) = framed s"
  "framed (s\<lparr>ni_flags := x\<rparr>) = framed s" "framed (s\<lparr>ni_xlen := y\<rparr>) = framed s"
  "framed (s\<lparr>ni_check := c\<rparr>) = framed s" "framed (s\<lparr>ni_members := g\<rparr>) = framed s"
  "framed (s\<lparr>ni_dictionary := d\<rparr>) = framed s" "framed (s\<lparr>ni_header_crc := r\<rparr>) = framed s"
  "framed (put_trailer s n b) = framed s"
  by (simp_all add: framed_def put_trailer_def)

lemma put_trailer_fields [simp]:
  "ni_check (put_trailer s n b) = ni_check s" "ni_wrap (put_trailer s n b) = ni_wrap s"
  "ni_inflate (put_trailer s n b) = ni_inflate s" "ni_at (put_trailer s n b) = ni_at s"
  "ni_members (put_trailer s n b) = ni_members s"
  "ni_trailer (put_trailer s n b) = (ni_trailer s)[n := b]"
  by (simp_all add: put_trailer_def)

lemma framed_prime: "framed s \<Longrightarrow> framed (s\<lparr>ni_inflate := inflater_prime (ni_inflate s) d\<rparr>)"
  using hist_ok_prime [of "ni_inflate s" d] by (auto simp: framed_def hist_ok_def)

lemma zlib_header_inv:
  assumes "checks_ok lib" "framed s" "ni_check s = NoCheck" "zlib_header s cmf flg = (s', Inr a)"
  shows "node_inv lib (s'\<lparr>ni_at := a\<rparr>) []"
  using assms
  by (auto simp: zlib_header_def node_inv_framed at_inv_def check_inv_def checks_ok_def split: if_splits)

lemma preset_dictionary_inv:
  assumes "checks_ok lib" "framed s" "preset_dictionary lib s = (s', Inr a)"
  shows "node_inv lib (s'\<lparr>ni_at := a\<rparr>) []"
  using assms framed_prime [OF assms(2)]
  by (auto simp: preset_dictionary_def node_inv_framed at_inv_def check_inv_def checks_ok_def framed_def Let_def
      split: if_splits option.splits)

lemma after_stream_inv:
  assumes "framed s" "verified lib s m" "ni_check s \<noteq> NoCheck"
  shows "node_inv lib (s\<lparr>ni_at := after_stream s\<rparr>) m"
  using assms by (cases "ni_check s") (auto simp: node_inv_framed at_inv_def verified_def after_stream_def)

definition gz_at :: "at \<Rightarrow> bool" where
  "gz_at a = (case a of GzCm \<Rightarrow> True | GzFlg \<Rightarrow> True | GzFixed _ \<Rightarrow> True | GzXlenLo \<Rightarrow> True | GzXlenHi \<Rightarrow> True
   | GzExtra _ \<Rightarrow> True | GzName \<Rightarrow> True | GzComment \<Rightarrow> True | GzHcrcLo \<Rightarrow> True | GzHcrcHi \<Rightarrow> True | _ \<Rightarrow> False)"

lemma node_inv_gz: "framed s \<Longrightarrow> gz_start lib s m \<Longrightarrow> gz_at a \<Longrightarrow> node_inv lib (s\<lparr>ni_at := a\<rparr>) m"
  by (cases a) (auto simp: node_inv_framed at_inv_def gz_at_def)

lemma header_arm_gz:
  assumes "checks_ok lib" "framed s" "gz_start lib s m" "gz_at (ni_at s)" "header_arm lib s b = (s1, r)"
  shows "case r of Inl e \<Rightarrow> e \<noteq> Unreachable | Inr a \<Rightarrow> node_inv lib (s1\<lparr>ni_at := a\<rparr>) m"
proof -
  have after: "node_inv lib (t\<lparr>ni_at := after_comment t\<rparr>) m" "node_inv lib (t\<lparr>ni_at := after_name t\<rparr>) m"
      "node_inv lib (t\<lparr>ni_at := after_extra t\<rparr>) m" "node_inv lib (t\<lparr>ni_at := Body\<rparr>) m"
    if "framed t" "gz_start lib t m" for t :: "('a, 'b) node_inflate"
    using that at_inv_after [OF assms(1)] gz_start_body [OF assms(1)] by (auto simp: node_inv_framed)
  note gz = node_inv_gz [of _ lib m]
  show ?thesis
    using assms(2-5)
    by (cases "ni_at s") (auto simp: header_arm_def gz_at_def Let_def after gz split: if_splits)
qed

lemma header_arm_inv:
  assumes "checks_ok lib" "node_inv lib s m" "ni_at s \<noteq> Body" "ni_at s \<noteq> Between" "ni_at s \<noteq> Done"
    "header_arm lib s b = (s1, r)"
  shows "case r of Inl e \<Rightarrow> e \<noteq> Unreachable | Inr a \<Rightarrow> node_inv lib (s1\<lparr>ni_at := a\<rparr>) m"
proof -
  have fr: "framed s" and at: "at_inv lib s m" using assms(2) by (auto simp: node_inv_framed)
  consider (head0) "ni_at s = Head0" | (head1) "ni_at s = Head1" | (dict) n where "ni_at s = DictId n"
    | (zt) n where "ni_at s = ZlibTrailer n" | (gt) n where "ni_at s = GzTrailer n" | (gz) "gz_at (ni_at s)"
    using assms(3-5) by (cases "ni_at s") (auto simp: gz_at_def)
  then show ?thesis
  proof cases
    case head0
    then show ?thesis using at fr assms(6) by (auto simp: header_arm_def node_inv_framed at_inv_def)
  next
    case head1
    have m: "m = []" "ni_check s = NoCheck" using at head1 by (auto simp: at_inv_def)
    obtain s' q where z: "zlib_header s (ni_held s) b = (s', q)" by fastforce
    show ?thesis
      using assms(6) head1 m fr z zlib_header_inv [OF assms(1) fr m(2), of "ni_held s" b s'] assms(1)
      by (cases q) (auto simp: header_arm_def node_inv_framed at_inv_def gz_start_def split: if_splits)
  next
    case dict
    have m: "m = []" "n < 4" "ni_check s = NoCheck" using at dict by (auto simp: at_inv_def)
    obtain s' q where z: "preset_dictionary lib (put_trailer s n b) = (s', q)" by fastforce
    show ?thesis
      using assms(6) dict m fr z preset_dictionary_inv [OF assms(1), of "put_trailer s n b" s']
      by (cases q)
        (auto simp: header_arm_def node_inv_framed at_inv_def Let_def
          split: if_splits)
  next
    case zt
    have m: "n < 4" "ni_check s = AdlerCheck (cd_adler lib 1 m)" using at zt by (auto simp: at_inv_def)
    let ?t = "put_trailer s n b"
    have c: "ni_check ?t = AdlerCheck (cd_adler lib 1 m)" "framed ?t" using m fr by auto
    have "be32 (ni_trailer ?t) = cd_adler lib 1 m \<Longrightarrow> node_inv lib (?t\<lparr>ni_at := after_stream ?t\<rparr>) m"
      using c by (intro after_stream_inv) (auto simp: verified_def)
    then show ?thesis
      using assms(6) zt m c by (auto simp: header_arm_def Let_def node_inv_framed at_inv_def split: if_splits)
  next
    case gt
    let ?r = "cd_crc_update lib (cd_crc_new lib) m" and ?t = "put_trailer s n b"
    have m: "n < 8" "ni_check s = CrcCheck ?r" "4 \<le> n \<Longrightarrow> le32 (ni_trailer s) = cd_crc_sum lib ?r"
      using at gt by (auto simp: at_inv_def)
    have c: "ni_check ?t = CrcCheck ?r" "framed ?t" "4 \<le> n \<Longrightarrow> le32 (ni_trailer ?t) = cd_crc_sum lib ?r"
      using m fr by (auto simp: le32_update)
    have "n = 7 \<Longrightarrow> le32 (drop 4 (ni_trailer ?t)) = cd_crc_amount lib ?r \<Longrightarrow>
        node_inv lib (?t\<lparr>ni_at := after_stream ?t\<rparr>) m"
      using c by (intro after_stream_inv) (auto simp: verified_def)
    then show ?thesis
      using assms(6) gt m c by (auto simp: header_arm_def Let_def node_inv_framed at_inv_def split: if_splits)
  next
    case gz
    then have "gz_start lib s m" using at by (cases "ni_at s") (auto simp: gz_at_def at_inv_def)
    then show ?thesis using header_arm_gz [OF assms(1) fr _ gz assms(6)] by blast
  qed
qed


lemma header_arm_members:
  assumes "header_arm lib s b = (s1, Inr a)" "at_inv lib s m" "ni_at s \<noteq> Body" "ni_at s \<noteq> Between" "ni_at s \<noteq> Done"
  shows "(ni_members s1 = ni_members s \<or> ni_members s1 \<and> m = []) \<and> (a = Between \<longrightarrow> ni_members s1)"
  using assms
  by (cases "ni_at s")
    (auto simp: header_arm_def Let_def zlib_header_def preset_dictionary_def after_stream_def after_comment_def
      after_name_def after_extra_def at_inv_def gz_start_def split: if_splits option.splits check.splits)

text \<open>
  The stream has produced \<open>whole\<close>; the bytes \<open>m\<close> of the member it is in end it, and they are all of
  it where there is one member only.
\<close>

definition stream_inv :: "('c, 'r) codec \<Rightarrow> ('c, 'r) node_inflate \<Rightarrow> bytes \<Rightarrow> bytes \<Rightarrow> bool" where
  "stream_inv lib s m whole \<longleftrightarrow> node_inv lib s m \<and> suffix m whole \<and>
     (\<not> ni_members s \<longrightarrow> m = whole \<and> ni_at s \<noteq> Between)"

lemma header_byte_stream:
  assumes "checks_ok lib" "stream_inv lib s m whole" "ni_at s \<noteq> Body" "ni_at s \<noteq> Between" "ni_at s \<noteq> Done"
    "header_byte lib s b = (s', r)"
  shows "case r of Inl e \<Rightarrow> e \<noteq> Unreachable | Inr _ \<Rightarrow> stream_inv lib s' m whole"
proof -
  define s0 where "s0 = (if counts_in_header_crc (ni_at s)
    then s\<lparr>ni_header_crc := cd_crc_update lib (ni_header_crc s) [b]\<rparr> else s)"
  have s0: "node_inv lib s0 m" "ni_at s0 = ni_at s" "ni_members s0 = ni_members s"
    using assms(2) by (auto simp: s0_def stream_inv_def header_crc_frame)
  obtain s1 q where arm: "header_arm lib s0 b = (s1, q)" by fastforce
  have inv: "case q of Inl e \<Rightarrow> e \<noteq> Unreachable | Inr a \<Rightarrow> node_inv lib (s1\<lparr>ni_at := a\<rparr>) m"
    using header_arm_inv [OF assms(1) s0(1) _ _ _ arm] assms(3-5) s0(2) by simp
  show ?thesis
  proof (cases q)
    case (Inl e)
    then show ?thesis using inv assms(6) arm by (auto simp: header_byte_def s0_def [symmetric])
  next
    case (Inr a)
    have "s' = s1\<lparr>ni_at := a\<rparr>" "r = Inr ()"
      using assms(6) arm Inr by (auto simp: header_byte_def s0_def [symmetric])
    moreover have "(ni_members s1 = ni_members s \<or> ni_members s1 \<and> m = []) \<and> (a = Between \<longrightarrow> ni_members s1)"
      using header_arm_members [OF arm [unfolded Inr], of m] s0 assms(3-5) by (simp add: node_inv_framed)
    ultimately show ?thesis using inv Inr assms(2) by (auto simp: stream_inv_def)
  qed
qed

lemma body_stream:
  assumes "decoder_ok lib" "checks_ok lib" "stream_inv lib s m whole" "ni_at s = Body"
    "inflater_step lib (ni_inflate s) src n = (i, Inr (used, produced, ended))"
    "s1 = s\<lparr>ni_inflate := i, ni_check := feed_check lib (ni_check s) produced\<rparr>"
    "s2 = (if ended then s1\<lparr>ni_at := after_body (ni_check s1)\<rparr> else s1)"
  shows "stream_inv lib s2 (m @ produced) (whole @ produced) \<and> used \<le> length src \<and>
    length produced \<le> min n STEP_OUT"
proof -
  obtain out where "hist_ok (ni_inflate s) out" using assms(3) by (auto simp: stream_inv_def node_inv_def)
  from inflater_step_hist [OF assms(1) this assms(5)]
  have step: "hist_ok i (out @ produced)" "used \<le> length src" "length produced \<le> min n STEP_OUT" by auto
  have "check_inv lib s m" using assms(3,4) by (simp add: stream_inv_def node_inv_def at_inv_def)
  then have "check_inv lib s1 (m @ produced)"
    using assms(2) by (auto simp: assms(6) check_inv_def feed_check_def checks_ok_def split: check.splits)
  then have "at_inv lib s2 (m @ produced)"
    using assms(4,6,7)
    by (auto simp: at_inv_def check_inv_def verified_def after_body_def split: check.splits)
  moreover have "suffix (m @ produced) (whole @ produced)" using assms(3) by (auto simp: stream_inv_def suffix_def)
  moreover have "ni_at s2 \<noteq> Between" using assms(4,6,7) by (auto simp: after_body_def split: check.splits)
  ultimately show ?thesis
    using step assms(3,6,7) by (auto simp: stream_inv_def node_inv_def)
qed

text \<open>One turn of the loop.\<close>

lemma node_iter_stream:
  assumes "decoder_ok lib" "checks_ok lib" "stream_inv lib s m whole" "c \<le> length src"
    "node_iter lib src n s c = (s', r)"
  shows "case r of
      Failed e \<Rightarrow> e \<noteq> Unreachable
    | Returned c' out \<Rightarrow> c \<le> c' \<and> c' \<le> length src \<and> length out \<le> min n STEP_OUT \<and>
        (\<exists>m'. stream_inv lib s' m' (whole @ out))
    | Continue c' \<Rightarrow> c \<le> c' \<and> c' \<le> length src \<and> (\<exists>m'. stream_inv lib s' m' whole)"
proof (cases rule: node_iter_cases [where s = s and lib = lib and src = src and n = n and c = c])
  case over
  then show ?thesis using assms(3,4,5) by (auto simp: node_iter_def)
next
  case body
  obtain i q where step: "inflater_step lib (ni_inflate s) (drop c src) n = (i, q)" by fastforce
  show ?thesis
  proof (cases q)
    case (Inl f)
    then show ?thesis using assms(5) body step by (auto simp: node_iter_def)
  next
    case (Inr u)
    then obtain used produced ended where q: "q = Inr (used, produced, ended)" by (cases u) auto
    define s1 where "s1 = s\<lparr>ni_inflate := i, ni_check := feed_check lib (ni_check s) produced\<rparr>"
    define s2 where "s2 = (if ended then s1\<lparr>ni_at := after_body (ni_check s1)\<rparr> else s1)"
    have "stream_inv lib s2 (m @ produced) (whole @ produced)" "used \<le> length (drop c src)"
        "length produced \<le> min n STEP_OUT"
      using body_stream [OF assms(1,2,3) body step [unfolded q] s1_def s2_def] by auto
    moreover have "s' = s2" "r = (if produced \<noteq> [] \<or> \<not> ended then Returned (c + used) produced
        else Continue (c + used))"
      using assms(5) body step q by (auto simp: node_iter_def Let_def s1_def s2_def)
    ultimately show ?thesis using assms(4) by (auto split: if_splits)
  qed
next
  case between
  obtain out where h: "hist_ok (ni_inflate s) out" using assms(3) by (auto simp: stream_inv_def node_inv_def)
  have mem: "ni_members s" "verified lib s m" "length (ni_trailer s) = 8" "suffix m whole"
    using assms(3) between by (auto simp: stream_inv_def node_inv_def at_inv_def)
  show ?thesis
  proof (cases "c < length src \<and> src ! c \<noteq> 0")
    case True
    then have "stream_inv lib s' [] whole \<and> r = Continue c"
      using assms(5) between mem hist_ok_reset [OF h, of lib]
      by (auto simp: node_iter_def stream_inv_def node_inv_def at_inv_def)
    then show ?thesis using assms(4) by auto
  next
    case False
    then have "stream_inv lib s' m whole \<and> (r = Continue c \<or> r = Returned c [])"
      using assms(3,5) between mem
      by (auto simp: node_iter_def stream_inv_def node_inv_def at_inv_def verified_def split: if_splits check.splits)
    then show ?thesis using assms(4) by auto
  qed
next
  case header
  obtain s1 q where hb: "header_byte lib s (src ! c) = (s1, q)" by fastforce
  have "case q of Inl e \<Rightarrow> e \<noteq> Unreachable | Inr _ \<Rightarrow> stream_inv lib s1 m whole"
    using header_byte_stream [OF assms(2,3) header(2,3,1) hb] by simp
  then show ?thesis
    using assms(3,4,5) unfolding header(5) hb by (cases "length src \<le> c"; cases q) auto
qed


lemma node_loop_stream:
  assumes "decoder_ok lib" "checks_ok lib" "stream_inv lib s m whole" "c \<le> length src"
    "node_loop lib src n s c = (s', r)"
  shows "case r of
      Inl e \<Rightarrow> e \<noteq> Unreachable
    | Inr (c', out) \<Rightarrow> c \<le> c' \<and> c' \<le> length src \<and> length out \<le> min n STEP_OUT \<and>
        (\<exists>m'. stream_inv lib s' m' (whole @ out))"
  using assms
proof (induction lib src n s c arbitrary: m rule: node_loop.induct)
  case (1 lib src n s c)
  obtain s1 q where it: "node_iter lib src n s c = (s1, q)" by fastforce
  note turn = node_iter_stream [OF 1(2-5) it]
  show ?case
  proof (cases q)
    case (Continue c1)
    then obtain m1 where "stream_inv lib s1 m1 whole" "c \<le> c1" "c1 \<le> length src" using turn by auto
    moreover have "node_loop lib src n s1 c1 = (s', r)"
      using 1(6) it Continue by (simp add: node_loop.simps [of lib src n s c])
    ultimately show ?thesis
      using 1(1) [OF it [symmetric] Continue 1(2,3), of m1] by (cases r) force+
  qed (use 1(6) it turn in \<open>auto simp: node_loop.simps [of lib src n s c]\<close>)
qed

lemma node_loop_mono: "node_loop lib src n s c = (s', Inr (c', out)) \<Longrightarrow> min c (length src) \<le> c'"
proof (induction lib src n s c rule: node_loop.induct)
  case (1 lib src n s c)
  obtain s1 q where it: "node_iter lib src n s c = (s1, q)" by fastforce
  have "case q of Failed _ \<Rightarrow> True | Returned c1 out1 \<Rightarrow> min c (length src) \<le> c1 | Continue c1 \<Rightarrow> c \<le> c1"
    using it by (auto simp: node_iter_def Let_def split: at.splits if_splits prod.splits sum.splits)
  then show ?case
    using 1(1) [OF it [symmetric]] 1(2) it
    by (cases q) (fastforce simp: node_loop.simps [of lib src n s c])+
qed

text \<open>Where the input is not empty, a call that neither reads nor writes was in the body all along.\<close>

lemma node_loop_stall:
  assumes "c < length src" "node_loop lib src n s c = (s', Inr (c', out))"
  shows "c \<le> c' \<and> (c' = c \<and> out = [] \<longrightarrow> ni_at s = Body \<and> ni_at s' = Body)"
  using assms
proof (induction lib src n s c rule: node_loop.induct)
  case (1 lib src n s c)
  obtain s1 q where it: "node_iter lib src n s c = (s1, q)" by fastforce
  have turn: "case q of Failed _ \<Rightarrow> True
      | Returned c1 out1 \<Rightarrow> c \<le> c1 \<and> (c1 = c \<and> out1 = [] \<longrightarrow> ni_at s = Body \<and> ni_at s1 = Body)
      | Continue c1 \<Rightarrow> c \<le> c1 \<and> (c1 = c \<longrightarrow> ni_at s1 \<noteq> Body)"
  proof (cases rule: node_iter_cases [where s = s and lib = lib and src = src and n = n and c = c])
    case header
    obtain s2 p where hb: "header_byte lib s (src ! c) = (s2, p)" by fastforce
    show ?thesis using it 1(2) unfolding header(5) hb by (cases p) auto
  qed (use it 1(2) in \<open>auto simp: node_iter_def Let_def after_body_def
    split: if_splits prod.splits sum.splits check.splits\<close>)
  show ?case
  proof (cases q)
    case (Continue c1)
    have rest: "node_loop lib src n s1 c1 = (s', Inr (c', out))"
      using 1(3) it Continue by (simp add: node_loop.simps [of lib src n s c])
    show ?thesis
    proof (cases "c1 < length src")
      case True
      then show ?thesis using 1(1) [OF it [symmetric] Continue True rest] turn Continue by auto
    next
      case False
      then have "c < c1" using 1(2) by simp
      then show ?thesis using node_loop_mono [OF rest] 1(2) False by simp
    qed
  qed (use 1(3) it turn in \<open>auto simp: node_loop.simps [of lib src n s c]\<close>)
qed


section \<open>A gzip member's header\<close>

text \<open>The header of RFC 1952: the fixed fields (time, extra flags, system), the optional ones and their check.\<close>

record gz_fields =
  gz_text :: bool
  gz_fixed :: bytes
  gz_extra :: "bytes option"
  gz_name :: "bytes option"
  gz_comment :: "bytes option"
  gz_hcrc :: bool

definition gz_flags :: "gz_fields \<Rightarrow> u8" where
  "gz_flags h = (if gz_text h then 1 else 0) OR (if gz_hcrc h then 2 else 0) OR
     (if gz_extra h \<noteq> None then 4 else 0) OR (if gz_name h \<noteq> None then 8 else 0) OR
     (if gz_comment h \<noteq> None then 16 else 0)"

definition gz_extra_bytes :: "gz_fields \<Rightarrow> bytes" where
  "gz_extra_bytes h = (case gz_extra h of None \<Rightarrow> []
     | Some x \<Rightarrow> [of_nat (length x mod 256), of_nat (length x div 256)] @ x)"

definition gz_string :: "bytes option \<Rightarrow> bytes" where
  "gz_string t = (case t of None \<Rightarrow> [] | Some x \<Rightarrow> x @ [0])"

definition gz_base :: "gz_fields \<Rightarrow> bytes" where
  "gz_base h = [0x1f, 0x8b, 8, gz_flags h] @ gz_fixed h @ gz_extra_bytes h @ gz_string (gz_name h) @
     gz_string (gz_comment h)"

definition gz_head :: "('c, 'r) codec \<Rightarrow> gz_fields \<Rightarrow> bytes" where
  "gz_head lib h = gz_base h @
     (if gz_hcrc h then
        (let c = cd_crc_sum lib (cd_crc_update lib (cd_crc_new lib) (gz_base h))
         in [ucast c, ucast (drop_bit 8 c)])
      else [])"

definition gz_fields_ok :: "gz_fields \<Rightarrow> bool" where
  "gz_fields_ok h \<longleftrightarrow> length (gz_fixed h) = 6 \<and> (case gz_extra h of None \<Rightarrow> True | Some x \<Rightarrow> length x < 65536) \<and>
     (case gz_name h of None \<Rightarrow> True | Some x \<Rightarrow> 0 \<notin> set x) \<and> (case gz_comment h of None \<Rightarrow> True | Some x \<Rightarrow> 0 \<notin> set x)"

lemma gz_flags_bits:
  "gz_flags h AND GZ_FHCRC \<noteq> 0 \<longleftrightarrow> gz_hcrc h" "gz_flags h AND GZ_FEXTRA \<noteq> 0 \<longleftrightarrow> gz_extra h \<noteq> None"
  "gz_flags h AND GZ_FNAME \<noteq> 0 \<longleftrightarrow> gz_name h \<noteq> None" "gz_flags h AND GZ_FCOMMENT \<noteq> 0 \<longleftrightarrow> gz_comment h \<noteq> None"
  "gz_flags h AND GZ_RESERVED = 0"
  unfolding gz_flags_def GZ_FHCRC_def GZ_FEXTRA_def GZ_FNAME_def GZ_FCOMMENT_def GZ_RESERVED_def
  by (cases "gz_text h"; cases "gz_hcrc h"; cases "gz_extra h"; cases "gz_name h"; cases "gz_comment h"; simp)+

text \<open>Header bytes read one after another, none of them the body's.\<close>

definition in_header :: "at \<Rightarrow> bool" where
  "in_header a \<longleftrightarrow> a \<noteq> Body \<and> a \<noteq> Between \<and> a \<noteq> Done"

fun header_run :: "('c, 'r) codec \<Rightarrow> ('c, 'r) node_inflate \<Rightarrow> bytes \<Rightarrow> ('c, 'r) node_inflate option" where
  "header_run lib s [] = Some s"
| "header_run lib s (b # bs) =
     (if in_header (ni_at s) then
        (case header_byte lib s b of (s', Inr _) \<Rightarrow> header_run lib s' bs | (_, Inl _) \<Rightarrow> None)
      else None)"

lemma header_run_append:
  "header_run lib s (xs @ ys) = (case header_run lib s xs of None \<Rightarrow> None | Some s' \<Rightarrow> header_run lib s' ys)"
  by (induction lib s xs rule: header_run.induct) (auto split: prod.splits sum.splits)

lemma node_loop_header:
  assumes "header_run lib s bs = Some s'"
  shows "node_loop lib (pre @ bs @ post) n s (length pre) =
    node_loop lib (pre @ bs @ post) n s' (length pre + length bs)"
  using assms
proof (induction bs arbitrary: s pre)
  case (Cons b bs)
  obtain s1 u where hb: "in_header (ni_at s)" "header_byte lib s b = (s1, Inr u)" "header_run lib s1 bs = Some s'"
    using Cons.prems by (auto split: if_splits prod.splits sum.splits)
  have "node_iter lib (pre @ (b # bs) @ post) n s (length pre) = (s1, Continue (length pre + 1))"
    using hb(1,2) by (cases "ni_at s") (simp_all add: node_iter_def in_header_def)
  then have "node_loop lib (pre @ (b # bs) @ post) n s (length pre) =
      node_loop lib (pre @ (b # bs) @ post) n s1 (length pre + 1)"
    by (subst node_loop.simps) simp
  with Cons.IH [OF hb(3), of "pre @ [b]"] show ?case by simp
qed simp

text \<open>The header \<open>h\<close> has been read up to \<open>bs\<close>.\<close>

definition reading ::
    "('c, 'r) codec \<Rightarrow> gz_fields \<Rightarrow> 'c inflater \<Rightarrow> bytes \<Rightarrow> at \<Rightarrow> ('c, 'r) node_inflate \<Rightarrow> bool" where
  "reading lib h i bs a s \<longleftrightarrow> ni_at s = a \<and> ni_header_crc s = cd_crc_update lib (cd_crc_new lib) bs \<and>
     ni_flags s = gz_flags h \<and> ni_check s = CrcCheck (cd_crc_new lib) \<and> ni_inflate s = i \<and> ni_members s"

definition reads ::
    "('c, 'r) codec \<Rightarrow> gz_fields \<Rightarrow> 'c inflater \<Rightarrow> bytes \<Rightarrow> at \<Rightarrow> bytes \<Rightarrow> at \<Rightarrow> bool" where
  "reads lib h i bs a xs a' \<longleftrightarrow> (\<forall>s. reading lib h i bs a s \<longrightarrow>
     (\<exists>s'. header_run lib s xs = Some s' \<and> reading lib h i (bs @ xs) a' s'))"

lemma reads_trans:
  "reads lib h i bs a xs a' \<Longrightarrow> reads lib h i (bs @ xs) a' ys a'' \<Longrightarrow> reads lib h i bs a (xs @ ys) a''"
  unfolding reads_def header_run_append by fastforce

lemma reads_nil: "reads lib h i bs a [] a"
  by (simp add: reads_def)

definition at_comment :: "gz_fields \<Rightarrow> at" where
  "at_comment h = (if gz_hcrc h then GzHcrcLo else Body)"

definition at_name :: "gz_fields \<Rightarrow> at" where
  "at_name h = (if gz_comment h \<noteq> None then GzComment else at_comment h)"

definition at_extra :: "gz_fields \<Rightarrow> at" where
  "at_extra h = (if gz_name h \<noteq> None then GzName else at_name h)"

lemma after_at:
  assumes "ni_flags s = gz_flags h"
  shows "after_comment s = at_comment h" "after_name s = at_name h" "after_extra s = at_extra h"
  using gz_flags_bits [of h] assms
  by (auto simp: after_comment_def after_name_def after_extra_def at_comment_def at_name_def at_extra_def)

lemma reads_byte:
  assumes "in_header a" "counts_in_header_crc a" "checks_ok lib"
    "\<And>s. reading lib h i (bs @ [b]) a s \<Longrightarrow> \<exists>s1 a1. header_arm lib s b = (s1, Inr a1) \<and> a1 = a' \<and>
       reading lib h i (bs @ [b]) a s1"
  shows "reads lib h i bs a [b] a'"
  unfolding reads_def
proof (intro allI impI)
  fix s :: "('a, 'b) node_inflate"
  assume s: "reading lib h i bs a s"
  let ?s = "s\<lparr>ni_header_crc := cd_crc_update lib (ni_header_crc s) [b]\<rparr>"
  have "reading lib h i (bs @ [b]) a ?s" using s assms(3) by (simp add: reading_def checks_ok_def)
  from assms(4) [OF this] obtain s1 where
    "header_arm lib ?s b = (s1, Inr a')" "reading lib h i (bs @ [b]) a s1" by auto
  then show "\<exists>s'. header_run lib s [b] = Some s' \<and> reading lib h i (bs @ [b]) a' s'"
    using s assms(1,2) by (simp add: header_byte_def reading_def)
qed


lemma reads_cons:
  "reads lib h i bs a [b] a' \<Longrightarrow> reads lib h i (bs @ [b]) a' xs a'' \<Longrightarrow> reads lib h i bs a (b # xs) a''"
  using reads_trans [of lib h i bs a "[b]" a' xs a''] by simp

lemma reads_fixed:
  assumes "checks_ok lib" "xs \<noteq> []"
  shows "reads lib h i bs (GzFixed (length xs)) xs (if gz_extra h \<noteq> None then GzXlenLo else at_extra h)"
  using assms(2)
proof (induction xs arbitrary: bs)
  case (Cons b xs)
  have byte: "reads lib h i bs (GzFixed (length (b # xs))) [b]
      (if xs \<noteq> [] then GzFixed (length xs) else if gz_extra h \<noteq> None then GzXlenLo else at_extra h)"
    using gz_flags_bits [of h]
    by (intro reads_byte assms) (auto simp: in_header_def counts_in_header_crc_def header_arm_def reading_def after_at)
  show ?case
  proof (cases "xs = []")
    case False
    show ?thesis by (rule reads_cons [OF _ Cons.IH [OF False]]) (use byte False in simp)
  qed (use byte in simp)
qed simp

lemma reads_extra:
  assumes "checks_ok lib" "xs \<noteq> []"
  shows "reads lib h i bs (GzExtra (length xs)) xs (at_extra h)"
  using assms(2)
proof (induction xs arbitrary: bs)
  case (Cons b xs)
  have byte: "reads lib h i bs (GzExtra (length (b # xs))) [b]
      (if xs \<noteq> [] then GzExtra (length xs) else at_extra h)"
    by (intro reads_byte assms) (auto simp: in_header_def counts_in_header_crc_def header_arm_def reading_def after_at)
  show ?case
  proof (cases "xs = []")
    case False
    show ?thesis by (rule reads_cons [OF _ Cons.IH [OF False]]) (use byte False in simp)
  qed (use byte in simp)
qed simp

lemma reads_name:
  assumes "checks_ok lib" "0 \<notin> set xs"
  shows "reads lib h i bs GzName (xs @ [0]) (at_name h)"
  using assms(2)
proof (induction xs arbitrary: bs)
  case Nil
  show ?case unfolding append_Nil
    by (intro reads_byte assms) (auto simp: in_header_def counts_in_header_crc_def header_arm_def reading_def after_at)
next
  case (Cons b xs)
  have "reads lib h i bs GzName [b] GzName"
    using Cons.prems
    by (intro reads_byte assms) (auto simp: in_header_def counts_in_header_crc_def header_arm_def reading_def)
  then show ?case using Cons by (simp add: reads_cons)
qed

lemma reads_comment:
  assumes "checks_ok lib" "0 \<notin> set xs"
  shows "reads lib h i bs GzComment (xs @ [0]) (at_comment h)"
  using assms(2)
proof (induction xs arbitrary: bs)
  case Nil
  show ?case unfolding append_Nil
    by (intro reads_byte assms) (auto simp: in_header_def counts_in_header_crc_def header_arm_def reading_def after_at)
next
  case (Cons b xs)
  have "reads lib h i bs GzComment [b] GzComment"
    using Cons.prems
    by (intro reads_byte assms) (auto simp: in_header_def counts_in_header_crc_def header_arm_def reading_def)
  then show ?case using Cons by (simp add: reads_cons)
qed

lemma le16_bytes:
  assumes "n < 65536"
  shows "unat (ucast (of_nat (n mod 256) :: u8) OR push_bit 8 (ucast (of_nat (n div 256) :: u8)) :: u16) = n"
proof -
  have lo: "unat (ucast (of_nat (n mod 256) :: u8) :: u16) = n mod 256"
    by (simp add: unsigned_ucast_eq unsigned_of_nat take_bit_eq_mod)
  have "n div 256 < 256" using assms by simp
  then have hi: "unat (ucast (of_nat (n div 256) :: u8) :: u16) = n div 256"
    by (simp add: unsigned_ucast_eq unsigned_of_nat take_bit_eq_mod)
  have "ucast (of_nat (n mod 256) :: u8) OR push_bit 8 (ucast (of_nat (n div 256) :: u8)) =
      ucast (of_nat (n mod 256) :: u8) + (push_bit 8 (ucast (of_nat (n div 256) :: u8)) :: u16)"
    by (rule disjunctive_add [symmetric]) (auto simp: bit_push_bit_iff bit_ucast_iff dest: bit_imp_le_length)
  also have "unat \<dots> = n mod 256 + 256 * (n div 256)"
    using assms lo hi by (simp add: push_bit_eq_mult unat_word_ariths)
  finally show ?thesis by simp
qed

lemma reads_xlen:
  assumes "checks_ok lib" "length x < 65536"
  shows "reads lib h i bs GzXlenLo [of_nat (length x mod 256), of_nat (length x div 256)]
    (if x = [] then at_extra h else GzExtra (length x))"
proof -
  let ?w = "ucast (of_nat (length x mod 256) :: u8) OR push_bit 8 (ucast (of_nat (length x div 256) :: u8)) :: u16"
  have w: "unat ?w = length x" using le16_bytes [OF assms(2)] .
  then have z: "?w = 0 \<longleftrightarrow> x = []" by (metis length_0_conv unat_eq_0)
  show ?thesis
    using assms(1) w z
    by (auto simp: reads_def reading_def in_header_def header_byte_def counts_in_header_crc_def header_arm_def
        Let_def after_at checks_ok_def simp del: unat_eq_0)
qed


lemma reads_optional:
  assumes "checks_ok lib" "gz_fields_ok h"
  shows "reads lib h i bs (if gz_extra h \<noteq> None then GzXlenLo else at_extra h) (gz_extra_bytes h) (at_extra h)"
    "reads lib h i bs (at_extra h) (gz_string (gz_name h)) (at_name h)"
    "reads lib h i bs (at_name h) (gz_string (gz_comment h)) (at_comment h)"
proof -
  show "reads lib h i bs (if gz_extra h \<noteq> None then GzXlenLo else at_extra h) (gz_extra_bytes h) (at_extra h)"
  proof (cases "gz_extra h")
    case (Some x)
    then have len: "length x < 65536" using assms(2) by (simp add: gz_fields_ok_def)
    show ?thesis
    proof (cases "x = []")
      case False
      then show ?thesis
        using reads_trans [OF reads_xlen [OF assms(1) len], of h i bs x "at_extra h"] reads_extra [OF assms(1) False] Some
        by (simp add: gz_extra_bytes_def)
    qed (use reads_xlen [OF assms(1) len, of h i bs] Some in \<open>simp add: gz_extra_bytes_def\<close>)
  qed (simp add: gz_extra_bytes_def reads_nil)
  show "reads lib h i bs (at_extra h) (gz_string (gz_name h)) (at_name h)"
    using assms(2) reads_name [OF assms(1)] reads_nil
    by (cases "gz_name h") (simp_all add: gz_fields_ok_def gz_string_def at_extra_def)
  show "reads lib h i bs (at_name h) (gz_string (gz_comment h)) (at_comment h)"
    using assms(2) reads_comment [OF assms(1)] reads_nil
    by (cases "gz_comment h") (simp_all add: gz_fields_ok_def gz_string_def at_name_def)
qed

lemma header_run_magic:
  assumes "checks_ok lib" "ni_at s = Head0" "ni_header_crc s = cd_crc_new lib" "ni_wrap s = WGzip \<or> ni_wrap s = WAuto"
  shows "\<exists>s'. header_run lib s [0x1f, 0x8b, 8, gz_flags h] = Some s' \<and>
    reading lib h (ni_inflate s) [0x1f, 0x8b, 8, gz_flags h] (GzFixed 6) s'"
  using assms gz_flags_bits(5) [of h]
  by (auto simp: reading_def in_header_def header_byte_def counts_in_header_crc_def header_arm_def checks_ok_def)

lemma hcrc_bytes: "ucast (le16 (ucast (c :: u32)) (ucast (drop_bit 8 c))) = c AND 0xffff"
proof (rule bit_eqI)
  fix n
  have m: "bit (0xffff :: int) n \<longleftrightarrow> n < 16"
    using bit_mask_iff [of 16 n, where 'a = int] by (auto simp: mask_eq_exp_minus_1)
  have "n < 8 \<or> \<not> n < 8" by blast
  then show "bit (ucast (le16 (ucast c) (ucast (drop_bit 8 c))) :: u32) n = bit (c AND 0xffff) n"
    by (auto simp: m le16_def bit_ucast_iff bit_or_iff bit_and_iff bit_push_bit_iff bit_drop_bit_eq)
qed

lemma header_run_hcrc:
  assumes "checks_ok lib" "reading lib h i (gz_base h) (at_comment h) s"
  shows "\<exists>s'. header_run lib s (drop (length (gz_base h)) (gz_head lib h)) = Some s' \<and> ni_at s' = Body \<and>
    ni_check s' = CrcCheck (cd_crc_new lib) \<and> ni_inflate s' = i \<and> ni_members s'"
  using assms hcrc_bytes [of "cd_crc_sum lib (cd_crc_update lib (cd_crc_new lib) (gz_base h))"]
  by (auto simp: gz_head_def at_comment_def reading_def in_header_def header_byte_def counts_in_header_crc_def
      header_arm_def Let_def)

lemma header_run_gz_head:
  assumes "checks_ok lib" "gz_fields_ok h" "ni_at s = Head0" "ni_header_crc s = cd_crc_new lib"
    "ni_wrap s = WGzip \<or> ni_wrap s = WAuto"
  shows "\<exists>s'. header_run lib s (gz_head lib h) = Some s' \<and> ni_at s' = Body \<and>
    ni_check s' = CrcCheck (cd_crc_new lib) \<and> ni_inflate s' = ni_inflate s \<and> ni_members s'"
proof -
  let ?i = "ni_inflate s" and ?magic = "[0x1f, 0x8b, 8, gz_flags h]"
  let ?rest = "gz_fixed h @ gz_extra_bytes h @ gz_string (gz_name h) @ gz_string (gz_comment h)"
  obtain s1 where s1: "header_run lib s ?magic = Some s1" "reading lib h ?i ?magic (GzFixed 6) s1"
    using header_run_magic [OF assms(1,3-5)] by blast
  have fixed: "length (gz_fixed h) = 6" "gz_fixed h \<noteq> []" using assms(2) by (auto simp: gz_fields_ok_def)
  have "reads lib h ?i ?magic (GzFixed (length (gz_fixed h))) ?rest (at_comment h)"
    by (rule reads_trans [OF reads_fixed [OF assms(1) fixed(2)]], rule reads_trans [OF reads_optional(1) [OF assms(1,2)]],
        rule reads_trans [OF reads_optional(2) [OF assms(1,2)]], rule reads_optional(3) [OF assms(1,2)])
  then obtain s2 where s2: "header_run lib s1 ?rest = Some s2" "reading lib h ?i (gz_base h) (at_comment h) s2"
    using s1(2) fixed(1) by (auto simp: reads_def gz_base_def)
  obtain s3 where s3: "header_run lib s2 (drop (length (gz_base h)) (gz_head lib h)) = Some s3" "ni_at s3 = Body"
    "ni_check s3 = CrcCheck (cd_crc_new lib)" "ni_inflate s3 = ?i" "ni_members s3"
    using header_run_hcrc [OF assms(1) s2(2)] by blast
  have "gz_head lib h = ?magic @ ?rest @ drop (length (gz_base h)) (gz_head lib h)"
    by (simp add: gz_head_def gz_base_def)
  then have "header_run lib s (gz_head lib h) = Some s3"
    using s1(1) s2(1) s3(1) by (metis (no_types, lifting) header_run_append option.simps(5))
  with s3(2-) show ?thesis by blast
qed


section \<open>A stream's life\<close>

text \<open>Streams a caller can hold: a new one, and what a call that did not fail leaves of one.\<close>

inductive node_run :: "('c, 'r) codec \<Rightarrow> ('c, 'r) node_inflate \<Rightarrow> bytes \<Rightarrow> bool" for lib where
  node_start: "node_run lib (with_dictionary lib wrap dictionary) []"
| node_more: "node_run lib s whole \<Longrightarrow> node_step lib s src n = (s', Inr (used, out)) \<Longrightarrow>
    node_run lib s' (whole @ out)"

lemma stream_inv_start: "checks_ok lib \<Longrightarrow> stream_inv lib (with_dictionary lib wrap dictionary) [] []"
proof -
  have p: "hist_ok (inflater_prime (inflater_new lib False) d) d" for d
    by (rule hist_ok_prime) (simp add: inflater_new_def)
  have n: "hist_ok (inflater_new lib False) []" by (rule hist_ok_new)
  assume "checks_ok lib"
  then show ?thesis
    using p n
    by (cases wrap; cases dictionary)
      (auto simp: with_dictionary_def stream_inv_def node_inv_def at_inv_def check_inv_def Let_def)
qed

lemma node_run_stream:
  assumes "node_run lib s whole" "decoder_ok lib" "checks_ok lib"
  shows "\<exists>m. stream_inv lib s m whole"
  using assms(1)
proof (induction rule: node_run.induct)
  case (node_start wrap dictionary)
  then show ?case using stream_inv_start [OF assms(3)] by blast
next
  case (node_more s whole src n s' used out)
  then obtain m where "stream_inv lib s m whole" by blast
  from node_loop_stream [OF assms(2,3) this _ node_more.hyps(2) [unfolded node_step_def]] show ?case by auto
qed

text \<open>
  A codec to try the streams on: a body is one byte, standing for itself; the Adler-32 is a sum and
  the CRC remembers what it was fed.
\<close>

definition byte_codec :: "(unit, bytes) codec" where
  "byte_codec = \<lparr>cd_default = (), cd_init = id,
     cd_decompress = (\<lambda>core zlib src buf pos.
       if src \<noteq> [] \<and> pos < length buf then (TDone, 1, 1, core, buf[pos := hd src])
       else (TNeedsMoreInput, 0, 0, core, buf)),
     cd_adler = foldl (\<lambda>a b. a + ucast b),
     cd_crc_new = [], cd_crc_update = append, cd_crc_sum = foldl (\<lambda>a b. a + ucast b) 0,
     cd_crc_amount = (\<lambda>r. of_nat (length r))\<rparr>"

lemma byte_codec_ok: "decoder_ok byte_codec" "checks_ok byte_codec"
  by (auto simp: byte_codec_def decoder_ok_def checks_ok_def Suc_le_eq split: if_splits)

lemma byte_codec_fields [simp]:
  "cd_adler byte_codec = foldl (\<lambda>a b. a + ucast b)" "cd_crc_new byte_codec = []"
  "cd_crc_update byte_codec = append" "cd_crc_sum byte_codec = foldl (\<lambda>a b. a + ucast b) 0"
  "cd_crc_amount byte_codec = (\<lambda>r. of_nat (length r))"
  by (simp_all add: byte_codec_def)

lemma byte_codec_step:
  "inflater_step byte_codec (inflater_new byte_codec False) [b] 1 =
     (\<lparr>inf_core = (), inf_hist = b # replicate (WINDOW + STEP_OUT - 1) 0, inf_pos = 1, inf_zlib = False\<rparr>,
      Inr (1, [b], True))"
  by (simp add: inflater_step_def slide_def inflater_new_def byte_codec_def WINDOW_def STEP_OUT_def Let_def)

lemmas header_eval = in_header_def header_byte_def header_arm_def counts_in_header_crc_def zlib_header_def
  ZLIB_FDICT_def Let_def

lemmas body_eval = node_iter_def feed_check_def after_body_def Let_def

definition zlib_start :: "(unit, bytes) node_inflate" where
  "zlib_start = with_dictionary byte_codec WZlib None"

definition zlib_sample :: "(unit, bytes) node_inflate" where
  "zlib_sample = fst (node_step byte_codec zlib_start [0x78, 0x9c, 65] 1)"

lemma zlib_sample_step:
  "node_step byte_codec zlib_start [0x78, 0x9c, 65] 1 = (zlib_sample, Inr (3, [65]))"
  "ni_at zlib_sample = ZlibTrailer 0" "ni_check zlib_sample = AdlerCheck 66" "ni_trailer zlib_sample = replicate 8 0"
  "\<not> ni_members zlib_sample"
proof -
  obtain s1 where s1: "header_run byte_codec zlib_start [0x78, 0x9c] = Some s1" "ni_at s1 = Body"
      "ni_inflate s1 = inflater_new byte_codec False" "ni_check s1 = AdlerCheck 1" "ni_trailer s1 = replicate 8 0"
      "\<not> ni_members s1"
    by (simp add: header_eval zlib_start_def with_dictionary_def)
  have iter: "\<exists>s2. node_iter byte_codec [0x78, 0x9c, 65] 1 s1 2 = (s2, Returned 3 [65]) \<and> ni_at s2 = ZlibTrailer 0 \<and>
      ni_check s2 = AdlerCheck 66 \<and> ni_trailer s2 = replicate 8 0 \<and> \<not> ni_members s2"
    using s1(2-) by (simp add: body_eval byte_codec_step [unfolded One_nat_def])
  then obtain s2 where s2: "node_iter byte_codec [0x78, 0x9c, 65] 1 s1 2 = (s2, Returned 3 [65])"
      "ni_at s2 = ZlibTrailer 0" "ni_check s2 = AdlerCheck 66" "ni_trailer s2 = replicate 8 0" "\<not> ni_members s2"
    by blast
  have "node_step byte_codec zlib_start [0x78, 0x9c, 65] 1 = node_loop byte_codec [0x78, 0x9c, 65] 1 s1 2"
    using node_loop_header [OF s1(1), of "[]" "[65]" 1] by (simp add: node_step_def numeral_2_eq_2)
  also have "\<dots> = (s2, Inr (3, [65]))" by (subst node_loop.simps) (simp add: s2(1) del: One_nat_def)
  finally have step: "node_step byte_codec zlib_start [0x78, 0x9c, 65] 1 = (s2, Inr (3, [65]))" .
  then show "node_step byte_codec zlib_start [0x78, 0x9c, 65] 1 = (zlib_sample, Inr (3, [65]))"
    "ni_at zlib_sample = ZlibTrailer 0" "ni_check zlib_sample = AdlerCheck 66" "ni_trailer zlib_sample = replicate 8 0"
    "\<not> ni_members zlib_sample"
    using s2(2-) by (simp_all add: zlib_sample_def del: One_nat_def)
qed

lemma zlib_sample_finish:
  "\<exists>s. node_step byte_codec zlib_sample [0, 0, 0, 66] 1 = (s, Inr (4, [])) \<and> ni_at s = Done"
proof -
  have be: "be32 [0, 0, 0, 66, 0, 0, 0, 0] = 66" by (simp add: be32_def)
  obtain s1 where s1: "header_run byte_codec zlib_sample [0, 0, 0, 66] = Some s1" "ni_at s1 = Done"
    using zlib_sample_step(2-) be by (simp add: header_eval after_stream_def eval_nat_numeral)
  have "node_step byte_codec zlib_sample [0, 0, 0, 66] 1 = node_loop byte_codec [0, 0, 0, 66] 1 s1 4"
    using node_loop_header [OF s1(1), of "[]" "[]" 1] by (simp add: node_step_def numeral_eq_Suc)
  also have "\<dots> = (s1, Inr (4, []))" by (subst node_loop.simps) (simp add: node_iter_def s1(2))
  finally show ?thesis using s1(2) by blast
qed


section \<open>The properties\<close>

text \<open>
  Property C12. However an \<open>Inflater\<close> came to be (new, primed with a dictionary, reset, stepped with
  any input and any room, a failed step included), its history is exactly the last \<open>pos\<close> bytes of
  what it has produced: never less than a whole window of them, and all of them while \<open>pos\<close> is
  below the window, which is what lets \<open>step\<close> tell a copy from before the start.
\<close>

theorem inflater_history_exact:
  assumes "inflater_run lib i out" "decoder_ok lib"
  shows "inf_pos i \<le> length (inf_hist i) \<and> min WINDOW (length out) \<le> inf_pos i \<and> inf_pos i \<le> length out \<and>
    take (inf_pos i) (inf_hist i) = drop (length out - inf_pos i) out \<and>
    (inf_pos i < WINDOW \<longrightarrow> take (inf_pos i) (inf_hist i) = out)"
  using inflater_run_hist [OF assms] by (auto simp: hist_ok_def)

theorem inflater_history_exact_witness:
  "\<exists>i. inflater_run byte_codec i [65] \<and> decoder_ok byte_codec \<and> take (inf_pos i) (inf_hist i) = [65] \<and> inf_pos i = 1"
proof -
  let ?i = "\<lparr>inf_core = (), inf_hist = 65 # replicate (WINDOW + STEP_OUT - 1) 0, inf_pos = 1, inf_zlib = False\<rparr>"
  have run: "inflater_run byte_codec ?i [65]"
    using inflater_run.step [OF inflater_run.new byte_codec_step] by simp
  have "take (inf_pos ?i) (inf_hist ?i) = [65]"
    using inflater_history_exact [OF run byte_codec_ok(1)] by (simp add: WINDOW_def)
  then show ?thesis using run byte_codec_ok(1) by (intro exI [of _ ?i]) simp
qed

text \<open>
  Property C22. On a stream a caller can hold, whatever the input, \<open>step\<close> ends, never panics in an
  \<open>unreachable!\<close> arm, reports no more input used than it was given and no more output than the
  room it was given (and than one step's bound).
\<close>

theorem node_step_safe:
  assumes "node_run lib s whole" "decoder_ok lib" "checks_ok lib" "node_step lib s src n = (s', r)"
  shows "r \<noteq> Inl Unreachable \<and>
    (\<forall>used out. r = Inr (used, out) \<longrightarrow> used \<le> length src \<and> length out \<le> n \<and> length out \<le> STEP_OUT)"
proof -
  obtain m where "stream_inv lib s m whole" using node_run_stream [OF assms(1-3)] by blast
  from node_loop_stream [OF assms(2,3) this _ assms(4) [unfolded node_step_def]] show ?thesis
    by (cases r) auto
qed

theorem node_step_safe_witness:
  "node_run byte_codec zlib_start [] \<and>
   node_step byte_codec zlib_start [0x78, 0x9c, 65] 1 = (zlib_sample, Inr (3, [65])) \<and> length [65 :: u8] \<le> STEP_OUT"
proof -
  have run: "node_run byte_codec zlib_start []" by (simp add: zlib_start_def node_run.node_start)
  show ?thesis
    using node_step_safe [OF run byte_codec_ok zlib_sample_step(1)] run zlib_sample_step(1) by blast
qed

text \<open>
  Property C34. \<open>step\<close> reports neither input used nor output made, with input at hand, only where the
  stream is and stays in the compressed body: it is the decoder that asks for more. Headers,
  trailers, the gap between members and a finished stream always use their input up.
\<close>

theorem node_step_stall:
  assumes "node_step lib s src n = (s', Inr (0, []))" "src \<noteq> []"
  shows "ni_at s = Body \<and> ni_at s' = Body"
  using node_loop_stall [of 0 src lib n s s' 0 "[]"] assms by (simp add: node_step_def)

theorem node_step_stall_witness:
  "\<exists>s'. node_step byte_codec (with_dictionary byte_codec WRaw None) [65] 0 = (s', Inr (0, [])) \<and>
     ni_at (with_dictionary byte_codec WRaw None) = Body \<and> ni_at s' = Body"
proof -
  have "\<exists>s'. node_step byte_codec (with_dictionary byte_codec WRaw None) [65] 0 = (s', Inr (0, []))"
    unfolding node_step_def
    by (subst node_loop.simps)
      (simp add: body_eval with_dictionary_def inflater_step_def slide_def inflater_new_def byte_codec_def)
  then show ?thesis using node_step_stall [of byte_codec "with_dictionary byte_codec WRaw None" "[65]" 0] by blast
qed



text \<open>
  Property C23. Every gzip header of RFC 1952 (any of the optional extra field, name, comment and
  header check) in front of any further bytes is read to its end and no further: \<open>step\<close> goes on from
  the first byte of the body, with an empty CRC, the member counted and the decoder untouched. The
  stream is a gzip or auto-detecting one at its start.
\<close>

theorem gz_head_read:
  assumes "checks_ok lib" "gz_fields_ok h" "ni_at s = Head0" "ni_header_crc s = cd_crc_new lib"
    "ni_wrap s = WGzip \<or> ni_wrap s = WAuto"
  shows "\<exists>s'. node_step lib s (gz_head lib h @ body) n =
      node_loop lib (gz_head lib h @ body) n s' (length (gz_head lib h)) \<and>
    ni_at s' = Body \<and> ni_check s' = CrcCheck (cd_crc_new lib) \<and> ni_members s' \<and> ni_inflate s' = ni_inflate s"
proof -
  obtain s' where s': "header_run lib s (gz_head lib h) = Some s'" "ni_at s' = Body"
    "ni_check s' = CrcCheck (cd_crc_new lib)" "ni_inflate s' = ni_inflate s" "ni_members s'"
    using header_run_gz_head [OF assms] by blast
  have "node_step lib s (gz_head lib h @ body) n =
      node_loop lib (gz_head lib h @ body) n s' (length (gz_head lib h))"
    using node_loop_header [OF s'(1), of "[]" body n] by (simp add: node_step_def)
  with s'(2-) show ?thesis by blast
qed

theorem gz_head_read_witness:
  "\<exists>s'. node_step byte_codec (node_new byte_codec WAuto)
      (gz_head byte_codec \<lparr>gz_text = False, gz_fixed = [0, 0, 0, 0, 0, 3], gz_extra = Some [1, 2], gz_name = Some [97],
         gz_comment = None, gz_hcrc = True\<rparr> @ [65]) 1 =
    node_loop byte_codec
      (gz_head byte_codec \<lparr>gz_text = False, gz_fixed = [0, 0, 0, 0, 0, 3], gz_extra = Some [1, 2], gz_name = Some [97],
         gz_comment = None, gz_hcrc = True\<rparr> @ [65]) 1 s'
      (length (gz_head byte_codec \<lparr>gz_text = False, gz_fixed = [0, 0, 0, 0, 0, 3], gz_extra = Some [1, 2],
         gz_name = Some [97], gz_comment = None, gz_hcrc = True\<rparr>)) \<and> ni_at s' = Body"
proof -
  let ?h = "\<lparr>gz_text = False, gz_fixed = [0, 0, 0, 0, 0, 3], gz_extra = Some [1, 2], gz_name = Some [97],
    gz_comment = None, gz_hcrc = True\<rparr>" and ?s = "node_new byte_codec WAuto"
  have "gz_fields_ok ?h" by (simp add: gz_fields_ok_def)
  moreover have "ni_at ?s = Head0" "ni_header_crc ?s = cd_crc_new byte_codec" "ni_wrap ?s = WGzip \<or> ni_wrap ?s = WAuto"
    by (simp_all add: node_new_def with_dictionary_def)
  ultimately show ?thesis using gz_head_read [OF byte_codec_ok(2), of ?h ?s "[65]" 1] by blast
qed

end
