(* ===== verification/Source_Map.thy ===== *)
theory Source_Map
  imports Oam_Bytes
begin

unbundle bit_operations_syntax

text \<open>
  The source-map registry (\<open>crates/oam_loader/src/sourcemap.rs\<close>): \<open>record\<close> and \<open>lookup\<close> over a table
  of maps decoded on first use, and the decoder of the \<open>mappings\<close> string.

  The table is an association list, the process-wide lock is not modelled (each call holds it for
  its whole length). The JSON parser (\<open>serde_json\<close>) is the argument \<open>mappings_of\<close>: the string under
  the key \<open>mappings\<close> of a map's text, if it parses and has one. An \<open>i64\<close> is a 64-bit word, its sums
  wrapping as in the release build; \<open>partition_point\<close> is the standard library's binary search.

  The theorems: decoding is a left inverse of the encoder of the source-map format; a sequence of
  \<open>record\<close>s and \<open>lookup\<close>s answers as if every map was decoded afresh from its latest text; on a map
  whose columns ascend a lookup gives the segment with the greatest column at or before the one
  asked for.
\<close>

type_synonym i64 = "64 word"

section \<open>The decoder\<close>

record seg =
  sg_gen_col :: u32
  sg_src_line :: u32
  sg_src_col :: u32

type_synonym decoded_map = "seg list list"

datatype entry = Raw string | Decoded decoded_map | Invalid

type_synonym registry = "(string \<times> entry) list"

definition base64_value :: "u8 \<Rightarrow> u8 option" where
  "base64_value byte =
     (if 0x41 \<le> byte \<and> byte \<le> 0x5a then Some (byte - 0x41)
      else if 0x61 \<le> byte \<and> byte \<le> 0x7a then Some (byte - 0x61 + 26)
      else if 0x30 \<le> byte \<and> byte \<le> 0x39 then Some (byte - 0x30 + 52)
      else if byte = 0x2b then Some 62
      else if byte = 0x2f then Some 63
      else None)"

definition CONTINUATION :: u32 where "CONTINUATION = 32"

definition vlq_field :: "i64 \<Rightarrow> i64" where
  "vlq_field v =
     (let negative = (v AND 1 = 1);
          magnitude = signed_drop_bit 1 v
      in if negative then - magnitude else magnitude)"

fun vlq_loop :: "string \<Rightarrow> i64 list \<Rightarrow> i64 \<Rightarrow> nat \<Rightarrow> bool \<Rightarrow> i64 list option" where
  "vlq_loop [] fs v shift in_field = (if in_field \<or> fs = [] then None else Some fs)"
| "vlq_loop (c # cs) fs v shift in_field =
     (case base64_value (of_char c) of
        None \<Rightarrow> None
      | Some d \<Rightarrow>
          if 62 < shift then None
          else
            (let digit = (ucast d :: u32);
                 v' = v + push_bit shift (ucast (digit AND (CONTINUATION - 1)))
             in if digit AND CONTINUATION = 0 then vlq_loop cs (fs @ [vlq_field v']) 0 0 False
                else vlq_loop cs fs v' (shift + 5) True))"

definition decode_vlq :: "string \<Rightarrow> i64 list option" where
  "decode_vlq s = vlq_loop s [] 0 0 False"

text \<open>\<open>u32::try_from\<close> of an \<open>i64\<close>.\<close>

definition u32_try_from :: "i64 \<Rightarrow> u32 option" where
  "u32_try_from v = (if 0 \<le> sint v \<and> sint v < 2 ^ 32 then Some (ucast v) else None)"

text \<open>The running positions: the generated column of the line, and the three of the source.\<close>

record cursor =
  cu_gen_col :: i64
  cu_src_index :: i64
  cu_src_line :: i64
  cu_src_col :: i64

definition push_seg :: "cursor \<Rightarrow> seg list \<Rightarrow> (cursor \<times> seg list) option" where
  "push_seg cu segs =
     (if sint (cu_gen_col cu) < 0 \<or> sint (cu_src_line cu) < 0 \<or> sint (cu_src_col cu) < 0 \<or>
         sint (cu_src_index cu) < 0 then None
      else case u32_try_from (cu_gen_col cu) of None \<Rightarrow> None | Some g \<Rightarrow>
        (case u32_try_from (cu_src_line cu) of None \<Rightarrow> None | Some l \<Rightarrow>
          (case u32_try_from (cu_src_col cu) of None \<Rightarrow> None | Some c \<Rightarrow>
            Some (cu, segs @ [\<lparr>sg_gen_col = g, sg_src_line = l, sg_src_col = c\<rparr>]))))"

definition decode_segment :: "cursor \<Rightarrow> seg list \<Rightarrow> string \<Rightarrow> (cursor \<times> seg list) option" where
  "decode_segment cu segs s =
     (case decode_vlq s of
        None \<Rightarrow> None
      | Some fs \<Rightarrow>
          if length fs = 1 then Some (cu\<lparr>cu_gen_col := cu_gen_col cu + fs ! 0\<rparr>, segs)
          else if length fs = 4 \<or> length fs = 5 then
            push_seg \<lparr>cu_gen_col = cu_gen_col cu + fs ! 0, cu_src_index = cu_src_index cu + fs ! 1,
              cu_src_line = cu_src_line cu + fs ! 2, cu_src_col = cu_src_col cu + fs ! 3\<rparr> segs
          else None)"

fun decode_segments :: "cursor \<Rightarrow> seg list \<Rightarrow> string list \<Rightarrow> (cursor \<times> seg list) option" where
  "decode_segments cu segs [] = Some (cu, segs)"
| "decode_segments cu segs (s # ss) =
     (case decode_segment cu segs s of None \<Rightarrow> None | Some (cu', segs') \<Rightarrow> decode_segments cu' segs' ss)"

definition decode_group :: "cursor \<Rightarrow> string \<Rightarrow> (cursor \<times> seg list) option" where
  "decode_group cu grp =
     (let cu0 = cu\<lparr>cu_gen_col := 0\<rparr>
      in if grp = '''' then Some (cu0, []) else decode_segments cu0 [] (split_on (\<lambda>c. c = CHR '','') grp))"

fun decode_groups :: "cursor \<Rightarrow> seg list list \<Rightarrow> string list \<Rightarrow> decoded_map option" where
  "decode_groups cu ls [] = Some ls"
| "decode_groups cu ls (g # gs) =
     (case decode_group cu g of None \<Rightarrow> None | Some (cu', segs) \<Rightarrow> decode_groups cu' (ls @ [segs]) gs)"

definition cursor_start :: cursor where
  "cursor_start = \<lparr>cu_gen_col = 0, cu_src_index = 0, cu_src_line = 0, cu_src_col = 0\<rparr>"

definition decode_mappings :: "string \<Rightarrow> decoded_map option" where
  "decode_mappings mappings = decode_groups cursor_start [] (split_on (\<lambda>c. c = CHR '';'') mappings)"

definition decode :: "(string \<Rightarrow> string option) \<Rightarrow> string \<Rightarrow> decoded_map option" where
  "decode mappings_of map_json =
     (case mappings_of map_json of None \<Rightarrow> None | Some mappings \<Rightarrow> decode_mappings mappings)"

section \<open>The registry\<close>

definition record_map :: "registry \<Rightarrow> string \<Rightarrow> string \<Rightarrow> registry" where
  "record_map table file map_json = AList.update file (Raw map_json) table"

text \<open>
  \<open>slice::partition_point\<close>: the standard library's binary search, whose \<open>base\<close> and \<open>sz\<close> bound the
  part still to search.
\<close>

function partition_loop :: "('a \<Rightarrow> bool) \<Rightarrow> 'a list \<Rightarrow> nat \<Rightarrow> nat \<Rightarrow> nat" where
  "partition_loop P xs base sz =
     (if sz \<le> 1 then base
      else let half = sz div 2; mid = base + half
           in partition_loop P xs (if P (xs ! mid) then mid else base) (sz - half))"
  by auto
termination
  by (relation "measure (\<lambda>(P, xs, base, sz). sz)") auto

declare partition_loop.simps [simp del]

definition partition_point :: "('a \<Rightarrow> bool) \<Rightarrow> 'a list \<Rightarrow> nat" where
  "partition_point P xs =
     (if xs = [] then 0
      else let base = partition_loop P xs 0 (length xs) in if P (xs ! base) then base + 1 else base)"

definition lookup_segs :: "seg list \<Rightarrow> u32 \<Rightarrow> (u32 \<times> u32) option" where
  "lookup_segs segs column =
     (let idx = partition_point (\<lambda>s. sg_gen_col s \<le> column) segs
      in if idx = 0 then None
         else if idx - 1 < length segs then
           (let s = segs ! (idx - 1) in Some (sg_src_line s + 1, sg_src_col s))
         else None)"

definition lookup ::
    "(string \<Rightarrow> string option) \<Rightarrow> registry \<Rightarrow> string \<Rightarrow> u32 \<Rightarrow> u32 \<Rightarrow> registry \<times> (u32 \<times> u32) option" where
  "lookup mappings_of table file line column =
     (if line = 0 then (table, None)
      else case map_of table file of
        None \<Rightarrow> (table, None)
      | Some e \<Rightarrow>
          (let e' = (case e of
                 Raw json \<Rightarrow> (case decode mappings_of json of Some m \<Rightarrow> Decoded m | None \<Rightarrow> Invalid)
               | _ \<Rightarrow> e);
               table' = AList.update file e' table
           in (table', case e' of
                 Decoded m \<Rightarrow>
                   (let l = unat (line - 1) in if l < length m then lookup_segs (m ! l) column else None)
               | _ \<Rightarrow> None)))"

section \<open>One VLQ field\<close>

text \<open>The encoder of the format: base-64 digits of five bits, the least significant first.\<close>

definition b64 :: "nat \<Rightarrow> char" where
  "b64 d = ''ABCDEFGHIJKLMNOPQRSTUVWXYZabcdefghijklmnopqrstuvwxyz0123456789+/'' ! d"

function vlq_digits :: "nat \<Rightarrow> nat list" where
  "vlq_digits n = (if n < 32 then [n] else (n mod 32 + 32) # vlq_digits (n div 32))"
  by auto
termination
  by (relation "measure id") auto

declare vlq_digits.simps [simp del]

definition zigzag :: "int \<Rightarrow> nat" where
  "zigzag z = (if z < 0 then nat (- 2 * z + 1) else nat (2 * z))"

definition encode_vlq :: "int \<Rightarrow> string" where
  "encode_vlq z = map b64 (vlq_digits (zigzag z))"

definition digit_ok :: "nat \<Rightarrow> bool" where
  "digit_ok d \<longleftrightarrow> base64_value (of_char (b64 d)) = Some (of_nat d) \<and>
     (ucast ((ucast (of_nat d :: u8) :: u32) AND 31) :: i64) = of_nat (d mod 32) \<and>
     ((ucast (of_nat d :: u8) :: u32) AND 32 = 0) = (d < 32) \<and> b64 d \<noteq> CHR '','' \<and> b64 d \<noteq> CHR '';''"

lemma digits_ok: "d < 64 \<Longrightarrow> digit_ok d"
proof -
  have "list_all digit_ok [0..<64]"
    by (simp add: upt_rec digit_ok_def base64_value_def b64_def of_char_def)
  then show "d < 64 \<Longrightarrow> digit_ok d" by (simp add: list_all_iff)
qed

lemma digit_step:
  assumes "d < 64"
  shows "vlq_loop (b64 d # cs) fs v shift f =
    (if 62 < shift then None
     else let v' = v + of_nat (d mod 32 * 2 ^ shift)
          in if d < 32 then vlq_loop cs (fs @ [vlq_field v']) 0 0 False else vlq_loop cs fs v' (shift + 5) True)"
  using digits_ok [OF assms]
  by (simp add: digit_ok_def CONTINUATION_def push_bit_of_nat push_bit_nat_def Let_def del: of_nat_mult)

lemma vlq_loop_digits:
  assumes "shift = 0 \<or> 0 < n" "v + n * 2 ^ shift < 2 ^ 63"
  shows "vlq_loop (map b64 (vlq_digits n) @ cs) fs (of_nat v) shift f =
    vlq_loop cs (fs @ [vlq_field (of_nat (v + n * 2 ^ shift))]) 0 0 False"
  using assms
proof (induction n arbitrary: v shift f rule: vlq_digits.induct)
  case (1 n)
  have shift: "\<not> 62 < shift"
  proof
    assume "62 < shift"
    then have "(2 :: nat) ^ 63 \<le> 2 ^ shift" by (intro power_increasing) auto
    moreover have "2 ^ shift \<le> n * 2 ^ shift" using 1(2) \<open>62 < shift\<close> by auto
    ultimately show False using 1(3) by linarith
  qed
  show ?case
  proof (cases "n < 32")
    case True
    then show ?thesis using shift by (subst vlq_digits.simps) (simp add: digit_step Let_def del: vlq_loop.simps)
  next
    case False
    have n: "n mod 32 * 2 ^ shift + n div 32 * 2 ^ (shift + 5) = n * 2 ^ shift"
    proof -
      have "n mod 32 * 2 ^ shift + n div 32 * 2 ^ (shift + 5) = (n mod 32 + n div 32 * 32) * 2 ^ shift"
        unfolding power_add add_mult_distrib by simp
      then show ?thesis by (simp only: mod_div_mult_eq)
    qed
    let ?v = "v + n mod 32 * 2 ^ shift"
    have "vlq_loop (map b64 (vlq_digits (n div 32)) @ cs) fs (of_nat ?v) (shift + 5) True =
        vlq_loop cs (fs @ [vlq_field (of_nat (?v + n div 32 * 2 ^ (shift + 5)))]) 0 0 False"
      using False 1(3) n by (intro 1(1)) auto
    moreover have "?v + n div 32 * 2 ^ (shift + 5) = v + n * 2 ^ shift" using n by simp
    ultimately show ?thesis
      using False shift by (subst vlq_digits.simps) (simp add: digit_step Let_def del: vlq_loop.simps)
  qed
qed

lemma sint_of_nat_i64: "n < 2 ^ 63 \<Longrightarrow> sint (of_nat n :: i64) = int n"
  by (simp add: signed_of_nat signed_take_bit_int_eq_self)

lemma vlq_field_zigzag:
  assumes "\<bar>z\<bar> < 2 ^ 62"
  shows "vlq_field (of_nat (zigzag z)) = of_int z"
proof -
  define n where "n = zigzag z"
  have n: "n < 2 ^ 63" "odd n = (z < 0)" "int (n div 2) = \<bar>z\<bar>"
    using assms by (auto simp: n_def zigzag_def nat_less_iff even_nat_iff)
  have "signed_drop_bit 1 (of_nat n :: i64) = of_nat (n div 2)"
  proof -
    have "sint (signed_drop_bit 1 (of_nat n :: i64)) = int n div 2"
      using n(1) by (simp add: sint_signed_drop_bit_eq sint_of_nat_i64 drop_bit_eq_div)
    also have "\<dots> = sint (of_nat (n div 2) :: i64)" using n(1) by (subst sint_of_nat_i64) (auto simp: zdiv_int)
    finally show ?thesis by (simp only: signed_word_eqI)
  qed
  moreover have "(of_nat n :: i64) AND 1 = 1 \<longleftrightarrow> odd n"
    by (simp add: and_one_eq mod_2_eq_odd)
  moreover have "(of_nat (n div 2) :: i64) = of_int \<bar>z\<bar>" using n(3) by (metis of_int_of_nat_eq)
  ultimately show ?thesis using n(2) by (simp add: vlq_field_def Let_def n_def)
qed

lemma vlq_loop_field:
  "\<bar>z\<bar> < 2 ^ 62 \<Longrightarrow> vlq_loop (encode_vlq z @ cs) fs 0 0 f = vlq_loop cs (fs @ [of_int z]) 0 0 False"
  using vlq_loop_digits [of 0 "zigzag z" 0 cs fs f] vlq_field_zigzag [of z]
  by (simp add: encode_vlq_def zigzag_def nat_less_iff split: if_splits)

lemma decode_vlq_fields:
  assumes "zs \<noteq> []" "\<forall>z \<in> set zs. \<bar>z\<bar> < 2 ^ 62"
  shows "decode_vlq (concat (map encode_vlq zs)) = Some (map of_int zs)"
proof -
  have "vlq_loop (concat (map encode_vlq zs)) fs 0 0 False =
      (if fs @ zs' = [] then None else Some (fs @ zs'))"
    if "\<forall>z \<in> set zs. \<bar>z\<bar> < 2 ^ 62" "zs' = map of_int zs" for zs fs and zs' :: "i64 list"
    using that by (induction zs arbitrary: fs zs') (auto simp: vlq_loop_field)
  from this [OF assms(2) refl, of "[]"] assms(1) show ?thesis by (simp add: decode_vlq_def)
qed


section \<open>A whole map\<close>

text \<open>
  A map as its producer knows it: per generated line the marked columns, each with no source, or with
  a source file, line and column and perhaps a name. All counts are absolute and from zero.
\<close>

datatype mark = Plain nat | Mapped nat nat nat nat "nat option"

record producer =
  pr_gen_col :: nat
  pr_src_index :: nat
  pr_src_line :: nat
  pr_src_col :: nat
  pr_name :: nat

fun mark_fields :: "producer \<Rightarrow> mark \<Rightarrow> int list" where
  "mark_fields p (Plain g) = [int g - int (pr_gen_col p)]"
| "mark_fields p (Mapped g i l c n) =
     [int g - int (pr_gen_col p), int i - int (pr_src_index p), int l - int (pr_src_line p),
      int c - int (pr_src_col p)] @ (case n of None \<Rightarrow> [] | Some x \<Rightarrow> [int x - int (pr_name p)])"

fun mark_next :: "producer \<Rightarrow> mark \<Rightarrow> producer" where
  "mark_next p (Plain g) = p\<lparr>pr_gen_col := g\<rparr>"
| "mark_next p (Mapped g i l c n) = \<lparr>pr_gen_col = g, pr_src_index = i, pr_src_line = l, pr_src_col = c,
     pr_name = (case n of None \<Rightarrow> pr_name p | Some x \<Rightarrow> x)\<rparr>"

definition print_mark :: "producer \<Rightarrow> mark \<Rightarrow> string" where
  "print_mark p m = concat (map encode_vlq (mark_fields p m))"

fun print_marks :: "producer \<Rightarrow> mark list \<Rightarrow> string list" where
  "print_marks p [] = []"
| "print_marks p (m # ms) = print_mark p m # print_marks (mark_next p m) ms"

definition line_start :: "producer \<Rightarrow> producer" where
  "line_start p = p\<lparr>pr_gen_col := 0\<rparr>"

fun print_lines :: "producer \<Rightarrow> mark list list \<Rightarrow> string list" where
  "print_lines p [] = []"
| "print_lines p (l # ls) =
     join '','' (print_marks (line_start p) l) # print_lines (foldl mark_next (line_start p) l) ls"

definition producer_start :: producer where
  "producer_start = \<lparr>pr_gen_col = 0, pr_src_index = 0, pr_src_line = 0, pr_src_col = 0, pr_name = 0\<rparr>"

definition print_mappings :: "mark list list \<Rightarrow> string" where
  "print_mappings ls = join '';'' (print_lines producer_start ls)"

fun mark_segs :: "mark \<Rightarrow> seg list" where
  "mark_segs (Plain g) = []"
| "mark_segs (Mapped g i l c n) = [\<lparr>sg_gen_col = of_nat g, sg_src_line = of_nat l, sg_src_col = of_nat c\<rparr>]"

text \<open>Every count fits in 32 bits.\<close>

fun mark_ok :: "mark \<Rightarrow> bool" where
  "mark_ok (Plain g) = (g < 2 ^ 32)"
| "mark_ok (Mapped g i l c n) = (g < 2 ^ 32 \<and> i < 2 ^ 32 \<and> l < 2 ^ 32 \<and> c < 2 ^ 32 \<and>
     (case n of None \<Rightarrow> True | Some x \<Rightarrow> x < 2 ^ 32))"

definition producer_ok :: "producer \<Rightarrow> bool" where
  "producer_ok p \<longleftrightarrow> pr_gen_col p < 2 ^ 32 \<and> pr_src_index p < 2 ^ 32 \<and> pr_src_line p < 2 ^ 32 \<and>
     pr_src_col p < 2 ^ 32 \<and> pr_name p < 2 ^ 32"

definition cursor_of :: "producer \<Rightarrow> cursor" where
  "cursor_of p = \<lparr>cu_gen_col = of_nat (pr_gen_col p), cu_src_index = of_nat (pr_src_index p),
     cu_src_line = of_nat (pr_src_line p), cu_src_col = of_nat (pr_src_col p)\<rparr>"

lemma vlq_digits_lt: "d \<in> set (vlq_digits n) \<Longrightarrow> d < 64"
proof (induction n rule: vlq_digits.induct)
  case (1 n)
  have "n mod 32 < 32" by simp
  then show ?case using 1 by (subst (asm) (2) vlq_digits.simps) (auto split: if_splits)
qed

lemma print_mark_chars: "c \<in> set (print_mark p m) \<Longrightarrow> c \<noteq> CHR '','' \<and> c \<noteq> CHR '';''"
  using digits_ok vlq_digits_lt by (fastforce simp: print_mark_def encode_vlq_def digit_ok_def)

lemma print_mark_nonempty: "print_mark p m \<noteq> []"
proof -
  have "encode_vlq z \<noteq> []" for z by (simp add: encode_vlq_def vlq_digits.simps [of "zigzag z"])
  then show ?thesis by (cases m) (auto simp: print_mark_def)
qed

lemma u32_try_from_of_nat: "n < 2 ^ 32 \<Longrightarrow> u32_try_from (of_nat n) = Some (of_nat n)"
  by (simp add: u32_try_from_def sint_of_nat_i64 unsigned_of_nat take_bit_nat_eq_self)

lemma of_nat_shift: "of_nat a + of_int (int b - int a) = (of_nat b :: i64)"
  by simp

lemma decode_segment_print:
  assumes "producer_ok p" "mark_ok m"
  shows "decode_segment (cursor_of p) segs (print_mark p m) =
    Some (cursor_of (mark_next p m), segs @ mark_segs m)"
proof -
  have "decode_vlq (print_mark p m) = Some (map of_int (mark_fields p m))"
    unfolding print_mark_def using assms
    by (intro decode_vlq_fields; cases m) (auto simp: producer_ok_def split: option.splits)
  then show ?thesis
    using assms
    by (cases m)
      (auto simp: decode_segment_def push_seg_def cursor_of_def u32_try_from_of_nat sint_of_nat_i64
        split: option.splits)
qed

lemma producer_ok_next: "producer_ok p \<Longrightarrow> mark_ok m \<Longrightarrow> producer_ok (mark_next p m)"
  by (cases m) (auto simp: producer_ok_def split: option.splits)

lemma decode_segments_print:
  assumes "producer_ok p" "\<forall>m \<in> set ms. mark_ok m"
  shows "decode_segments (cursor_of p) segs (print_marks p ms) =
    Some (cursor_of (foldl mark_next p ms), segs @ concat (map mark_segs ms)) \<and> producer_ok (foldl mark_next p ms)"
  using assms
  by (induction ms arbitrary: p segs) (auto simp: decode_segment_print producer_ok_next)

lemma print_marks_eq_Nil: "print_marks p ms = [] \<longleftrightarrow> ms = []"
  by (cases ms) auto

lemma print_marks_pieces: "s \<in> set (print_marks p ms) \<Longrightarrow> \<exists>p m. s = print_mark p m"
  by (induction ms arbitrary: p) auto

lemma decode_group_print:
  assumes "producer_ok p" "\<forall>m \<in> set ms. mark_ok m"
  shows "decode_group (cursor_of p) (join '','' (print_marks (line_start p) ms)) =
    Some (cursor_of (foldl mark_next (line_start p) ms), concat (map mark_segs ms)) \<and>
    producer_ok (foldl mark_next (line_start p) ms)"
proof -
  have ok: "producer_ok (line_start p)" using assms(1) by (simp add: producer_ok_def line_start_def)
  have start: "(cursor_of p)\<lparr>cu_gen_col := 0\<rparr> = cursor_of (line_start p)"
    by (simp add: cursor_of_def line_start_def)
  have pieces: "[] \<notin> set (print_marks (line_start p) ms)"
    using print_marks_pieces print_mark_nonempty by metis
  have split: "split_on (\<lambda>c. c = CHR '','') (join '','' (print_marks (line_start p) ms)) =
      print_marks (line_start p) ms" if "ms \<noteq> []"
    using that print_marks_pieces print_mark_chars
    by (intro split_on_join) (auto simp: print_marks_eq_Nil, metis)
  show ?thesis
    using decode_segments_print [OF ok assms(2), of "[]"] split pieces
    by (cases "ms = []") (auto simp: decode_group_def start join_eq_Nil print_marks_eq_Nil Let_def)
qed

lemma decode_groups_print:
  assumes "producer_ok p" "\<forall>ms \<in> set ls. \<forall>m \<in> set ms. mark_ok m"
  shows "decode_groups (cursor_of p) acc (print_lines p ls) =
    Some (acc @ map (\<lambda>ms. concat (map mark_segs ms)) ls)"
  using assms
proof (induction ls arbitrary: p acc)
  case (Cons ms ls)
  then show ?case using decode_group_print [of p ms] by simp
qed simp

lemma join_set: "x \<in> set (join s xs) \<Longrightarrow> x \<in> set s \<or> (\<exists>y \<in> set xs. x \<in> set y)"
  by (induction s xs rule: join.induct) auto

lemma print_lines_pieces:
  "s \<in> set (print_lines p ls) \<Longrightarrow> c \<in> set s \<Longrightarrow> c \<noteq> CHR '';''"
proof (induction ls arbitrary: p)
  case (Cons ms ls)
  then show ?case
    using join_set [of c "'',''" "print_marks (line_start p) ms"] print_marks_pieces print_mark_chars by fastforce
qed simp

lemma decode_print:
  assumes "ls \<noteq> []" "\<forall>ms \<in> set ls. \<forall>m \<in> set ms. mark_ok m"
  shows "decode_mappings (print_mappings ls) = Some (map (\<lambda>ms. concat (map mark_segs ms)) ls)"
proof -
  have "split_on (\<lambda>c. c = CHR '';'') (print_mappings ls) = print_lines producer_start ls"
    unfolding print_mappings_def using assms(1) print_lines_pieces
    by (intro split_on_join) (cases ls, auto)
  moreover have "cursor_start = cursor_of producer_start" "producer_ok producer_start"
    by (simp_all add: cursor_start_def cursor_of_def producer_start_def producer_ok_def)
  ultimately show ?thesis
    using decode_groups_print [of producer_start ls "[]"] assms(2) by (simp add: decode_mappings_def)
qed


section \<open>The search\<close>

lemma partition_loop_bounds:
  assumes "\<forall>i < length xs. P (xs ! i) \<longleftrightarrow> i < k" "base \<le> k" "k \<le> base + sz" "1 \<le> sz" "base + sz \<le> length xs"
  shows "partition_loop P xs base sz \<le> k \<and> k \<le> partition_loop P xs base sz + 1 \<and>
    partition_loop P xs base sz < length xs"
  using assms
proof (induction P xs base sz rule: partition_loop.induct)
  case (1 P xs base sz)
  show ?case
  proof (cases "sz \<le> 1")
    case True
    then show ?thesis using 1(3-6) by (simp add: partition_loop.simps [of P xs base sz])
  next
    case False
    let ?half = "sz div 2"
    let ?base = "if P (xs ! (base + ?half)) then base + ?half else base"
    have "base + ?half < length xs" using False 1(6) by linarith
    then have mid: "P (xs ! (base + ?half)) \<longleftrightarrow> base + ?half < k" using 1(2) by blast
    have "?half \<le> sz - ?half" "1 \<le> sz - ?half" "0 < ?half" using False by linarith+
    then have "?base \<le> k" "k \<le> ?base + (sz - ?half)" "?base + (sz - ?half) \<le> length xs" "1 \<le> sz - ?half"
      using mid 1(3,4,6) by auto
    then show ?thesis
      using 1(1) [OF False refl refl 1(2)] False by (simp add: partition_loop.simps [of P xs base sz] Let_def)
  qed
qed

text \<open>On a list partitioned by \<open>P\<close> the search finds the boundary.\<close>

lemma partition_point_boundary:
  assumes "\<forall>i < length xs. P (xs ! i) \<longleftrightarrow> i < k" "k \<le> length xs"
  shows "partition_point P xs = k"
proof (cases "xs = []")
  case False
  let ?b = "partition_loop P xs 0 (length xs)"
  have "1 \<le> length xs" using False by (cases xs) auto
  then have "?b \<le> k \<and> k \<le> ?b + 1 \<and> ?b < length xs"
    using partition_loop_bounds [OF assms(1), of 0 "length xs"] assms(2) by simp
  moreover from this have "P (xs ! ?b) \<longleftrightarrow> ?b < k" using assms(1) by blast
  ultimately show ?thesis using False by (auto simp: partition_point_def Let_def)
qed (use assms(2) in \<open>simp add: partition_point_def\<close>)

lemma filter_sorted_prefix:
  fixes f :: "'a \<Rightarrow> 'b :: linorder"
  assumes "sorted (map f xs)"
  shows "filter (\<lambda>x. f x \<le> c) xs = takeWhile (\<lambda>x. f x \<le> c) xs"
  using assms
proof (induction xs)
  case (Cons x xs)
  have "\<not> f x \<le> c \<Longrightarrow> filter (\<lambda>x. f x \<le> c) xs = []"
    using Cons.prems by (auto simp: filter_empty_conv not_le intro: less_le_trans)
  then show ?case using Cons by auto
qed simp

lemma lookup_segs_glb:
  assumes "sorted (map sg_gen_col segs)"
  shows "lookup_segs segs column = (case filter (\<lambda>s. sg_gen_col s \<le> column) segs of
      [] \<Rightarrow> None | fs \<Rightarrow> Some (sg_src_line (last fs) + 1, sg_src_col (last fs)))"
proof -
  let ?P = "\<lambda>s. sg_gen_col s \<le> column"
  define k where "k = length (takeWhile ?P segs)"
  have k: "k \<le> length segs" by (simp add: k_def length_takeWhile_le)
  have "\<forall>i < length segs. ?P (segs ! i) \<longleftrightarrow> i < k"
  proof (intro allI impI iffI)
    fix i assume i: "i < length segs" "?P (segs ! i)"
    show "i < k"
    proof (rule ccontr)
      assume "\<not> i < k"
      then have "k < length segs" "k \<le> i" using i by auto
      then have "\<not> ?P (segs ! k)" unfolding k_def by (intro nth_length_takeWhile) simp
      moreover have "sg_gen_col (segs ! k) \<le> sg_gen_col (segs ! i)"
        using sorted_nth_mono [OF assms, of k i] i \<open>k \<le> i\<close> \<open>k < length segs\<close> by simp
      ultimately show False using i(2) by simp
    qed
  next
    fix i assume "i < length segs" "i < k"
    then have "segs ! i \<in> set (takeWhile ?P segs)"
      unfolding k_def by (metis nth_mem takeWhile_nth)
    then show "?P (segs ! i)" by (rule set_takeWhileD [THEN conjunct2])
  qed
  then have pp: "partition_point ?P segs = k" using k by (rule partition_point_boundary)
  have filt: "filter ?P segs = take k segs"
    using filter_sorted_prefix [OF assms] by (simp add: k_def takeWhile_eq_take [symmetric])
  show ?thesis
  proof (cases "k = 0")
    case False
    then have ne: "take k segs \<noteq> []" using k by (cases segs) auto
    then have "last (take k segs) = segs ! (k - 1)"
      using k False by (simp add: last_conv_nth [OF ne] min_def)
    with ne show ?thesis
      using False k pp filt by (cases "take k segs") (auto simp: lookup_segs_def Let_def)
  qed (use pp filt in \<open>simp add: lookup_segs_def\<close>)
qed

section \<open>The registry against its specification\<close>

text \<open>The latest text of each file is all that counts; it is decoded anew for every question.\<close>

definition spec_lookup ::
    "(string \<Rightarrow> string option) \<Rightarrow> (string \<Rightarrow> string option) \<Rightarrow> string \<Rightarrow> u32 \<Rightarrow> u32 \<Rightarrow> (u32 \<times> u32) option" where
  "spec_lookup mappings_of latest file line column =
     (if line = 0 then None
      else case latest file of
        None \<Rightarrow> None
      | Some json \<Rightarrow>
          (case decode mappings_of json of
             None \<Rightarrow> None
           | Some m \<Rightarrow> if unat (line - 1) < length m then lookup_segs (m ! unat (line - 1)) column else None))"

datatype call = Record string string | Lookup string u32 u32

fun run_calls :: "(string \<Rightarrow> string option) \<Rightarrow> registry \<Rightarrow> call list \<Rightarrow> (u32 \<times> u32) option list" where
  "run_calls M table [] = []"
| "run_calls M table (Record file json # cs) = run_calls M (record_map table file json) cs"
| "run_calls M table (Lookup file line column # cs) =
     (case lookup M table file line column of (table', r) \<Rightarrow> r # run_calls M table' cs)"

fun spec_calls ::
    "(string \<Rightarrow> string option) \<Rightarrow> (string \<Rightarrow> string option) \<Rightarrow> call list \<Rightarrow> (u32 \<times> u32) option list" where
  "spec_calls M latest [] = []"
| "spec_calls M latest (Record file json # cs) = spec_calls M (latest(file \<mapsto> json)) cs"
| "spec_calls M latest (Lookup file line column # cs) =
     spec_lookup M latest file line column # spec_calls M latest cs"

fun entry_for :: "(string \<Rightarrow> string option) \<Rightarrow> string \<Rightarrow> entry \<Rightarrow> bool" where
  "entry_for M json (Raw j) = (j = json)"
| "entry_for M json (Decoded m) = (decode M json = Some m)"
| "entry_for M json Invalid = (decode M json = None)"

definition table_for :: "(string \<Rightarrow> string option) \<Rightarrow> (string \<Rightarrow> string option) \<Rightarrow> registry \<Rightarrow> bool" where
  "table_for M latest table \<longleftrightarrow> (\<forall>file. rel_option (entry_for M) (latest file) (map_of table file))"

lemma table_for_update:
  "table_for M latest table \<Longrightarrow> entry_for M json e \<Longrightarrow>
     table_for M (latest(key \<mapsto> json)) (AList.update key e table)"
  by (auto simp: table_for_def map_of_AList_update)

lemma lookup_refines:
  assumes "table_for M latest table" "lookup M table file line column = (table', r)"
  shows "table_for M latest table' \<and> r = spec_lookup M latest file line column"
proof (cases "line = 0 \<or> latest file = None")
  case True
  moreover have "rel_option (entry_for M) (latest file) (map_of table file)"
    using assms(1) by (simp add: table_for_def)
  ultimately show ?thesis using assms by (auto simp: lookup_def spec_lookup_def)
next
  case False
  then obtain json where json: "latest file = Some json" by blast
  have "rel_option (entry_for M) (latest file) (map_of table file)"
    using assms(1) by (simp add: table_for_def)
  then obtain e where e: "map_of table file = Some e" "entry_for M json e"
    unfolding json by (cases "map_of table file") auto
  define e' where "e' = (case e of
       Raw j \<Rightarrow> (case decode M j of Some m \<Rightarrow> Decoded m | None \<Rightarrow> Invalid) | _ \<Rightarrow> e)"
  have e': "entry_for M json e'" "\<nexists>j. e' = Raw j"
    using e(2) by (cases e; auto simp: e'_def split: option.splits)+
  have same: "latest(file \<mapsto> json) = latest" using json by auto
  have t': "table' = AList.update file e' table"
    and r: "r = (case e' of Decoded m \<Rightarrow>
        (let l = unat (line - 1) in if l < length m then lookup_segs (m ! l) column else None) | _ \<Rightarrow> None)"
    using assms(2) False e(1) by (auto simp: lookup_def Let_def e'_def)
  have "table_for M latest table'"
    using table_for_update [OF assms(1) e'(1), where key = "file"] by (simp only: same t')
  moreover have "r = spec_lookup M latest file line column"
    using False e' json by (cases e') (auto simp: r spec_lookup_def Let_def)
  ultimately show ?thesis by blast
qed

lemma run_calls_refines: "table_for M latest table \<Longrightarrow> run_calls M table cs = spec_calls M latest cs"
proof (induction cs arbitrary: latest table)
  case (Cons c cs)
  show ?case
  proof (cases c)
    case (Record f json)
    then show ?thesis
      using Cons.IH [OF table_for_update [OF Cons.prems, where json = json and e = "Raw json" and key = f]]
      by (simp add: record_map_def fun_upd_def)
  next
    case (Lookup f line column)
    obtain table' r where l: "lookup M table f line column = (table', r)" by fastforce
    then show ?thesis
      using lookup_refines [OF Cons.prems l] Cons.IH [of latest table'] Lookup by simp
  qed
qed simp


section \<open>The properties\<close>

text \<open>
  Property C10. Decoding inverts encoding: the \<open>mappings\<close> string of any map whose counts fit in 32
  bits (columns in any order, segments with and without a source or a name, empty lines) decodes to
  exactly its segments with a source, line by line.
\<close>

theorem decode_inverts_encode:
  assumes "ls \<noteq> []" "\<forall>ms \<in> set ls. \<forall>m \<in> set ms. mark_ok m"
  shows "decode_mappings (print_mappings ls) = Some (map (\<lambda>ms. concat (map mark_segs ms)) ls)"
  using decode_print [OF assms] .

theorem decode_inverts_encode_witness:
  "decode_mappings (print_mappings [[Mapped 0 0 3 0 None], [], [Plain 4, Mapped 10 0 6 2 (Some 1)]]) =
     Some [[\<lparr>sg_gen_col = 0, sg_src_line = 3, sg_src_col = 0\<rparr>], [],
           [\<lparr>sg_gen_col = 10, sg_src_line = 6, sg_src_col = 2\<rparr>]]"
  using decode_inverts_encode [of "[[Mapped 0 0 3 0 None], [], [Plain 4, Mapped 10 0 6 2 (Some 1)]]"] by simp

text \<open>
  Property C20. Whatever the order of \<open>record\<close>s and \<open>lookup\<close>s from an empty registry, every lookup
  answers as if the latest map of its file was decoded for it alone: decoding on first use and
  remembering the outcome, a failure included, shows nowhere.
\<close>

theorem registry_refines_latest: "run_calls M [] cs = spec_calls M Map.empty cs"
proof -
  have "table_for M Map.empty []" by (simp add: table_for_def)
  then show ?thesis by (rule run_calls_refines)
qed

definition mark_positions :: "mark list \<Rightarrow> (nat \<times> nat \<times> nat) list" where
  "mark_positions ms = concat (map (\<lambda>m. case m of Plain _ \<Rightarrow> [] | Mapped g _ l c _ \<Rightarrow> [(g, l, c)]) ms)"

definition seg_of :: "nat \<times> nat \<times> nat \<Rightarrow> seg" where
  "seg_of = (\<lambda>(g, l, c). \<lparr>sg_gen_col = of_nat g, sg_src_line = of_nat l, sg_src_col = of_nat c\<rparr>)"

lemma mark_segs_positions: "concat (map mark_segs ms) = map seg_of (mark_positions ms)"
  by (induction ms) (auto simp: mark_positions_def seg_of_def split: mark.splits)

lemma of_nat_le_u32: "g < 2 ^ 32 \<Longrightarrow> (of_nat g :: u32) \<le> c \<longleftrightarrow> g \<le> unat c"
  by (simp add: word_le_nat_alt unsigned_of_nat take_bit_nat_eq_self)

lemma of_nat_mono_u32: "g \<le> h \<Longrightarrow> h < 2 ^ 32 \<Longrightarrow> (of_nat g :: u32) \<le> of_nat h"
  by (simp add: of_nat_le_u32 unsigned_of_nat take_bit_nat_eq_self)

lemma mark_positions_ok: "\<forall>m \<in> set ms. mark_ok m \<Longrightarrow> p \<in> set (mark_positions ms) \<Longrightarrow> fst p < 2 ^ 32"
  by (induction ms) (auto simp: mark_positions_def split: mark.splits)

lemma sorted_segs:
  "sorted (map fst ps) \<Longrightarrow> \<forall>p \<in> set ps. fst p < 2 ^ 32 \<Longrightarrow> sorted (map sg_gen_col (map seg_of ps))"
  by (induction ps) (fastforce simp: seg_of_def intro!: of_nat_mono_u32)+

text \<open>
  Property C32. Where the marked columns of a line ascend, a lookup on that line gives the source
  position (its line counted from one) of the last segment at or before the column asked for, and
  nothing where there is none.
\<close>

theorem lookup_greatest_lower_bound:
  assumes "ls \<noteq> []" "\<forall>ms \<in> set ls. \<forall>m \<in> set ms. mark_ok m" "M json = Some (print_mappings ls)"
    "n < length ls" "Suc n < 2 ^ 32" "sorted (map fst (mark_positions (ls ! n)))"
  shows "snd (lookup M (record_map table key json) key (of_nat (Suc n)) column) =
    (case filter (\<lambda>(g, _). g \<le> unat column) (mark_positions (ls ! n)) of
       [] \<Rightarrow> None
     | ps \<Rightarrow> (case last ps of (_, l, c) \<Rightarrow> Some (of_nat (Suc l), of_nat c)))"
proof -
  let ?ps = "mark_positions (ls ! n)"
  have "ls ! n \<in> set ls" using assms(4) by simp
  then have small: "\<forall>p \<in> set ?ps. fst p < 2 ^ 32" using assms(2) mark_positions_ok by blast
  have "unat (of_nat (Suc n) :: u32) = Suc n" "unat (of_nat n :: u32) = n"
    using assms(5) by (simp_all only: unsigned_of_nat) (simp_all add: take_bit_nat_eq_self)
  then have line: "(of_nat (Suc n) :: u32) \<noteq> 0" "unat (of_nat (Suc n) - 1 :: u32) = n"
    by (metis nat.distinct(1) unsigned_0, simp)
  have "snd (lookup M (record_map table key json) key (of_nat (Suc n)) column) = lookup_segs (map seg_of ?ps) column"
    using line assms(3,4) decode_print [OF assms(1,2)]
    by (simp add: lookup_def record_map_def map_of_AList_update decode_def mark_segs_positions del: of_nat_Suc)
  also have "\<dots> = (case filter (\<lambda>s. sg_gen_col s \<le> column) (map seg_of ?ps) of
      [] \<Rightarrow> None | fs \<Rightarrow> Some (sg_src_line (last fs) + 1, sg_src_col (last fs)))"
    by (rule lookup_segs_glb [OF sorted_segs [OF assms(6) small]])
  also have "filter (\<lambda>s. sg_gen_col s \<le> column) (map seg_of ?ps) =
      map seg_of (filter (\<lambda>(g, _). g \<le> unat column) ?ps)"
    using small by (auto simp: filter_map o_def seg_of_def of_nat_le_u32 intro!: arg_cong [of _ _ "map _"] filter_cong)
  finally show ?thesis
    by (cases "filter (\<lambda>(g, _). g \<le> unat column) ?ps")
      (auto simp: last_map seg_of_def add.commute split: prod.splits)
qed


theorem lookup_greatest_lower_bound_witness:
  "snd (lookup Some (record_map [] ''a.ts'' (print_mappings [[Mapped 0 0 3 0 None], [Mapped 0 0 5 0 None, Mapped 10 0 6 2 None]]))
     ''a.ts'' (of_nat (Suc 1)) 40) = Some (7, 2)"
  using lookup_greatest_lower_bound [of "[[Mapped 0 0 3 0 None], [Mapped 0 0 5 0 None, Mapped 10 0 6 2 None]]" Some _ 1
      "[]" "''a.ts''" 40]
  by (simp add: mark_positions_def)

text \<open>
  The decoder takes columns in any order, and the search then misses: on a line whose columns are 3,
  10 and 4, column 4 is given the segment at 3.
\<close>

lemma unsorted_line_decodes:
  "map_option (map (map sg_gen_col)) (decode_mappings ''GAAA,OAAC,NAAC'') = Some [[3, 10, 4]]"
  using decode_print [of "[[Mapped 3 0 0 0 None, Mapped 10 0 0 1 None, Mapped 4 0 0 2 None]]"]
  by (simp add: print_mappings_def print_mark_def encode_vlq_def zigzag_def vlq_digits.simps b64_def
      producer_start_def line_start_def)

lemma unsorted_line_misses:
  "lookup_segs [\<lparr>sg_gen_col = 3, sg_src_line = 0, sg_src_col = 0\<rparr>, \<lparr>sg_gen_col = 10, sg_src_line = 0, sg_src_col = 1\<rparr>,
     \<lparr>sg_gen_col = 4, sg_src_line = 0, sg_src_col = 2\<rparr>] 4 = Some (1, 0)"
  by (simp add: lookup_segs_def partition_point_def partition_loop.simps Let_def)

end
