(* ===== verification/Cert_Names.thy ===== *)
theory Cert_Names
  imports Ip_Addr
begin

text \<open>
  A certificate's names (\<open>crates/oam_core/src/tls/names.rs\<close>): the DER reader, the printing of a
  GeneralName as node prints it, libuv's address texts, and the identity a host is checked against.

  Bytes are \<open>char\<close>s. A \<open>String\<close> whose characters matter is a \<open>ustr\<close>, the list of its code points;
  \<open>from_utf8_lossy\<close> and \<open>encode_utf8\<close> are the standard library's. An address is the list of its 4 or
  16 bytes. The X.509 parser is an argument that yields the record \<open>cert\<close>.
\<close>

section \<open>UTF-8\<close>

definition asc :: "string \<Rightarrow> ustr" where
  "asc s = map byte_of s"

definition is_cont :: "nat \<Rightarrow> bool" where
  "is_cont b \<longleftrightarrow> 0x80 \<le> b \<and> b \<le> 0xBF"

text \<open>The first character of a non-empty byte string and the bytes it takes, or the bytes to replace.\<close>

definition second3 :: "nat \<Rightarrow> nat \<Rightarrow> bool" where
  "second3 x b \<longleftrightarrow> (if x = 0xE0 then 0xA0 \<le> b \<and> b \<le> 0xBF else if x = 0xED then 0x80 \<le> b \<and> b \<le> 0x9F else is_cont b)"

definition second4 :: "nat \<Rightarrow> nat \<Rightarrow> bool" where
  "second4 x b \<longleftrightarrow> (if x = 0xF0 then 0x90 \<le> b \<and> b \<le> 0xBF else if x = 0xF4 then 0x80 \<le> b \<and> b \<le> 0x8F else is_cont b)"

definition utf8_first :: "nat list \<Rightarrow> nat option \<times> nat" where
  "utf8_first bs =
     (let x = bs ! 0; n = length bs in
      if x < 0x80 then (Some x, 1)
      else if 0xC2 \<le> x \<and> x \<le> 0xDF then
        (if 1 < n \<and> is_cont (bs ! 1) then (Some ((x - 0xC0) * 64 + (bs ! 1 - 0x80)), 2) else (None, 1))
      else if 0xE0 \<le> x \<and> x \<le> 0xEF then
        (if 1 < n \<and> second3 x (bs ! 1) then
           (if 2 < n \<and> is_cont (bs ! 2)
            then (Some ((x - 0xE0) * 4096 + (bs ! 1 - 0x80) * 64 + (bs ! 2 - 0x80)), 3) else (None, 2))
         else (None, 1))
      else if 0xF0 \<le> x \<and> x \<le> 0xF4 then
        (if 1 < n \<and> second4 x (bs ! 1) then
           (if 2 < n \<and> is_cont (bs ! 2) then
              (if 3 < n \<and> is_cont (bs ! 3)
               then (Some ((x - 0xF0) * 262144 + (bs ! 1 - 0x80) * 4096 + (bs ! 2 - 0x80) * 64 + (bs ! 3 - 0x80)), 4)
               else (None, 3))
            else (None, 2))
         else (None, 1))
      else (None, 1))"

lemma utf8_first_pos: "0 < snd (utf8_first bs)"
  by (simp add: utf8_first_def Let_def)

function utf8_chunks :: "nat list \<Rightarrow> nat option list" where
  "utf8_chunks bs =
     (if bs = [] then [] else fst (utf8_first bs) # utf8_chunks (drop (snd (utf8_first bs)) bs))"
  by auto
termination
  using utf8_first_pos by (relation "measure length") auto

declare utf8_chunks.simps [simp del]

definition from_utf8_lossy :: "string \<Rightarrow> ustr" where
  "from_utf8_lossy s = map (\<lambda>c. case c of Some x \<Rightarrow> x | None \<Rightarrow> 0xFFFD) (utf8_chunks (map byte_of s))"

definition from_utf8 :: "string \<Rightarrow> ustr option" where
  "from_utf8 s = (let cs = utf8_chunks (map byte_of s) in if None \<in> set cs then None else Some (map the cs))"

definition encode_utf8 :: "nat \<Rightarrow> string" where
  "encode_utf8 c = map char_of
     (if c < 0x80 then [c]
      else if c < 0x800 then [0xC0 + c div 64, 0x80 + c mod 64]
      else if c < 0x10000 then [0xE0 + c div 4096, 0x80 + c div 64 mod 64, 0x80 + c mod 64]
      else [0xF0 + c div 262144, 0x80 + c div 4096 mod 64, 0x80 + c div 64 mod 64, 0x80 + c mod 64])"

definition as_bytes :: "ustr \<Rightarrow> string" where
  "as_bytes s = concat (map encode_utf8 s)"

text \<open>\<open>char::from_u32\<close>: a scalar value.\<close>

definition char_from_u32 :: "nat \<Rightarrow> nat option" where
  "char_from_u32 c = (if c < 0xD800 \<or> 0xE000 \<le> c \<and> c < 0x110000 then Some c else None)"

section \<open>DER\<close>

record der =
  der_tag :: nat
  der_content :: string
  der_raw :: string

text \<open>The bit tests are on one byte: \<open>& 0x1f\<close> is the remainder by 32, \<open>& 0x80\<close> the top bit.\<close>

definition der_length :: "string \<Rightarrow> (nat \<times> string) option" where
  "der_length rest =
     (case rest of
        [] \<Rightarrow> None
      | f # rest \<Rightarrow>
          if byte_of f < 0x80 then Some (byte_of f, rest)
          else (let count = byte_of f mod 0x80 in
            if count = 0 \<or> 4 < count \<or> length rest < count then None
            else Some (foldl (\<lambda>acc b. acc * 256 + byte_of b) 0 (take count rest), drop count rest)))"

definition read_der :: "string \<Rightarrow> (der \<times> string) option" where
  "read_der input =
     (case input of
        [] \<Rightarrow> None
      | tag # rest \<Rightarrow>
          if byte_of tag mod 32 = 31 then None
          else (case der_length rest of
             None \<Rightarrow> None
           | Some (len, rest) \<Rightarrow>
               if length rest < len then None
               else (let header = length input - length rest
                     in Some (\<lparr>der_tag = byte_of tag, der_content = take len rest, der_raw = take (header + len) input\<rparr>,
                          drop len rest))))"

lemma der_length_shorter: "der_length s = Some (n, r) \<Longrightarrow> length r < length s"
  by (cases s) (auto simp: der_length_def Let_def split: if_splits)

lemma read_der_shorter: "read_der s = Some (d, r) \<Longrightarrow> length r < length s"
  by (cases s) (auto simp: read_der_def Let_def dest!: der_length_shorter split: if_splits option.splits)

function der_items :: "string \<Rightarrow> der list option" where
  "der_items content =
     (if content = [] then Some []
      else case read_der content of
        None \<Rightarrow> None
      | Some (item, rest) \<Rightarrow> map_option (Cons item) (der_items rest))"
  by auto
termination
  using read_der_shorter by (relation "measure length") auto

declare der_items.simps [simp del]

text \<open>The arcs of an object identifier; a \<open>u128\<close> shifted left drops its high bits.\<close>

fun oid_arcs :: "string \<Rightarrow> nat \<Rightarrow> bool \<Rightarrow> nat list" where
  "oid_arcs [] acc fst_arc = []"
| "oid_arcs (b # bs) acc fst_arc =
     (let acc = (acc * 128) mod 2 ^ 128 + byte_of b mod 128 in
      if 0x80 \<le> byte_of b then oid_arcs bs acc fst_arc
      else if fst_arc then
        (if acc < 80 then [acc div 40, acc mod 40] else [2, acc - 80]) @ oid_arcs bs 0 False
      else acc # oid_arcs bs 0 False)"

definition oid_text :: "string \<Rightarrow> string" where
  "oid_text content = join ''.'' (map show_dec (oid_arcs content 0 True))"

definition attr_short_name :: "string \<Rightarrow> string option" where
  "attr_short_name oid = map_of
     [(''2.5.4.3'', ''CN''), (''2.5.4.4'', ''SN''), (''2.5.4.5'', ''serialNumber''), (''2.5.4.6'', ''C''),
      (''2.5.4.7'', ''L''), (''2.5.4.8'', ''ST''), (''2.5.4.9'', ''street''), (''2.5.4.10'', ''O''),
      (''2.5.4.11'', ''OU''), (''2.5.4.12'', ''title''), (''2.5.4.13'', ''description''),
      (''2.5.4.15'', ''businessCategory''), (''2.5.4.17'', ''postalCode''), (''2.5.4.41'', ''name''),
      (''2.5.4.42'', ''GN''), (''2.5.4.43'', ''initials''), (''2.5.4.44'', ''generationQualifier''),
      (''2.5.4.46'', ''dnQualifier''), (''2.5.4.65'', ''pseudonym''), (''2.5.4.97'', ''organizationIdentifier''),
      (''0.9.2342.19200300.100.1.1'', ''UID''), (''0.9.2342.19200300.100.1.25'', ''DC''),
      (''1.2.840.113549.1.9.1'', ''emailAddress''), (''1.3.6.1.4.1.311.60.2.1.1'', ''jurisdictionL''),
      (''1.3.6.1.4.1.311.60.2.1.2'', ''jurisdictionST''), (''1.3.6.1.4.1.311.60.2.1.3'', ''jurisdictionC'')] oid"

section \<open>Strings\<close>

definition char_width :: "nat \<Rightarrow> nat option" where
  "char_width tag =
     (if tag = 0x0c then Some 0
      else if tag \<in> {0x12, 0x13, 0x14, 0x16, 0x17, 0x18, 0x1a} then Some 1
      else if tag = 0x1c then Some 4
      else if tag = 0x1e then Some 2
      else None)"

function chunks :: "nat \<Rightarrow> 'a list \<Rightarrow> 'a list list" where
  "chunks n xs = (if n = 0 \<or> xs = [] then [] else take n xs # chunks n (drop n xs))"
  by auto
termination by (relation "measure (\<lambda>(n, xs). length xs)") auto

declare chunks.simps [simp del]

definition wide_chars :: "string \<Rightarrow> nat \<Rightarrow> nat list option" where
  "wide_chars content width =
     (if length content mod width \<noteq> 0 then None
      else Some (map (foldl (\<lambda>acc b. acc * 256 + byte_of b) 0) (chunks width content)))"

definition all_some :: "'a option list \<Rightarrow> 'a list option" where
  "all_some xs = (if None \<in> set xs then None else Some (map the xs))"

definition asn1_string_to_utf8 :: "nat \<Rightarrow> string \<Rightarrow> ustr option" where
  "asn1_string_to_utf8 tag content =
     (case char_width tag of
        None \<Rightarrow> None
      | Some w \<Rightarrow>
          if w = 0 then from_utf8 content
          else if w = 1 then Some (map byte_of content)
          else (case wide_chars content w of None \<Rightarrow> None | Some cs \<Rightarrow> all_some (map char_from_u32 cs)))"

definition is_safe_alt_name :: "string \<Rightarrow> bool \<Rightarrow> bool" where
  "is_safe_alt_name name utf8 \<longleftrightarrow>
     (\<forall>c \<in> set name.
        if c = CHR 0x22 \<or> c = CHR 0x5C \<or> c = CHR '','' \<or> c = CHR 0x27 then False
        else if utf8 then 0x20 \<le> byte_of c \<and> byte_of c \<noteq> 0x7f
        else 0x20 \<le> byte_of c \<and> byte_of c \<le> 0x7e)"

text \<open>\<open>{c:04x}\<close> of a byte.\<close>

definition hex4 :: "nat \<Rightarrow> string" where
  "hex4 n = [CHR ''0'', CHR ''0'', digit_char (n div 16), digit_char (n mod 16)]"

definition escape_byte :: "bool \<Rightarrow> char \<Rightarrow> string" where
  "escape_byte utf8 c =
     (if c = CHR 0x5C then [CHR 0x5C, CHR 0x5C]
      else if c = CHR 0x22 then [CHR 0x5C, CHR 0x22]
      else if (0x20 \<le> byte_of c \<and> c \<noteq> CHR '','' \<and> byte_of c \<le> 0x7e) \<or> (utf8 \<and> 0x80 \<le> byte_of c) then [c]
      else CHR 0x5C # CHR ''u'' # hex4 (byte_of c))"

definition name_prefix :: "string option \<Rightarrow> string" where
  "name_prefix pre = (case pre of None \<Rightarrow> [] | Some p \<Rightarrow> p @ '':'')"

definition print_alt_name :: "string \<Rightarrow> bool \<Rightarrow> string option \<Rightarrow> string" where
  "print_alt_name name utf8 pre =
     (if is_safe_alt_name name utf8 then name_prefix pre @ name
      else [CHR 0x22] @ name_prefix pre @ concat (map (escape_byte utf8) name) @ [CHR 0x22])"

section \<open>Directory names\<close>

definition escape_2253 :: "char \<Rightarrow> bool \<Rightarrow> bool \<Rightarrow> string" where
  "escape_2253 c is_first is_last =
     (if c \<in> set '',+<>;'' \<or> c = CHR 0x22 \<or> c = CHR 0x5C \<or> (is_first \<and> (c = CHR ''#'' \<or> c = CHR '' '')) \<or>
         (is_last \<and> c = CHR '' '')
      then [CHR 0x5C, c] else [c])"

definition upper_hex :: "nat \<Rightarrow> char" where
  "upper_hex d = char_of (if d < 10 then 48 + d else 55 + d)"

definition print_name_char :: "nat \<Rightarrow> nat \<Rightarrow> nat \<Rightarrow> nat \<Rightarrow> string" where
  "print_name_char width n i c =
     (let is_last = (i + 1 = n); is_first = (i = 0 \<and> \<not> is_last) in
      if width = 0 \<or> c < 0x80 then
        (let byte = c mod 256 in
         if byte < 0x80 then escape_2253 (char_of byte) is_first is_last else [char_of byte])
      else (case char_from_u32 c of Some ch \<Rightarrow> encode_utf8 ch | None \<Rightarrow> encode_utf8 0xFFFD))"

definition print_name_value :: "der \<Rightarrow> bool \<Rightarrow> string" where
  "print_name_value v known_field =
     (case (if known_field then char_width (der_tag v) else None) of
        None \<Rightarrow> CHR ''#'' # concat (map (\<lambda>b. [upper_hex (byte_of b div 16), upper_hex (byte_of b mod 16)]) (der_raw v))
      | Some width \<Rightarrow>
          (let raw = map byte_of (der_content v);
               chars = (if width = 0 \<or> width = 1 then raw
                        else case wide_chars (der_content v) width of Some cs \<Rightarrow> cs | None \<Rightarrow> raw)
           in concat (map (\<lambda>(i, c). print_name_char width (length chars) i c) (enumerate 0 chars))))"

text \<open>The entries of a Name: the index of the set, the type and the value.\<close>

definition name_attribute :: "nat \<Rightarrow> der \<Rightarrow> (nat \<times> der \<times> der) option" where
  "name_attribute i attribute =
     (if der_tag attribute \<noteq> 0x30 then None
      else case der_items (der_content attribute) of
        Some [oid, v] \<Rightarrow> if der_tag oid \<noteq> 0x06 then None else Some (i, oid, v)
      | _ \<Rightarrow> None)"

definition name_rdn :: "nat \<Rightarrow> der \<Rightarrow> (nat \<times> der \<times> der) list option" where
  "name_rdn i rdn =
     (if der_tag rdn \<noteq> 0x31 then None
      else case der_items (der_content rdn) of
        None \<Rightarrow> None
      | Some attributes \<Rightarrow> all_some (map (name_attribute i) attributes))"

definition name_entries :: "der \<Rightarrow> (nat \<times> der \<times> der) list option" where
  "name_entries name =
     (if der_tag name \<noteq> 0x30 then None
      else case der_items (der_content name) of
        None \<Rightarrow> None
      | Some rdns \<Rightarrow> map_option concat (all_some (map (\<lambda>(i, rdn). name_rdn i rdn) (enumerate 0 rdns))))"

fun print_entries :: "nat option \<Rightarrow> (nat \<times> der \<times> der) list \<Rightarrow> string" where
  "print_entries previous [] = []"
| "print_entries previous ((i, oid, v) # es) =
     (case previous of None \<Rightarrow> [] | Some p \<Rightarrow> if p = i then ''+'' else '','') @
     (let dotted = oid_text (der_content oid); short = attr_short_name dotted
      in unwrap_or dotted short @ ''='' @ print_name_value v (short \<noteq> None)) @
     print_entries (Some i) es"

definition print_directory_name :: "der \<Rightarrow> string option" where
  "print_directory_name name = map_option (\<lambda>es. print_entries None (rev es)) (name_entries name)"

section \<open>General names\<close>

datatype general_name =
  GOther string der | GEmail string | GDns string | GX400 | GDirectory der | GEdiParty | GUri string | GIp string
| GRegistered string

definition general_name :: "der \<Rightarrow> general_name option" where
  "general_name item =
     (let t = der_tag item; content = der_content item in
      if t = 0xa0 then
        (case der_items content of
           Some [type_id, explicit] \<Rightarrow>
             if der_tag type_id \<noteq> 0x06 \<or> der_tag explicit \<noteq> 0xa0 then None
             else (case read_der (der_content explicit) of
                Some (v, []) \<Rightarrow> Some (GOther (der_content type_id) v)
              | _ \<Rightarrow> None)
         | _ \<Rightarrow> None)
      else if t = 0x81 then Some (GEmail content)
      else if t = 0x82 then Some (GDns content)
      else if t = 0xa3 then Some GX400
      else if t = 0xa4 then
        (case read_der content of
           Some (name, []) \<Rightarrow> if print_directory_name name = None then None else Some (GDirectory name)
         | _ \<Rightarrow> None)
      else if t = 0xa5 then Some GEdiParty
      else if t = 0x86 then Some (GUri content)
      else if t = 0x87 then Some (GIp content)
      else if t = 0x88 then Some (GRegistered content)
      else None)"

definition general_names :: "string \<Rightarrow> general_name list option" where
  "general_names input =
     (case read_der input of
        None \<Rightarrow> None
      | Some (sq, _) \<Rightarrow>
          if der_tag sq \<noteq> 0x30 then None
          else (case der_items (der_content sq) of
             None \<Rightarrow> None
           | Some items \<Rightarrow> all_some (map general_name items)))"

definition other_name_prefix :: "string \<Rightarrow> (string \<times> bool) option" where
  "other_name_prefix type_id = map_of
     [(''1.3.6.1.5.5.7.8.9'', (''SmtpUTF8Mailbox'', True)), (''1.3.6.1.5.5.7.8.5'', (''XmppAddr'', True)),
      (''1.3.6.1.5.5.7.8.7'', (''SRVName'', False)), (''1.3.6.1.4.1.311.20.2.3'', (''UPN'', True)),
      (''1.3.6.1.5.5.7.8.8'', (''NAIRealm'', True))] (oid_text type_id)"

text \<open>\<open>{:X}\<close> of a number.\<close>

function show_upper :: "nat \<Rightarrow> string" where
  "show_upper n = (if n < 16 then [upper_hex n] else show_upper (n div 16) @ [upper_hex (n mod 16)])"
  by auto
termination by (relation "measure id") auto

declare show_upper.simps [simp del]

fun be_words :: "nat list \<Rightarrow> nat list" where
  "be_words (a # b # r) = (a * 256 + b) # be_words r"
| "be_words _ = []"

definition ip_entry_text :: "nat list \<Rightarrow> string" where
  "ip_entry_text bs =
     (if length bs = 4 then join ''.'' (map show_dec bs)
      else if length bs = 16 then join '':'' (map show_upper (be_words bs))
      else ''<invalid length='' @ show_dec (length bs) @ ''>'')"

definition general_name_bytes :: "general_name \<Rightarrow> string" where
  "general_name_bytes name = (case name of
     GDns bs \<Rightarrow> ''DNS:'' @ print_alt_name bs False None
   | GEmail bs \<Rightarrow> ''email:'' @ print_alt_name bs False None
   | GUri bs \<Rightarrow> ''URI:'' @ print_alt_name bs False None
   | GDirectory d \<Rightarrow> ''DirName:'' @
       (case print_directory_name d of Some t \<Rightarrow> print_alt_name t True None | None \<Rightarrow> ''<unsupported>'')
   | GIp bs \<Rightarrow> ''IP Address:'' @ ip_entry_text (map byte_of bs)
   | GRegistered oid \<Rightarrow> ''Registered ID:'' @ oid_text oid
   | GOther type_id v \<Rightarrow>
       (case other_name_prefix type_id of
          Some (pre, unicode) \<Rightarrow>
            if der_tag v = (if unicode then 0x0c else 0x16)
            then ''othername:'' @ print_alt_name (der_content v) unicode (Some pre)
            else ''othername:<unsupported>''
        | None \<Rightarrow> ''othername:<unsupported>'')
   | GX400 \<Rightarrow> ''X400Name:<unsupported>''
   | GEdiParty \<Rightarrow> ''EdiPartyName:<unsupported>'')"

definition general_name_text :: "general_name \<Rightarrow> ustr" where
  "general_name_text name = from_utf8_lossy (general_name_bytes name)"

definition names_text :: "general_name list \<Rightarrow> ustr" where
  "names_text names = join (asc '', '') (map general_name_text names)"

definition alt_names_text :: "string \<Rightarrow> ustr option" where
  "alt_names_text ext_value = map_option names_text (general_names ext_value)"

definition access_line :: "der \<Rightarrow> ustr option" where
  "access_line description =
     (case der_items (der_content description) of
        Some [method, location] \<Rightarrow>
          if der_tag description \<noteq> 0x30 \<or> der_tag method \<noteq> 0x06 then None
          else
            (let oid = oid_text (der_content method);
                 m = (if oid = ''1.3.6.1.5.5.7.48.1'' then ''OCSP''
                      else if oid = ''1.3.6.1.5.5.7.48.2'' then ''CA Issuers'' else oid)
             in case general_name location of
                  None \<Rightarrow> None
                | Some name \<Rightarrow> Some (asc (m @ '' - '') @ general_name_text name))
      | _ \<Rightarrow> None)"

definition info_access_text :: "string \<Rightarrow> ustr option" where
  "info_access_text ext_value =
     (case read_der ext_value of
        None \<Rightarrow> None
      | Some (sq, _) \<Rightarrow>
          if der_tag sq \<noteq> 0x30 then None
          else (case der_items (der_content sq) of
             None \<Rightarrow> None
           | Some ds \<Rightarrow> map_option (join [10]) (all_some (map access_line ds))))"

section \<open>Addresses\<close>

fun pton4_loop :: "string \<Rightarrow> nat list \<Rightarrow> nat \<Rightarrow> bool \<Rightarrow> nat \<Rightarrow> nat list option" where
  "pton4_loop [] out octets saw_digit current = (if octets = 4 then Some out else None)"
| "pton4_loop (ch # cs) out octets saw_digit current =
     (if is_ascii_digit ch then
        (let nxt = current * 10 + (byte_of ch - 48) in
         if saw_digit \<and> current = 0 then None
         else if 255 < nxt then None
         else
           (let octets' = (if saw_digit then octets else octets + 1) in
            if \<not> saw_digit \<and> 4 < octets' then None
            else pton4_loop cs (out[octets' - 1 := nxt]) octets' True nxt))
      else if ch = CHR ''.'' \<and> saw_digit then
        (if octets = 4 then None else pton4_loop cs out octets False 0)
      else None)"

definition inet_pton4 :: "string \<Rightarrow> nat list option" where
  "inet_pton4 s = pton4_loop s (replicate 4 0) 0 False 0"

record pton6 =
  p6_out :: "nat list"
  p6_tp :: nat
  p6_colon :: "nat option"
  p6_seen :: nat
  p6_value :: nat

definition pton6_store :: "pton6 \<Rightarrow> pton6 option" where
  "pton6_store st =
     (if 16 < p6_tp st + 2 then None
      else Some (st\<lparr>p6_out := (p6_out st)[p6_tp st := p6_value st div 256 mod 256, p6_tp st + 1 := p6_value st mod 256],
        p6_tp := p6_tp st + 2\<rparr>))"

text \<open>The loop over the text; \<open>token\<close> is the text from the start of the current group.\<close>

fun pton6_loop :: "string \<Rightarrow> string \<Rightarrow> pton6 \<Rightarrow> pton6 option" where
  "pton6_loop [] token st = Some st"
| "pton6_loop (ch # cs) token st =
     (case to_digit 16 ch of
        Some digit \<Rightarrow>
          if 4 < p6_seen st + 1 then None
          else pton6_loop cs token (st\<lparr>p6_value := p6_value st * 16 + digit, p6_seen := p6_seen st + 1\<rparr>)
      | None \<Rightarrow>
          if ch = CHR '':'' then
            (if p6_seen st = 0 then
               (if p6_colon st \<noteq> None then None else pton6_loop cs cs (st\<lparr>p6_colon := Some (p6_tp st)\<rparr>))
             else if cs = [] then None
             else (case pton6_store st of
                None \<Rightarrow> None
              | Some st' \<Rightarrow> pton6_loop cs cs (st'\<lparr>p6_seen := 0, p6_value := 0\<rparr>)))
          else if ch = CHR ''.'' \<and> p6_tp st + 4 \<le> 16 then
            (case inet_pton4 token of
               Some v4 \<Rightarrow> Some (st\<lparr>p6_out := take (p6_tp st) (p6_out st) @ v4 @ drop (p6_tp st + 4) (p6_out st),
                 p6_tp := p6_tp st + 4, p6_seen := 0\<rparr>)
             | None \<Rightarrow> None)
          else None)"

text \<open>Moving the bytes after \<open>::\<close> to the end, one by one from the last.\<close>

fun pton6_move :: "nat \<Rightarrow> nat \<Rightarrow> nat \<Rightarrow> nat list \<Rightarrow> nat list" where
  "pton6_move colon moved 0 out = out"
| "pton6_move colon moved (Suc k) out =
     (let out = pton6_move colon moved k out
      in out[16 - Suc k := out ! (colon + moved - Suc k), colon + moved - Suc k := 0])"

definition inet_pton6 :: "string \<Rightarrow> nat list option" where
  "inet_pton6 s =
     (case (case position (\<lambda>c. c = CHR ''%'') s of
              Some at \<Rightarrow> if 45 < at then None else Some (take at s)
            | None \<Rightarrow> Some s) of
        None \<Rightarrow> None
      | Some s \<Rightarrow>
          if s \<noteq> [] \<and> hd s = CHR '':'' \<and> (length s < 2 \<or> s ! 1 \<noteq> CHR '':'') then None
          else
            (let src = (if s \<noteq> [] \<and> hd s = CHR '':'' then tl s else s);
                 st0 = \<lparr>p6_out = replicate 16 0, p6_tp = 0, p6_colon = None, p6_seen = 0, p6_value = 0\<rparr>
             in case pton6_loop src src st0 of
                  None \<Rightarrow> None
                | Some st \<Rightarrow>
                    (case (if 0 < p6_seen st then pton6_store st else Some st) of
                       None \<Rightarrow> None
                     | Some st \<Rightarrow>
                         (case p6_colon st of
                            Some colon \<Rightarrow>
                              if p6_tp st = 16 then None
                              else (let moved = p6_tp st - colon in Some (pton6_move colon moved moved (p6_out st)))
                          | None \<Rightarrow> if p6_tp st = 16 then Some (p6_out st) else None))))"

record run_state =
  rs_best_base :: "nat option"
  rs_best_len :: nat
  rs_cur_base :: "nat option"
  rs_cur_len :: nat

definition run_close :: "run_state \<Rightarrow> run_state" where
  "run_close r = (case rs_cur_base r of
     Some base \<Rightarrow>
       if rs_best_base r = None \<or> rs_best_len r < rs_cur_len r
       then r\<lparr>rs_best_base := Some base, rs_best_len := rs_cur_len r, rs_cur_base := None\<rparr>
       else r\<lparr>rs_cur_base := None\<rparr>
   | None \<Rightarrow> r)"

definition run_word :: "run_state \<Rightarrow> nat \<times> nat \<Rightarrow> run_state" where
  "run_word r = (\<lambda>(i, word).
     if word = 0 then
       (case rs_cur_base r of
          None \<Rightarrow> r\<lparr>rs_cur_base := Some i, rs_cur_len := 1\<rparr>
        | Some _ \<Rightarrow> r\<lparr>rs_cur_len := rs_cur_len r + 1\<rparr>)
     else run_close r)"

definition best_run :: "nat list \<Rightarrow> nat option \<times> nat" where
  "best_run words =
     (let r = run_close (foldl run_word
            \<lparr>rs_best_base = None, rs_best_len = 0, rs_cur_base = None, rs_cur_len = 0\<rparr> (enumerate 0 words))
      in (if rs_best_len r < 2 then None else rs_best_base r, rs_best_len r))"

definition in_run :: "nat option \<Rightarrow> nat \<Rightarrow> nat \<Rightarrow> bool" where
  "in_run best_base best_len i = (case best_base of Some base \<Rightarrow> base \<le> i \<and> i < base + best_len | None \<Rightarrow> False)"

definition dotted_tail :: "nat list \<Rightarrow> nat option \<Rightarrow> nat \<Rightarrow> bool" where
  "dotted_tail words best_base best_len \<longleftrightarrow> best_base = Some 0 \<and>
     (best_len = 6 \<or> best_len = 7 \<and> words ! 7 \<noteq> 1 \<or> best_len = 5 \<and> words ! 5 = 0xffff)"

text \<open>The loop over the groups from \<open>i\<close>; the second component tells an early return.\<close>

fun ntop6_loop :: "nat list \<Rightarrow> nat list \<Rightarrow> nat option \<Rightarrow> nat \<Rightarrow> nat list \<Rightarrow> string \<times> bool" where
  "ntop6_loop bs words bb bl [] = ([], False)"
| "ntop6_loop bs words bb bl (i # js) =
     (if in_run bb bl i then
        (let (out, early) = ntop6_loop bs words bb bl js in ((if bb = Some i then '':'' else []) @ out, early))
      else
        (let sep = (if i \<noteq> 0 then '':'' else []) in
         if i = 6 \<and> dotted_tail words bb bl then
           (sep @ join ''.'' (map show_dec [bs ! 12, bs ! 13, bs ! 14, bs ! 15]), True)
         else
           (let (out, early) = ntop6_loop bs words bb bl js in (sep @ show_hex (words ! i) @ out, early))))"

definition inet_ntop6 :: "nat list \<Rightarrow> string" where
  "inet_ntop6 bs =
     (let words = be_words bs;
          (bb, bl) = best_run words;
          (out, early) = ntop6_loop bs words bb bl [0, 1, 2, 3, 4, 5, 6, 7]
      in if \<not> early \<and> (case bb of Some base \<Rightarrow> base + bl = 8 | None \<Rightarrow> False) then out @ '':'' else out)"

definition ip_text :: "nat list \<Rightarrow> string option" where
  "ip_text bs =
     (if length bs = 4 then Some (join ''.'' (map show_dec bs))
      else if length bs = 16 then Some (inet_ntop6 bs)
      else None)"

definition canonicalize_ip :: "ustr \<Rightarrow> string option" where
  "canonicalize_ip s =
     (let bs = as_bytes s in
      case inet_pton4 bs of
        Some v4 \<Rightarrow> ip_text v4
      | None \<Rightarrow> map_option inet_ntop6 (inet_pton6 bs))"

end
