(* ===== verification/Cert_Identity.thy ===== *)
theory Cert_Identity
  imports Cert_Names
begin

text \<open>
  The identity check on a peer's certificate: what is read off it
  (\<open>HostIdentity\<close> in \<open>crates/oam_core/src/tls/names.rs\<close>), the check against a host
  (\<open>crates/oam_core/src/tls.rs\<close>), and the reading of the printed list of names by the JavaScript
  port of \<open>tls.checkServerIdentity\<close> (\<open>js/node_compat.js\<close>).

  A JavaScript string is the list of its UTF-16 units. The X.509 parser is an argument.
\<close>

section \<open>The identity of a certificate\<close>

text \<open>What the parser yields: the extensions by identifier, and the subject's attributes by set.\<close>

record cert =
  ct_extensions :: "(string \<times> string) list"
  ct_subject :: "(string \<times> nat \<times> string) list list"

record host_identity =
  hi_alt_names :: "ustr option"
  hi_dns_names :: "ustr list"
  hi_ips :: "string list"
  hi_cn :: "ustr list option"

definition identity_default :: host_identity where
  "identity_default = \<lparr>hi_alt_names = None, hi_dns_names = [], hi_ips = [], hi_cn = None\<rparr>"

definition extension_value :: "cert \<Rightarrow> string \<Rightarrow> string option" where
  "extension_value c oid = map_option snd (find (\<lambda>(o', _). o' = oid) (ct_extensions c))"

definition dns_names_of :: "general_name list \<Rightarrow> ustr list" where
  "dns_names_of names = concat (map (\<lambda>n. case n of GDns bs \<Rightarrow> [map byte_of bs] | _ \<Rightarrow> []) names)"

definition ips_of :: "general_name list \<Rightarrow> string list" where
  "ips_of names = concat (map (\<lambda>n. case n of GIp bs \<Rightarrow> [unwrap_or [] (ip_text (map byte_of bs))] | _ \<Rightarrow> []) names)"

definition subject_cn :: "(string \<times> nat \<times> string) list list \<Rightarrow> ustr list option" where
  "subject_cn subject =
     (let attributes = concat subject;
          texts = map (\<lambda>(oid, tag, d). (oid, asn1_string_to_utf8 (tag mod 256) d)) attributes;
          convertible = (\<forall>(oid, t) \<in> set texts. t \<noteq> None);
          cn = concat (map (\<lambda>(oid, t). case t of Some t \<Rightarrow> if oid = ''2.5.4.3'' then [t] else [] | None \<Rightarrow> []) texts)
      in if convertible \<and> cn \<noteq> [] then Some cn else None)"

definition from_certificate :: "cert \<Rightarrow> host_identity" where
  "from_certificate c =
     (let base = (case (case extension_value c ''2.5.29.17'' of None \<Rightarrow> None | Some v \<Rightarrow> general_names v) of
            None \<Rightarrow> identity_default
          | Some names \<Rightarrow> identity_default\<lparr>hi_alt_names := Some (names_text names),
              hi_dns_names := dns_names_of names, hi_ips := ips_of names\<rparr>)
      in base\<lparr>hi_cn := subject_cn (ct_subject c)\<rparr>)"

definition from_der :: "(string \<Rightarrow> cert option) \<Rightarrow> string \<Rightarrow> host_identity" where
  "from_der parse d = (case parse d of Some c \<Rightarrow> from_certificate c | None \<Rightarrow> identity_default)"

section \<open>The check\<close>

definition u_lower :: "nat \<Rightarrow> nat" where
  "u_lower c = (if 65 \<le> c \<and> c \<le> 90 then c + 32 else c)"

definition unfqdn :: "ustr \<Rightarrow> ustr" where
  "unfqdn host = (if host \<noteq> [] \<and> last host = 46 then butlast host else host)"

definition split_host :: "ustr \<Rightarrow> ustr list" where
  "split_host host = split_on (\<lambda>c. c = 46) (map u_lower (unfqdn host))"

definition str_len :: "ustr \<Rightarrow> nat" where
  "str_len s = length (as_bytes s)"

fun contains_str :: "nat list \<Rightarrow> nat list \<Rightarrow> bool" where
  "contains_str p [] = (p = [])"
| "contains_str p (x # xs) = (starts_with p (x # xs) \<or> contains_str p xs)"

definition host_matches :: "ustr list \<Rightarrow> ustr \<Rightarrow> bool \<Rightarrow> bool" where
  "host_matches host_parts pattern wildcards =
     (if pattern = [] then False
      else
        (let pattern_parts = split_host pattern in
         if length host_parts \<noteq> length pattern_parts then False
         else if [] \<in> set pattern_parts then False
         else if list_ex (list_ex (\<lambda>c. \<not> (0x21 \<le> c \<and> c \<le> 0x7f))) pattern_parts then False
         else if list_ex (\<lambda>i. host_parts ! i \<noteq> pattern_parts ! i) (rev [1..<length host_parts]) then False
         else
           (let host_subdomain = host_parts ! 0;
                pattern_subdomain = pattern_parts ! 0;
                parts = split_on (\<lambda>c. c = 42) pattern_subdomain
            in if length parts = 1 \<or> contains_str (asc ''xn--'') pattern_subdomain
               then host_subdomain = pattern_subdomain
               else if \<not> wildcards then False
               else if 2 < length parts then False
               else if length pattern_parts \<le> 2 then False
               else
                 (let pre = parts ! 0; suf = parts ! 1 in
                  if str_len host_subdomain < str_len pre + str_len suf then False
                  else starts_with pre host_subdomain \<and> ends_with suf host_subdomain))))"

definition check_identity :: "ustr \<Rightarrow> host_identity \<Rightarrow> ustr option" where
  "check_identity hostname identity =
     (let hostname = unfqdn hostname;
          cn = unwrap_or [] (hi_cn identity);
          has_cn = (1 < length cn \<or> (cn \<noteq> [] \<and> hd cn \<noteq> []));
          (valid, reason) =
            (case canonicalize_ip hostname of
               Some wanted \<Rightarrow>
                 (wanted \<in> set (hi_ips identity),
                  asc ''IP: '' @ hostname @ asc '' is not in the cert's list: '' @ asc (join '', '' (hi_ips identity)))
             | None \<Rightarrow>
                 if hi_dns_names identity \<noteq> [] \<or> has_cn then
                   (let host_parts = split_host hostname in
                    if hi_dns_names identity \<noteq> [] then
                      (list_ex (\<lambda>pattern. host_matches host_parts pattern True) (hi_dns_names identity),
                       asc ''Host: '' @ hostname @ asc ''. is not in the cert's altnames: '' @
                         unwrap_or [] (hi_alt_names identity))
                    else
                      (list_ex (\<lambda>pattern. host_matches host_parts pattern True) cn,
                       asc ''Host: '' @ hostname @ asc ''. is not cert's CN: '' @ join (asc '','') cn))
                 else (False, asc ''Cert does not contain a DNS name''))
      in if valid then None else Some reason)"

datatype server_name = DnsName ustr | IpAddress ip_addr | OtherName

record verify_failure =
  vf_code :: "string option"
  vf_message :: ustr

fun octets :: "ip_addr \<Rightarrow> nat list" where
  "octets (V4 v) = v"
| "octets (V6 g) = concat (map (\<lambda>x. [x div 256, x mod 256]) g)"

definition check_server_identity ::
    "(string \<Rightarrow> cert option) \<Rightarrow> server_name \<Rightarrow> string \<Rightarrow> verify_failure + unit" where
  "check_server_identity parse name d =
     (let hostname = (case name of
            DnsName dns \<Rightarrow> dns
          | IpAddress ip \<Rightarrow> asc (unwrap_or [] (ip_text (octets ip)))
          | OtherName \<Rightarrow> [])
      in case check_identity hostname (from_der parse d) of
           None \<Rightarrow> Inr ()
         | Some reason \<Rightarrow> Inl \<lparr>vf_code = Some ''ERR_TLS_CERT_ALTNAME_INVALID'',
             vf_message = asc ''Hostname/IP does not match certificate's altnames: '' @ reason\<rparr>)"

section \<open>Reading the printed list\<close>

definition utf16 :: "nat \<Rightarrow> nat list" where
  "utf16 c = (if c < 0x10000 then [c] else [0xD800 + (c - 0x10000) div 1024, 0xDC00 + (c - 0x10000) mod 1024])"

definition js_string :: "ustr \<Rightarrow> nat list" where
  "js_string s = concat (map utf16 s)"

definition hex_unit :: "nat \<Rightarrow> nat option" where
  "hex_unit u = (if u < 128 then to_digit 16 (char_of u) else None)"

definition simple_escape :: "nat \<Rightarrow> nat option" where
  "simple_escape u = map_of [(34, 34), (92, 92), (47, 47), (98, 8), (102, 12), (110, 10), (114, 13), (116, 9)] u"

text \<open>
  A JSON string literal after its opening quote, as \<open>jsonStringPattern\<close> matches it and \<open>JSON.parse\<close>
  reads it: its value, and what follows the closing quote.
\<close>

fun json_body :: "nat list \<Rightarrow> (nat list \<times> nat list) option" where
  "json_body [] = None"
| "json_body (c # cs) =
     (if c = 34 then Some ([], cs)
      else if c = 92 then
        (case cs of
           [] \<Rightarrow> None
         | e # r \<Rightarrow>
             if e = 117 then
               (case r of
                  a # b # x # y # r' \<Rightarrow>
                    (case (hex_unit a, hex_unit b, hex_unit x, hex_unit y) of
                       (Some p, Some q, Some s, Some t) \<Rightarrow>
                         map_option (\<lambda>(v, rest). ((p * 4096 + q * 256 + s * 16 + t) # v, rest)) (json_body r')
                     | _ \<Rightarrow> None)
                | _ \<Rightarrow> None)
             else
               (case simple_escape e of
                  Some v \<Rightarrow> map_option (\<lambda>(w, rest). (v # w, rest)) (json_body r)
                | None \<Rightarrow> None))
      else if c < 0x20 then None
      else map_option (\<lambda>(v, rest). (c # v, rest)) (json_body cs))"

lemma json_body_shorter: "json_body cs = Some (v, r) \<Longrightarrow> length r < length cs"
proof (induction cs arbitrary: v r rule: json_body.induct)
  case (2 c cs)
  show ?case
    using 2
    by (auto split: if_splits list.splits option.splits prod.splits) fastforce+
qed simp

text \<open>\<open>splitEscapedAltNames\<close>; \<open>None\<close> is the exception it throws.\<close>

function split_escaped :: "nat list \<Rightarrow> nat list \<Rightarrow> nat list list \<Rightarrow> nat list list option" where
  "split_escaped rest current result =
     (if rest = [] then Some (result @ [current])
      else
        (let sep = position (\<lambda>c. c = 44) rest; quote = position (\<lambda>c. c = 34) rest in
         case quote of
           Some q \<Rightarrow>
             if (case sep of None \<Rightarrow> True | Some s \<Rightarrow> q < s) then
               (case json_body (drop (Suc q) rest) of
                  None \<Rightarrow> None
                | Some (v, r) \<Rightarrow> split_escaped r (current @ take q rest @ v) result)
             else split_escaped (drop (the sep + 2) rest) [] (result @ [current @ take (the sep) rest])
         | None \<Rightarrow>
             (case sep of
                Some s \<Rightarrow> split_escaped (drop (s + 2) rest) [] (result @ [current @ take s rest])
              | None \<Rightarrow> Some (result @ [current @ rest]))))"
  by auto
termination
  by (relation "measure (\<lambda>(rest, _, _). length rest)") (auto dest!: json_body_shorter)

declare split_escaped.simps [simp del]

text \<open>\<open>String.prototype.split(", ")\<close>.\<close>

fun split_comma :: "nat list \<Rightarrow> nat list list" where
  "split_comma (x # y # xs) =
     (if x = 44 \<and> y = 32 then [] # split_comma xs
      else case split_comma (y # xs) of [] \<Rightarrow> [[x]] | t # ts \<Rightarrow> (x # t) # ts)"
| "split_comma xs = [xs]"

definition js_alt_names :: "nat list \<Rightarrow> nat list list option" where
  "js_alt_names alt =
     (if alt = [] then Some []
      else if 34 \<in> set alt then split_escaped alt [] []
      else Some (split_comma alt))"

text \<open>
  The DNS names and the addresses \<open>checkServerIdentity\<close> collects; \<open>canonicalize\<close> is the native
  \<open>tlsCanonicalizeIp\<close> below, whose answer is undefined (\<open>None\<close>) for a text that is no address.
\<close>

definition js_dns_names :: "nat list list \<Rightarrow> nat list list" where
  "js_dns_names tokens = concat (map (\<lambda>t. case strip_prefix (asc ''DNS:'') t of Some n \<Rightarrow> [n] | None \<Rightarrow> []) tokens)"

definition js_ips :: "(nat list \<Rightarrow> string option) \<Rightarrow> nat list list \<Rightarrow> string option list" where
  "js_ips canonicalize tokens = concat (map (\<lambda>t. if starts_with (asc ''DNS:'') t then []
     else case strip_prefix (asc ''IP Address:'') t of Some n \<Rightarrow> [canonicalize n] | None \<Rightarrow> []) tokens)"

text \<open>
  The native \<open>tlsCanonicalizeIp\<close>: its argument is a string of units, decoded as V8 writes a string
  out, an unpaired surrogate as the replacement character.
\<close>

fun utf16_decode :: "nat list \<Rightarrow> ustr" where
  "utf16_decode [] = []"
| "utf16_decode (u # us) =
     (if 0xD800 \<le> u \<and> u \<le> 0xDBFF then
        (case us of
           l # us' \<Rightarrow>
             if 0xDC00 \<le> l \<and> l \<le> 0xDFFF
             then (0x10000 + (u - 0xD800) * 1024 + (l - 0xDC00)) # utf16_decode us'
             else 0xFFFD # utf16_decode us
         | [] \<Rightarrow> [0xFFFD])
      else if 0xDC00 \<le> u \<and> u \<le> 0xDFFF then 0xFFFD # utf16_decode us
      else u # utf16_decode us)"

definition op_tls_canonicalize_ip :: "nat list \<Rightarrow> string option" where
  "op_tls_canonicalize_ip u = canonicalize_ip (utf16_decode u)"

end
