(* ===== verification/Cert_Text.thy ===== *)
theory Cert_Text
  imports Cert_Identity
begin

text \<open>
  How the printed list of alternative names (\<open>names.rs\<close>) is read back by \<open>splitEscapedAltNames\<close> and
  \<open>JSON.parse\<close> (\<open>js/node_compat.js\<close>): the bytes of an entry through the lossy UTF-8 decoder, the
  escapes of a quoted entry, and the splitting of the list.
\<close>

section \<open>Decoding byte runs\<close>

lemma byte_of_inj: "byte_of a = byte_of b \<longleftrightarrow> a = b"
  by (simp add: byte_of_def)

lemma byte_of_special:
  "byte_of c = 34 \<longleftrightarrow> c = CHR 0x22" "byte_of c = 92 \<longleftrightarrow> c = CHR 0x5C" "byte_of c = 44 \<longleftrightarrow> c = CHR '',''"
  using byte_of_inj [of c "CHR 0x22"] byte_of_inj [of c "CHR 0x5C"] byte_of_inj [of c "CHR '',''"]
  by (simp_all add: byte_of_def)

definition lossy :: "nat list \<Rightarrow> ustr" where
  "lossy bs = map (\<lambda>c. case c of Some x \<Rightarrow> x | None \<Rightarrow> 0xFFFD) (utf8_chunks bs)"

lemma lossy_Nil [simp]: "lossy [] = []"
  by (simp add: lossy_def utf8_chunks.simps)

lemma lossy_first:
  "bs \<noteq> [] \<Longrightarrow> lossy bs = (case fst (utf8_first bs) of Some x \<Rightarrow> x | None \<Rightarrow> 0xFFFD) # lossy (drop (snd (utf8_first bs)) bs)"
  unfolding lossy_def by (subst utf8_chunks.simps) simp

lemma lossy_ascii: "b < 128 \<Longrightarrow> lossy (b # bs) = b # lossy bs"
  by (subst lossy_first) (auto simp: utf8_first_def)

text \<open>A character of several bytes is made of bytes with the top bit set only.\<close>

lemma utf8_first_high:
  assumes "h \<noteq> []" "\<forall>b \<in> set h. 128 \<le> b" "r = [] \<or> hd r < 128"
  shows "snd (utf8_first (h @ r)) \<le> length h \<and> (\<forall>c. fst (utf8_first (h @ r)) = Some c \<longrightarrow> 128 \<le> c)"
proof -
  let ?bs = "h @ r"
  have x: "128 \<le> ?bs ! 0" "1 \<le> length h" using assms(1,2) by (cases h; auto)+
  have next_high: "Suc k \<le> length h" if "k \<le> length h" "k < length ?bs" "128 \<le> ?bs ! k" for k
    using that assms(3) by (cases "k = length h") (auto simp: nth_append hd_conv_nth)
  have k1: "1 < length ?bs \<and> 128 \<le> ?bs ! 1 \<longrightarrow> 2 \<le> length h" using next_high [of 1] x(2) by auto
  have k2: "2 \<le> length h \<and> 2 < length ?bs \<and> 128 \<le> ?bs ! 2 \<longrightarrow> 3 \<le> length h" using next_high [of 2] by auto
  have k3: "3 \<le> length h \<and> 3 < length ?bs \<and> 128 \<le> ?bs ! 3 \<longrightarrow> 4 \<le> length h" using next_high [of 3] by auto
  define y where "y = ?bs ! 0"
  define a where "a = ?bs ! 1"
  define b where "b = ?bs ! 2"
  define d where "d = ?bs ! 3"
  have len: "snd (utf8_first ?bs) \<le> length h"
    using x k1 k2 k3 unfolding utf8_first_def Let_def y_def [symmetric] a_def [symmetric] b_def [symmetric] d_def [symmetric]
    by (auto simp: second3_def second4_def is_cont_def split: if_splits)
  have two: "0xC2 \<le> y \<Longrightarrow> 128 \<le> (y - 0xC0) * 64 + z" for z by linarith
  have three: "0xE0 \<le> y \<Longrightarrow> second3 y a \<Longrightarrow> 128 \<le> (y - 0xE0) * 4096 + (a - 0x80) * 64 + z" for z
    by (cases "y = 0xE0") (auto simp: second3_def)
  have four: "0xF0 \<le> y \<Longrightarrow> second4 y a \<Longrightarrow> 128 \<le> (y - 0xF0) * 262144 + (a - 0x80) * 4096 + z + w" for z w
    by (cases "y = 0xF0") (auto simp: second4_def)
  have "\<forall>c. fst (utf8_first ?bs) = Some c \<longrightarrow> 128 \<le> c"
    using x(1) two three four
    unfolding utf8_first_def Let_def y_def [symmetric] a_def [symmetric] b_def [symmetric] d_def [symmetric]
    by (auto split: if_splits)
  with len show ?thesis by blast
qed

lemma utf8_first_boundary:
  assumes "h \<noteq> []" "r = [] \<or> hd r < 128"
  shows "utf8_first (h @ r) = utf8_first h"
proof -
  have r: "r = [] \<or> (\<exists>c r'. r = c # r' \<and> \<not> is_cont c \<and> (\<forall>x. \<not> second3 x c) \<and> (\<forall>x. \<not> second4 x c))"
    using assms(2) by (cases r) (auto simp: is_cont_def second3_def second4_def)
  consider x where "h = [x]" | x y where "h = [x, y]" | x y z where "h = [x, y, z]"
    | x y z w h' where "h = x # y # z # w # h'"
    using assms(1) by (metis list.exhaust)
  then show ?thesis
    by cases ((use r in \<open>elim disjE exE conjE; simp add: utf8_first_def Let_def\<close>)+)
qed

lemma lossy_high:
  assumes "\<forall>b \<in> set h. 128 \<le> b" "r = [] \<or> hd r < 128"
  shows "lossy (h @ r) = lossy h @ lossy r \<and> (\<forall>d \<in> set (lossy h). 128 \<le> d)"
  using assms(1)
proof (induction h rule: length_induct)
  case (1 h)
  show ?case
  proof (cases "h = []")
    case False
    let ?n = "snd (utf8_first h)"
    let ?c = "case fst (utf8_first h) of Some x \<Rightarrow> x | None \<Rightarrow> 0xFFFD"
    have same: "utf8_first (h @ r) = utf8_first h" using utf8_first_boundary [OF False assms(2)] .
    then have n: "?n \<le> length h" "128 \<le> ?c"
      using utf8_first_high [OF False 1(2) assms(2)] by (auto split: option.splits)
    have "length (drop ?n h) < length h" using utf8_first_pos [of h] False by (cases h) auto
    moreover have "\<forall>b \<in> set (drop ?n h). 128 \<le> b" using 1(2) by (auto dest: in_set_dropD)
    ultimately have D: "lossy (drop ?n h @ r) = lossy (drop ?n h) @ lossy r" "\<forall>d \<in> set (lossy (drop ?n h)). 128 \<le> d"
      using 1(1) by blast+
    have "lossy (h @ r) = ?c # lossy (drop ?n h @ r)" "lossy h = ?c # lossy (drop ?n h)"
      using lossy_first [of "h @ r"] lossy_first [of h] False n(1) same by simp_all
    then show ?thesis using D n(2) by simp
  qed auto
qed

text \<open>Bytes fall into ASCII bytes and runs of others.\<close>

lemma byte_runs_induct [case_names Nil ascii high]:
  assumes "P []"
    and "\<And>c s. byte_of c < 128 \<Longrightarrow> P s \<Longrightarrow> P (c # s)"
    and "\<And>h s. h \<noteq> [] \<Longrightarrow> \<forall>c \<in> set h. 128 \<le> byte_of c \<Longrightarrow> s = [] \<or> byte_of (hd s) < 128 \<Longrightarrow> P s \<Longrightarrow> P (h @ s)"
  shows "P s"
proof (induction s rule: length_induct)
  case (1 s)
  show ?case
  proof (cases "s = [] \<or> byte_of (hd s) < 128")
    case True
    then show ?thesis using 1 assms(1,2) by (cases s) auto
  next
    case False
    let ?h = "takeWhile (\<lambda>c. 128 \<le> byte_of c) s" and ?r = "dropWhile (\<lambda>c. 128 \<le> byte_of c) s"
    have h: "?h \<noteq> []" using False by (cases s) auto
    have "length ?h + length ?r = length s" by (metis length_append takeWhile_dropWhile_id)
    then have "length ?r < length s" using h by (cases ?h) auto
    then have "P ?r" using 1 by blast
    moreover have "?r = [] \<or> byte_of (hd ?r) < 128" using hd_dropWhile [of "\<lambda>c. 128 \<le> byte_of c" s] by fastforce
    ultimately have "P (?h @ ?r)" using h by (intro assms(3)) (auto dest: set_takeWhileD)
    then show ?thesis by simp
  qed
qed

text \<open>The JavaScript string of a byte string read as UTF-8.\<close>

definition js_text :: "string \<Rightarrow> nat list" where
  "js_text s = js_string (from_utf8_lossy s)"

lemma js_text_lossy: "js_text s = js_string (lossy (map byte_of s))"
  by (simp add: js_text_def from_utf8_lossy_def lossy_def)

lemma js_string_append: "js_string (a @ b) = js_string a @ js_string b"
  by (simp add: js_string_def)

lemma js_string_small: "\<forall>c \<in> set a. c < 0x10000 \<Longrightarrow> js_string a = a"
  by (induction a) (auto simp: js_string_def utf16_def)

lemma js_string_high: "\<forall>c \<in> set a. 128 \<le> c \<Longrightarrow> \<forall>u \<in> set (js_string a). 128 \<le> u"
  by (auto simp: js_string_def utf16_def split: if_splits)

lemma js_text_Nil [simp]: "js_text [] = []"
  by (simp add: js_text_lossy js_string_def)

lemma js_text_ascii: "byte_of c < 128 \<Longrightarrow> js_text (c # s) = byte_of c # js_text s"
  by (simp add: js_text_lossy lossy_ascii js_string_def utf16_def)

lemma js_text_asc: "\<forall>c \<in> set a. byte_of c < 128 \<Longrightarrow> js_text (a @ s) = asc a @ js_text s"
  by (induction a) (auto simp: js_text_ascii asc_def)

lemma js_text_high:
  assumes "\<forall>c \<in> set h. 128 \<le> byte_of c" "s = [] \<or> byte_of (hd s) < 128"
  shows "js_text (h @ s) = js_text h @ js_text s" "\<forall>d \<in> set (js_text h). 128 \<le> d"
proof -
  have "map byte_of s = [] \<or> hd (map byte_of s) < 128" using assms(2) by (cases s) auto
  moreover have high: "\<forall>b \<in> set (map byte_of h). 128 \<le> b" using assms(1) by simp
  ultimately have "lossy (map byte_of h @ map byte_of s) = lossy (map byte_of h) @ lossy (map byte_of s)"
      "\<forall>d \<in> set (lossy (map byte_of h)). 128 \<le> d"
    using lossy_high [OF high] by blast+
  then show "js_text (h @ s) = js_text h @ js_text s" "\<forall>d \<in> set (js_text h). 128 \<le> d"
    by (simp_all only: js_text_lossy map_append js_string_append) (rule js_string_high)
qed

lemma js_text_append_ascii: "byte_of c < 128 \<Longrightarrow> js_text (s @ c # t) = js_text s @ byte_of c # js_text t"
proof (induction s rule: byte_runs_induct)
  case (high h s)
  have "s @ c # t = [] \<or> byte_of (hd (s @ c # t)) < 128" using high by (cases s) auto
  then show ?case using js_text_high [OF high(2)] high by simp
qed (auto simp: js_text_ascii)

text \<open>The ASCII units of a text are bytes of it.\<close>

lemma js_text_units: "u \<in> set (js_text s) \<Longrightarrow> u < 128 \<Longrightarrow> \<exists>c \<in> set s. byte_of c = u"
proof (induction s rule: byte_runs_induct)
  case (high h s)
  then show ?case using js_text_high [OF high(2,3)] by fastforce
qed (auto simp: js_text_ascii)

section \<open>An escaped name reads back\<close>

lemma hex_unit_digit: "d < 16 \<Longrightarrow> hex_unit (byte_of (digit_char d)) = Some d"
  by (simp add: hex_unit_def digit_char_def byte_of_char_of to_digit_def Let_def)

lemma json_escape:
  assumes "\<not> (u \<and> 128 \<le> byte_of c)"
  shows "json_body (asc (escape_byte u c) @ X) = map_option (\<lambda>(v, r). (byte_of c # v, r)) (json_body X)"
proof -
  have rest: "escape_byte u c = CHR 0x5C # CHR ''u'' # hex4 (byte_of c)"
    if "c \<noteq> CHR 0x5C" "c \<noteq> CHR 0x22" "\<not> (0x20 \<le> byte_of c \<and> c \<noteq> CHR '','' \<and> byte_of c \<le> 0x7e)"
    using that assms by (simp only: escape_byte_def) simp
  consider (backslash) "c = CHR 0x5C" | (quote) "c = CHR 0x22"
    | (plain) "c \<noteq> CHR 0x5C" "c \<noteq> CHR 0x22" "0x20 \<le> byte_of c" "c \<noteq> CHR '',''" "byte_of c \<le> 0x7e"
    | (other) "escape_byte u c = CHR 0x5C # CHR ''u'' # hex4 (byte_of c)"
    using rest by blast
  then show ?thesis
  proof cases
    case plain
    have "byte_of c \<noteq> 34" "byte_of c \<noteq> 92" using plain(1,2) by (auto simp: byte_of_special)
    then show ?thesis using plain by (simp add: escape_byte_def asc_def)
  next
    case other
    have "byte_of c div 16 < 16" "byte_of c mod 16 < 16" using byte_of_lt [of c] by auto
    then have hex: "hex_unit (byte_of (digit_char (byte_of c div 16))) = Some (byte_of c div 16)"
        "hex_unit (byte_of (digit_char (byte_of c mod 16))) = Some (byte_of c mod 16)"
      by (simp_all only: hex_unit_digit)
    have zero: "hex_unit (byte_of CHR ''0'') = Some 0" using hex_unit_digit [of 0] by (simp add: digit_char_0)
    have "byte_of CHR 0x5C = 92" "byte_of CHR ''u'' = 117" by (simp_all add: byte_of_def)
    with hex zero show ?thesis
      unfolding other by (simp add: asc_def hex4_def)
  qed (simp_all add: escape_byte_def asc_def simple_escape_def byte_of_def)
qed


lemma escape_byte_ascii:
  assumes "\<not> (u \<and> 128 \<le> byte_of c)" "x \<in> set (escape_byte u c)"
  shows "byte_of x < 128"
proof -
  have "byte_of (digit_char d) < 128" if "d < 16" for d
    using that by (simp add: digit_char_def byte_of_char_of)
  moreover have "byte_of c div 16 < 16" "byte_of c mod 16 < 16" using byte_of_lt [of c] by auto
  ultimately have "y \<in> set (hex4 (byte_of c)) \<Longrightarrow> byte_of y < 128" for y
    by (auto simp: hex4_def byte_of_def)
  then show ?thesis
    using assms by (auto simp: escape_byte_def byte_of_def split: if_splits)
qed

lemma escape_byte_nonempty: "escape_byte u c \<noteq> []"
  by (simp add: escape_byte_def)

text \<open>An escaped byte string reads back byte by byte.\<close>

lemma json_escaped_bytes:
  "json_body (js_text (concat (map (escape_byte False) name)) @ 34 # r) = Some (map byte_of name, r)"
proof (induction name)
  case (Cons c name)
  have "\<forall>x \<in> set (escape_byte False c). byte_of x < 128" using escape_byte_ascii by blast
  then show ?case using Cons json_escape [of False c] by (simp add: js_text_asc)
qed simp

lemma json_high: "\<forall>d \<in> set D. 128 \<le> d \<Longrightarrow> json_body (D @ X) = map_option (\<lambda>(v, r). (D @ v, r)) (json_body X)"
  by (induction D) (cases "json_body X"; auto)+

lemma escape_high: "\<forall>c \<in> set h. 128 \<le> byte_of c \<Longrightarrow> concat (map (escape_byte True) h) = h"
proof (induction h)
  case (Cons c h)
  moreover from Cons have "byte_of c \<noteq> 92" "byte_of c \<noteq> 34" by auto
  ultimately show ?case by (simp add: escape_byte_def byte_of_special)
qed simp

lemma json_escaped:
  "\<exists>v. (\<forall>r. json_body (js_text (concat (map (escape_byte u) name)) @ 34 # r) = Some (v, r)) \<and>
     (\<not> u \<longrightarrow> v = map byte_of name)"
proof (cases u)
  case True
  have "\<exists>v. \<forall>r. json_body (js_text (concat (map (escape_byte True) name)) @ 34 # r) = Some (v, r)"
  proof (induction name rule: byte_runs_induct)
    case (ascii c s)
    then have low: "\<not> (True \<and> 128 \<le> byte_of c)" by simp
    then have "\<forall>x \<in> set (escape_byte True c). byte_of x < 128" using escape_byte_ascii by blast
    note text_eq = js_text_asc [OF this]
    obtain v where v: "\<forall>r. json_body (js_text (concat (map (escape_byte True) s)) @ 34 # r) = Some (v, r)"
      using ascii by blast
    have "json_body (js_text (concat (map (escape_byte True) (c # s))) @ 34 # r) = Some (byte_of c # v, r)" for r
      using json_escape [OF low] v by (simp add: text_eq)
    then show ?case by blast
  next
    case (high h s)
    let ?e = "concat (map (escape_byte True) s)"
    have "?e = [] \<or> byte_of (hd ?e) < 128"
    proof (cases s)
      case (Cons c t)
      then have "byte_of (hd (escape_byte True c)) < 128"
        using high(3) escape_byte_ascii [of True c] escape_byte_nonempty by (simp add: hd_in_set)
      then show ?thesis using Cons escape_byte_nonempty by (simp add: hd_append)
    qed simp
    then have text_eq: "js_text (h @ ?e) = js_text h @ js_text ?e" using js_text_high [OF high(2)] by blast
    have D: "\<forall>d \<in> set (js_text h). 128 \<le> d" using js_text_high(2) [OF high(2), of "[]"] by simp
    obtain v where v: "\<forall>r. json_body (js_text ?e @ 34 # r) = Some (v, r)" using high by blast
    have "json_body (js_text (concat (map (escape_byte True) (h @ s))) @ 34 # r) = Some (js_text h @ v, r)" for r
      using json_high [OF D] v by (simp add: escape_high [OF high(2)] text_eq)
    then show ?case by blast
  qed simp
  then show ?thesis using True by simp
qed (use json_escaped_bytes in auto)

section \<open>The shape of an entry\<close>

text \<open>
  The text of an entry either has no quote and no comma, or has one string literal, at its end. Its
  token is the text with the literal read.
\<close>

definition entry_shape :: "nat list \<Rightarrow> nat list \<Rightarrow> bool" where
  "entry_shape t tok \<longleftrightarrow> t \<noteq> [] \<and>
     (34 \<notin> set t \<and> 44 \<notin> set t \<and> tok = t \<or>
      (\<exists>a b v. t = a @ 34 # b \<and> 34 \<notin> set a \<and> 44 \<notin> set a \<and> (\<forall>r. json_body (b @ r) = Some (v, r)) \<and> tok = a @ v))"

text \<open>A label: ASCII, and nothing in it that is special to the reader.\<close>

definition label_ok :: "string \<Rightarrow> bool" where
  "label_ok l \<longleftrightarrow> (\<forall>c \<in> set l. 0x20 \<le> byte_of c \<and> byte_of c < 128 \<and> byte_of c \<noteq> 34 \<and> byte_of c \<noteq> 92 \<and> byte_of c \<noteq> 44)"

lemma label_ok_append: "label_ok (a @ b) \<longleftrightarrow> label_ok a \<and> label_ok b"
  by (auto simp: label_ok_def)

lemma label_asc: "label_ok l \<Longrightarrow> 34 \<notin> set (asc l) \<and> 44 \<notin> set (asc l)"
  by (force simp: label_ok_def asc_def)

lemma label_js: "label_ok l \<Longrightarrow> js_text (l @ s) = asc l @ js_text s"
  by (rule js_text_asc) (auto simp: label_ok_def)

lemma label_json: "label_ok l \<Longrightarrow> json_body (asc l @ X) = map_option (\<lambda>(v, r). (asc l @ v, r)) (json_body X)"
  by (induction l) (cases "json_body X"; auto simp: label_ok_def asc_def)+

lemma label_shape: "label_ok l \<Longrightarrow> l \<noteq> [] \<Longrightarrow> entry_shape (js_text l) (asc l)"
  using label_js [of l "[]"] label_asc [of l] by (simp add: entry_shape_def asc_def)

lemma alt_name_shape:
  assumes "label_ok l" "l \<noteq> []" "label_ok (name_prefix pre)"
  shows "\<exists>v. entry_shape (js_text (l @ print_alt_name name u pre)) (asc l @ v) \<and>
    (\<not> u \<and> pre = None \<longrightarrow> v = map byte_of name)"
proof (cases "is_safe_alt_name name u")
  case True
  let ?v = "asc (name_prefix pre) @ js_text name"
  have special: "c \<noteq> CHR 0x22 \<and> c \<noteq> CHR '',''" if "c \<in> set name" for c
    using True that by (auto simp: is_safe_alt_name_def)
  have "34 \<notin> set (js_text name) \<and> 44 \<notin> set (js_text name)"
    using js_text_units [of 34 name] js_text_units [of 44 name] special byte_of_special by fastforce
  moreover have "js_text (l @ print_alt_name name u pre) = asc l @ ?v"
    using True label_js [OF assms(1)] label_js [OF assms(3)] by (simp add: print_alt_name_def)
  ultimately have "entry_shape (js_text (l @ print_alt_name name u pre)) (asc l @ ?v)"
    using label_asc [OF assms(1)] label_asc [OF assms(3)] assms(2) by (auto simp: entry_shape_def asc_def)
  moreover have "\<not> u \<and> pre = None \<longrightarrow> ?v = map byte_of name"
  proof
    assume "\<not> u \<and> pre = None"
    then have "\<forall>c \<in> set name. byte_of c \<le> 126"
      using True by (auto simp: is_safe_alt_name_def split: if_splits)
    then have "\<forall>c \<in> set name. byte_of c < 128" by fastforce
    then show "?v = map byte_of name"
      using js_text_asc [of name "[]"] \<open>\<not> u \<and> pre = None\<close> by (simp add: name_prefix_def asc_def)
  qed
  ultimately show ?thesis by blast
next
  case False
  let ?e = "concat (map (escape_byte u) name)"
  have unit: "byte_of CHR 0x22 = 34" by (simp add: byte_of_def)
  obtain w where w: "\<forall>r. json_body (js_text ?e @ 34 # r) = Some (w, r)" "\<not> u \<longrightarrow> w = map byte_of name"
    using json_escaped [of u name] by blast
  let ?p = "name_prefix pre"
  have "js_text (l @ print_alt_name name u pre) = asc l @ js_text (CHR 0x22 # ?p @ ?e @ [CHR 0x22])"
    using False label_js [OF assms(1)] by (simp add: print_alt_name_def)
  also have "js_text (CHR 0x22 # ?p @ ?e @ [CHR 0x22]) = 34 # asc ?p @ js_text ?e @ [34]"
    using js_text_append_ascii [of "CHR 0x22" ?e "[]"] label_js [OF assms(3)] by (simp add: js_text_ascii unit)
  finally have t: "js_text (l @ print_alt_name name u pre) = asc l @ 34 # (asc ?p @ js_text ?e @ [34])" .
  have "\<forall>r. json_body ((asc ?p @ js_text ?e @ [34]) @ r) = Some (asc ?p @ w, r)"
    using w(1) label_json [OF assms(3)] by simp
  then have "entry_shape (js_text (l @ print_alt_name name u pre)) (asc l @ asc ?p @ w)"
    using label_asc [OF assms(1)] unfolding entry_shape_def t by blast
  moreover have "\<not> u \<and> pre = None \<longrightarrow> asc ?p @ w = map byte_of name"
    using w(2) by (simp add: name_prefix_def asc_def)
  ultimately show ?thesis by blast
qed


section \<open>Splitting\<close>

lemma position_skip: "\<forall>x \<in> set a. \<not> P x \<Longrightarrow> position P (a @ r) = map_option (\<lambda>i. length a + i) (position P r)"
  using position_None [of P a] by (simp add: position_append)

lemma split_entry:
  assumes "entry_shape t tok"
  shows "split_escaped t [] acc = Some (acc @ [tok])"
    and "split_escaped (t @ 44 # 32 # x) [] acc = split_escaped x [] (acc @ [tok])"
proof -
  have ne: "t \<noteq> []" using assms by (simp add: entry_shape_def)
  have "split_escaped t [] acc = Some (acc @ [tok]) \<and>
    split_escaped (t @ 44 # 32 # x) [] acc = split_escaped x [] (acc @ [tok])"
  proof (cases "34 \<notin> set t \<and> 44 \<notin> set t \<and> tok = t")
    case True
    then have none: "\<forall>c \<in> set t. c \<noteq> 34" "\<forall>c \<in> set t. c \<noteq> 44" by auto
    have "position (\<lambda>c. c = 34) t = None" "position (\<lambda>c. c = 44) t = None"
      using position_skip [of t "\<lambda>c. c = 34" "[]"] position_skip [of t "\<lambda>c. c = 44" "[]"] none by auto
    then have a: "split_escaped t [] acc = Some (acc @ [tok])"
      using ne True by (subst split_escaped.simps) simp
    have s: "position (\<lambda>c. c = 44) (t @ 44 # 32 # x) = Some (length t)"
      using position_skip [of t "\<lambda>c. c = 44"] none by simp
    have q: "position (\<lambda>c. c = 34) (t @ 44 # 32 # x) = None \<or>
        (\<exists>q. position (\<lambda>c. c = 34) (t @ 44 # 32 # x) = Some q \<and> \<not> q < length t)"
      using position_skip [of t "\<lambda>c. c = 34"] none by (cases "position (\<lambda>c. c = 34) (44 # 32 # x)") auto
    have "split_escaped (t @ 44 # 32 # x) [] acc = split_escaped x [] (acc @ [tok])"
      using q
    proof (elim disjE exE conjE)
      assume "position (\<lambda>c. c = 34) (t @ 44 # 32 # x) = None"
      then show ?thesis using s True by (subst split_escaped.simps) simp
    next
      fix q assume "position (\<lambda>c. c = 34) (t @ 44 # 32 # x) = Some q" "\<not> q < length t"
      then show ?thesis using s True by (subst split_escaped.simps) simp
    qed
    with a show ?thesis by blast
  next
    case False
    then obtain a b v where t: "t = a @ 34 # b" "34 \<notin> set a" "44 \<notin> set a" "tok = a @ v"
      and json: "\<And>r. json_body (b @ r) = Some (v, r)"
      using assms unfolding entry_shape_def by blast
    have none: "\<forall>c \<in> set a. c \<noteq> 34" "\<forall>c \<in> set a. c \<noteq> 44" using t by auto
    have step: "split_escaped (t @ r) [] acc = split_escaped r tok acc" for r
    proof -
      have q: "position (\<lambda>c. c = 34) (a @ 34 # b @ r) = Some (length a)"
        using position_skip [of a "\<lambda>c. c = 34"] none by simp
      have s: "case position (\<lambda>c. c = 44) (a @ 34 # b @ r) of None \<Rightarrow> True | Some s \<Rightarrow> length a < s"
        using position_skip [of a "\<lambda>c. c = 44"] none by (cases "position (\<lambda>c. c = 44) (b @ r)") auto
      show ?thesis unfolding t(1) using q s json t(4) by (subst split_escaped.simps) simp
    qed
    have "split_escaped [] tok acc = Some (acc @ [tok])" by (subst split_escaped.simps) simp
    moreover have "split_escaped (44 # 32 # x) tok acc = split_escaped x [] (acc @ [tok])"
      by (subst split_escaped.simps) (cases "position (\<lambda>c. c = 34) x"; simp add: Let_def)
    ultimately show ?thesis using step [of "[]"] step [of "44 # 32 # x"] by simp
  qed
  then show "split_escaped t [] acc = Some (acc @ [tok])"
    "split_escaped (t @ 44 # 32 # x) [] acc = split_escaped x [] (acc @ [tok])" by auto
qed

lemma split_escaped_join:
  "ts \<noteq> [] \<Longrightarrow> list_all2 entry_shape ts toks \<Longrightarrow> split_escaped (join [44, 32] ts) [] acc = Some (acc @ toks)"
proof (induction ts arbitrary: toks acc)
  case (Cons t ts)
  then obtain tok toks' where toks: "toks = tok # toks'" "entry_shape t tok" "list_all2 entry_shape ts toks'"
    by (auto simp: list_all2_Cons1)
  show ?case
  proof (cases ts)
    case Nil
    then show ?thesis using toks split_entry(1) [OF toks(2)] by simp
  next
    case (Cons t' ts')
    then show ?thesis
      using toks split_entry(2) [OF toks(2), of "join [44, 32] ts" acc] Cons.IH [of toks' "acc @ [tok]"]
      by (simp add: join_Cons)
  qed
qed simp

lemma split_comma_prefix: "44 \<notin> set t \<Longrightarrow> split_comma (t @ 44 # 32 # x) = t # split_comma x"
proof (induction t)
  case (Cons a t)
  then show ?case by (cases t) auto
qed simp

lemma split_comma_single: "44 \<notin> set t \<Longrightarrow> split_comma t = [t]"
  by (induction t rule: split_comma.induct) auto

lemma split_comma_join: "ts \<noteq> [] \<Longrightarrow> \<forall>t \<in> set ts. 44 \<notin> set t \<Longrightarrow> split_comma (join [44, 32] ts) = ts"
proof (induction ts)
  case (Cons t ts)
  then show ?case by (cases ts) (auto simp: join_Cons split_comma_prefix split_comma_single)
qed simp

lemma join_mem: "t \<in> set ts \<Longrightarrow> u \<in> set t \<Longrightarrow> u \<in> set (join s ts)"
  by (induction s ts rule: join.induct) auto

lemma js_alt_names_join:
  assumes "list_all2 entry_shape ts toks"
  shows "js_alt_names (join [44, 32] ts) = Some toks"
proof (cases "ts = []")
  case True
  then show ?thesis using assms by (simp add: js_alt_names_def)
next
  case False
  obtain t ts' where ts: "ts = t # ts'" using False by (cases ts) auto
  have "t \<noteq> []" using assms ts by (auto simp: list_all2_Cons1 entry_shape_def)
  then have ne: "join [44, 32] ts \<noteq> []" unfolding ts by (cases ts') auto
  show ?thesis
  proof (cases "34 \<in> set (join [44, 32] ts)")
    case True
    then show ?thesis using ne split_escaped_join [OF False assms, of "[]"] by (simp add: js_alt_names_def)
  next
    case no: False
    then have "\<forall>t \<in> set ts. 34 \<notin> set t" using join_mem [of _ ts 34 "[44, 32]"] by auto
    with assms have plain: "toks = ts \<and> (\<forall>t \<in> set ts. 44 \<notin> set t)"
      by (induction rule: list_all2_induct) (auto simp: entry_shape_def)
    then show ?thesis using ne no split_comma_join [OF False] by (simp add: js_alt_names_def)
  qed
qed

end
