(* ===== verification/Cert_Addr.thy ===== *)
theory Cert_Addr
  imports Cert_Identity
begin

text \<open>
  The address readers and printers of \<open>names.rs\<close>: \<open>inet_pton4\<close> and \<open>inet_pton6\<close> read back what
  \<open>ip_entry_text\<close>, \<open>inet_ntop6\<close> and \<open>ip_text\<close> print, so that the text of an address determines it
  and \<open>canonicalize_ip\<close> fixes every printed address.
\<close>

section \<open>IPv4 texts\<close>

lemma pton4_octet:
  assumes "n < 256" "k < 4"
  shows "pton4_loop (show_dec n @ r) out k False 0 = pton4_loop r (out[k := n]) (Suc k) True n"
  using assms(1)
proof (induction "10 :: nat" n arbitrary: r rule: show_radix.induct)
  case (1 n)
  have digit: "is_ascii_digit (digit_char d) \<and> byte_of (digit_char d) - 48 = d" if "d < 10" for d
    using that by (simp add: is_ascii_digit_def digit_char_def byte_of_char_of)
  show ?case
  proof (cases "n < 10")
    case True
    then show ?thesis using digit [OF True] assms(2) 1(2) by (subst show_radix.simps) simp
  next
    case False
    have "n mod 10 < 10" "0 < n div 10" "n div 10 * 10 + n mod 10 = n" using False by auto
    moreover have "show_dec n = show_dec (n div 10) @ [digit_char (n mod 10)]"
      using False by (subst show_radix.simps) simp
    moreover have "pton4_loop (show_dec (n div 10) @ digit_char (n mod 10) # r) out k False 0 =
        pton4_loop (digit_char (n mod 10) # r) (out[k := n div 10]) (Suc k) True (n div 10)"
      using False 1 by simp
    ultimately show ?thesis using digit [of "n mod 10"] 1(2) by simp
  qed
qed

lemma dotted_explicit: "length v = 4 \<Longrightarrow> v = [v ! 0, v ! 1, v ! 2, v ! 3]"
  by (auto simp: length_Suc_conv eval_nat_numeral)

lemma pton4_dotted:
  assumes "length v = 4" "\<forall>b \<in> set v. b < 256"
  shows "inet_pton4 (join ''.'' (map show_dec v)) = Some v"
proof -
  obtain a b c d where v: "v = [a, b, c, d]" using dotted_explicit [OF assms(1)] by blast
  have dot: "\<not> is_ascii_digit CHR ''.''" by code_simp
  have small: "a < 256" "b < 256" "c < 256" "d < 256" using assms(2) v by auto
  have rep: "replicate 4 (0 :: nat) = [0, 0, 0, 0]" by (simp add: numeral_eq_Suc)
  have three: "(0 :: nat) < 4" "Suc 0 < 4" "Suc (Suc 0) < 4" "Suc (Suc (Suc 0)) < 4" by simp_all
  have "pton4_loop (show_dec d @ []) x k False 0 = pton4_loop [] (x[k := d]) (Suc k) True d" if "k < 4" for x k
    using pton4_octet [OF small(4) that] by blast
  note steps = pton4_octet [OF small(1) three(1)] pton4_octet [OF small(2) three(2)] pton4_octet [OF small(3) three(3)]
    this [OF three(4)]
  show ?thesis
    using steps(1) [of "''.'' @ show_dec b @ ''.'' @ show_dec c @ ''.'' @ show_dec d" "[0, 0, 0, 0]"]
      steps(2) [of "''.'' @ show_dec c @ ''.'' @ show_dec d" "[a, 0, 0, 0]"]
      steps(3) [of "''.'' @ show_dec d" "[a, b, 0, 0]"] steps(4) [of "[a, b, c, 0]"]
    by (simp add: inet_pton4_def v rep dot)
qed

lemma pton4_bad: "c \<in> set s \<Longrightarrow> \<not> is_ascii_digit c \<Longrightarrow> c \<noteq> CHR ''.'' \<Longrightarrow> pton4_loop s out k f cur = None"
  by (induction s arbitrary: out k f cur) (auto simp: Let_def)

section \<open>IPv6 groups\<close>

text \<open>A printer of 16-bit groups in hexadecimal, of either case.\<close>

definition hex_printer :: "(nat \<Rightarrow> string) \<Rightarrow> bool" where
  "hex_printer sh \<longleftrightarrow> (\<forall>w < 65536. sh w \<noteq> [] \<and> length (sh w) \<le> 4 \<and> (\<forall>c \<in> set (sh w). to_digit 16 c \<noteq> None) \<and>
     digits_in 16 (sh w) = w)"

lemma hex_printer_hex: "hex_printer show_hex"
proof -
  have "to_digit 16 c \<noteq> None" if "c \<in> set (show_hex w)" for c w
    using show_radix_digits [of 16 c w] that to_digit_digit_char by fastforce
  then show ?thesis
    using length_show_radix [of 16 4] digits_in_show [of 16] by (auto simp: hex_printer_def)
qed

lemma to_digit_upper: "d < 16 \<Longrightarrow> to_digit 16 (upper_hex d) = Some d"
  by (simp add: to_digit_def upper_hex_def byte_of_char_of Let_def)

lemma show_upper_hex: "show_upper n = map (\<lambda>c. upper_hex (the (to_digit 16 c))) (show_hex n)"
proof (induction n rule: show_upper.induct)
  case (1 n)
  show ?case
  proof (cases "n < 16")
    case True
    then show ?thesis by (subst show_upper.simps, subst show_radix.simps) (simp add: to_digit_digit_char)
  next
    case False
    then show ?thesis using 1 by (subst show_upper.simps, subst show_radix.simps) (simp add: to_digit_digit_char)
  qed
qed

lemma digits_in_map: "\<forall>c \<in> set s. to_digit 16 (f c) = to_digit 16 c \<Longrightarrow> digits_in 16 (map f s) = digits_in 16 s"
  by (induction s rule: rev_induct) auto

lemma hex_printer_upper: "hex_printer show_upper"
proof -
  have dig: "to_digit 16 (upper_hex (the (to_digit 16 c))) = to_digit 16 c"
    if mem: "c \<in> set (show_hex w)" for c w
  proof -
    obtain d where "d < 16" "c = digit_char d" using show_radix_digits [of 16 c w] mem by auto
    then show ?thesis by (simp add: to_digit_digit_char to_digit_upper)
  qed
  show ?thesis
    unfolding hex_printer_def
  proof (intro allI impI)
    fix w :: nat assume "w < 65536"
    then have h: "show_hex w \<noteq> []" "length (show_hex w) \<le> 4" "\<forall>c \<in> set (show_hex w). to_digit 16 c \<noteq> None"
      "digits_in 16 (show_hex w) = w" using hex_printer_hex by (auto simp: hex_printer_def)
    then show "show_upper w \<noteq> [] \<and> length (show_upper w) \<le> 4 \<and> (\<forall>c \<in> set (show_upper w). to_digit 16 c \<noteq> None) \<and>
        digits_in 16 (show_upper w) = w"
      using dig digits_in_map [of "show_hex w" "\<lambda>c. upper_hex (the (to_digit 16 c))"]
      by (auto simp: show_upper_hex)
  qed
qed

lemma pton6_digits:
  assumes "\<forall>c \<in> set ds. to_digit 16 c \<noteq> None" "p6_seen st + length ds \<le> 4"
  shows "pton6_loop (ds @ r) tok st = pton6_loop r tok
    (st\<lparr>p6_value := foldl (\<lambda>v c. v * 16 + unwrap_or 0 (to_digit 16 c)) (p6_value st) ds, p6_seen := p6_seen st + length ds\<rparr>)"
  using assms
proof (induction ds arbitrary: st)
  case (Cons c ds)
  then obtain d where "to_digit 16 c = Some d" by auto
  then show ?case using Cons by simp
qed simp

definition flat :: "nat list \<Rightarrow> nat list" where
  "flat ws = concat (map (\<lambda>w. [w div 256 mod 256, w mod 256]) ws)"

lemma length_flat [simp]: "length (flat ws) = 2 * length ws"
  by (induction ws) (auto simp: flat_def)

lemma flat_one: "flat [v] = [v div 256 mod 256, v mod 256]"
  by (simp add: flat_def)

lemma flat_append: "flat (a @ b) = flat a @ flat b"
  by (simp add: flat_def)

text \<open>A state that has stored the groups \<open>ws\<close> and has \<open>n\<close> zero bytes left.\<close>

definition stored :: "nat list \<Rightarrow> nat option \<Rightarrow> nat \<Rightarrow> nat \<Rightarrow> pton6" where
  "stored ws colon seen v = \<lparr>p6_out = flat ws @ replicate (16 - 2 * length ws) 0, p6_tp = 2 * length ws,
     p6_colon = colon, p6_seen = seen, p6_value = v\<rparr>"

lemma stored_store:
  assumes "length ws < 8"
  shows "pton6_store (stored ws colon seen v) = Some (stored (ws @ [v]) colon seen v)"
proof -
  obtain m where m: "16 - 2 * length ws = Suc (Suc m)" "16 - 2 * length (ws @ [v]) = m"
    using assms by (cases "16 - 2 * length ws"; cases "16 - 2 * length ws - 1") auto
  have "(flat ws @ replicate (16 - 2 * length ws) 0)[2 * length ws := v div 256 mod 256, 2 * length ws + 1 := v mod 256] =
      flat (ws @ [v]) @ replicate m 0"
    unfolding m(1) by (simp add: list_update_append flat_append flat_one)
  then show ?thesis using assms m by (simp add: pton6_store_def stored_def)
qed

lemma hex_not_colon: "to_digit 16 CHR '':'' = None"
  using separators_not_digits by simp

lemma pton6_group:
  assumes "hex_printer sh" "w < 65536"
  shows "pton6_loop (sh w @ r) tok (stored ws colon 0 0) = pton6_loop r tok (stored ws colon (length (sh w)) w)"
proof -
  have "\<forall>c \<in> set (sh w). to_digit 16 c \<noteq> None" "length (sh w) \<le> 4" "digits_in 16 (sh w) = w"
    using assms by (auto simp: hex_printer_def)
  then show ?thesis
    using pton6_digits [of "sh w" "stored ws colon 0 0" r tok] by (simp add: stored_def digits_in_def)
qed

lemma pton6_groups:
  assumes "hex_printer sh" "\<forall>w \<in> set gs. w < 65536" "gs \<noteq> []" "length ws + length gs \<le> 8"
  shows "pton6_loop (join '':'' (map sh gs) @ r) (join '':'' (map sh gs) @ r) (stored ws colon 0 0) =
    pton6_loop r (sh (last gs) @ r) (stored (ws @ butlast gs) colon (length (sh (last gs))) (last gs))"
  using assms(2-4)
proof (induction gs arbitrary: ws)
  case (Cons g gs)
  show ?case
  proof (cases "gs = []")
    case True
    then show ?thesis using pton6_group [OF assms(1)] Cons.prems by simp
  next
    case False
    let ?t = "join '':'' (map sh gs) @ r"
    have g: "g < 65536" using Cons.prems by simp
    then have "sh g \<noteq> []" using assms(1) by (auto simp: hex_printer_def)
    moreover have "?t \<noteq> []"
    proof -
      obtain g' gs' where gs: "gs = g' # gs'" using False by (cases gs) auto
      then have "sh g' \<noteq> []" using assms(1) Cons.prems by (auto simp: hex_printer_def)
      then show ?thesis using gs by (cases gs') auto
    qed
    ultimately have "pton6_loop (sh g @ '':'' @ ?t) tok (stored ws colon 0 0) =
        pton6_loop ?t ?t (stored (ws @ [g]) colon 0 0)" for tok
      using pton6_group [OF assms(1) g] stored_store [of ws colon "length (sh g)" g] Cons.prems
      by (simp add: hex_not_colon) (simp add: stored_def)
    moreover have "join '':'' (map sh (g # gs)) @ r = sh g @ '':'' @ ?t" using False by (simp add: join_Cons)
    ultimately show ?thesis using Cons.IH [of "ws @ [g]"] Cons.prems False by simp
  qed
qed simp

text \<open>The end of \<open>inet_pton6\<close>: the last group is stored and the bytes after \<open>::\<close> are moved.\<close>

definition pton6_finish :: "pton6 \<Rightarrow> pton6 option" where
  "pton6_finish st = (if 0 < p6_seen st then pton6_store st else Some st)"

lemma pton6_tail:
  assumes "hex_printer sh" "\<forall>w \<in> set gs. w < 65536" "length ws + length gs \<le> 8"
  obtains s v where "Option.bind (pton6_loop (join '':'' (map sh gs)) (join '':'' (map sh gs)) (stored ws colon 0 0)) pton6_finish =
    Some (stored (ws @ gs) colon s v)"
proof (cases "gs = []")
  case True
  then have "Option.bind (pton6_loop (join '':'' (map sh gs)) (join '':'' (map sh gs)) (stored ws colon 0 0)) pton6_finish =
    Some (stored (ws @ gs) colon 0 0)" by (simp add: pton6_finish_def stored_def)
  then show ?thesis using that by blast
next
  case False
  let ?s = "length (sh (last gs))"
  have "last gs < 65536" using assms(2) False by simp
  then have "0 < ?s" using assms(1) by (auto simp: hex_printer_def)
  moreover have "pton6_store (stored (ws @ butlast gs) colon ?s (last gs)) = Some (stored (ws @ gs) colon ?s (last gs))"
    using stored_store [of "ws @ butlast gs" colon ?s "last gs"] assms(3) False by (cases gs rule: rev_cases) auto
  ultimately have "Option.bind (pton6_loop (join '':'' (map sh gs)) (join '':'' (map sh gs)) (stored ws colon 0 0)) pton6_finish =
    Some (stored (ws @ gs) colon ?s (last gs))"
    using pton6_groups [OF assms(1,2) False assms(3), of "[]" colon] by (simp add: pton6_finish_def stored_def)
  then show ?thesis using that by blast
qed

lemma flat_be_words: "even (length b) \<Longrightarrow> \<forall>x \<in> set b. x < 256 \<Longrightarrow> flat (be_words b) = b"
  by (induction b rule: be_words.induct) (auto simp: flat_def)

lemma length_be_words: "length (be_words b) = length b div 2"
  by (induction b rule: be_words.induct) auto

lemma be_words_bound: "\<forall>x \<in> set b. x < 256 \<Longrightarrow> w \<in> set (be_words b) \<Longrightarrow> w < 65536"
  by (induction b rule: be_words.induct) auto

lemma pton6_dotted:
  assumes "length v = 4" "\<forall>b \<in> set v. b < 256" "length ws \<le> 6"
  obtains x where "pton6_loop (join ''.'' (map show_dec v)) (join ''.'' (map show_dec v)) (stored ws colon 0 0) =
    Some (stored (ws @ be_words v) colon 0 x)"
proof -
  obtain a b c d where v: "v = [a, b, c, d]" using dotted_explicit [OF assms(1)] by blast
  let ?t = "join ''.'' (map show_dec v)"
  have t: "?t = show_dec a @ ''.'' @ show_dec b @ ''.'' @ show_dec c @ ''.'' @ show_dec d" by (simp add: v)
  have dig: "\<forall>c \<in> set (show_dec a). to_digit 16 c \<noteq> None"
    using show_radix_digits [of 10 _ a] to_digit_digit_char [of _ 16] by fastforce
  have len: "length (show_dec a) \<le> 4" using length_show_radix [of 10 4 a] assms(2) v by simp
  have words: "flat (be_words v) = v" "length (be_words v) = 2"
    using flat_be_words [of v] assms by (simp_all add: length_be_words)
  have dot: "to_digit 16 CHR ''.'' = None" using separators_not_digits by simp
  let ?x = "foldl (\<lambda>v c. v * 16 + unwrap_or 0 (to_digit 16 c)) 0 (show_dec a)"
  let ?st = "(stored ws colon 0 0)\<lparr>p6_value := ?x, p6_seen := length (show_dec a)\<rparr>"
  have "pton6_loop ?t ?t (stored ws colon 0 0) =
      pton6_loop (''.'' @ show_dec b @ ''.'' @ show_dec c @ ''.'' @ show_dec d) ?t ?st"
    using pton6_digits [of "show_dec a" "stored ws colon 0 0" "''.'' @ show_dec b @ ''.'' @ show_dec c @ ''.'' @ show_dec d" ?t] dig len
    unfolding t by (simp del: pton6_loop.simps add: stored_def)
  also have "\<dots> = Some (stored (ws @ be_words v) colon 0 ?x)"
    using pton4_dotted [OF assms(1,2)] assms(3) words
    by (simp add: dot) (simp add: stored_def flat_append)
  finally show ?thesis using that by blast
qed

lemma move_one:
  assumes "m = length P"
  shows "(P @ [x] @ replicate (Suc n) z @ D)[m + Suc n := x, m := z] = P @ replicate (Suc n) z @ [x] @ D"
    "(P @ [x] @ R) ! m = x"
proof -
  have "P @ [x] @ replicate (Suc n) z @ D = (P @ [x] @ replicate n z) @ z # D" by (simp add: replicate_app_Cons_same)
  then have "(P @ [x] @ replicate (Suc n) z @ D)[m + Suc n := x] = (P @ [x] @ replicate n z) @ x # D"
    using list_update_length [of "P @ [x] @ replicate n z" z D x] assms by simp
  then show "(P @ [x] @ replicate (Suc n) z @ D)[m + Suc n := x, m := z] = P @ replicate (Suc n) z @ [x] @ D"
    using list_update_length [of P x "replicate n z @ x # D" z] assms by simp
qed (simp add: assms)

lemma pton6_move_steps:
  assumes "k \<le> length B" "length A + length B + Suc n = 16"
  shows "pton6_move (length A) (length B) k (A @ B @ replicate (Suc n) 0) =
    A @ take (length B - k) B @ replicate (Suc n) 0 @ drop (length B - k) B"
  using assms(1)
proof (induction k)
  case (Suc k)
  let ?j = "length B - Suc k"
  let ?P = "A @ take ?j B"
  have j: "length B - k = Suc ?j" "?j < length B" using Suc.prems by auto
  have parts: "take (length B - k) B = take ?j B @ [B ! ?j]" "drop ?j B = B ! ?j # drop (length B - k) B"
    using j by (simp_all add: take_Suc_conv_app_nth Cons_nth_drop_Suc)
  have idx: "16 - Suc k = length ?P + Suc n" "length A + length B - Suc k = length ?P" using assms(2) Suc.prems by auto
  have "pton6_move (length A) (length B) k (A @ B @ replicate (Suc n) 0) =
      ?P @ [B ! ?j] @ replicate (Suc n) 0 @ drop (length B - k) B"
    using Suc parts(1) by simp
  then show ?case
    using move_one(1) [OF refl, of ?P "B ! ?j" n 0 "drop (length B - k) B"] move_one(2) [OF refl, of ?P "B ! ?j"] parts(2)
    unfolding pton6_move.simps Let_def idx by (simp del: replicate_Suc)
qed simp

lemma pton6_moved:
  assumes "length L + length R < 8"
  shows "pton6_move (2 * length L) (2 * length R) (2 * length R) (flat (L @ R) @ replicate (16 - 2 * length (L @ R)) 0) =
    flat L @ replicate (16 - 2 * length (L @ R)) 0 @ flat R"
proof -
  obtain n where n: "16 - 2 * length (L @ R) = Suc n" using assms by (cases "16 - 2 * length (L @ R)") auto
  then show ?thesis
    using pton6_move_steps [of "length (flat R)" "flat R" "flat L" n] assms
    by (simp add: flat_append)
qed

lemma hex_printer_chars:
  assumes "hex_printer sh" "\<forall>w \<in> set gs. w < 65536" "c \<in> set (join '':'' (map sh gs))"
  shows "c = CHR '':'' \<or> to_digit 16 c \<noteq> None"
proof -
  have "\<forall>c \<in> set (sh g). to_digit 16 c \<noteq> None" if "g \<in> set gs" for g
    using assms(1,2) that by (auto simp: hex_printer_def)
  then show ?thesis using assms(3) by (induction gs rule: induct_list012) (auto simp: join_Cons)
qed

lemma join_hd:
  assumes "hex_printer sh" "\<forall>w \<in> set gs. w < 65536" "gs \<noteq> []"
  shows "join '':'' (map sh gs) \<noteq> [] \<and> to_digit 16 (hd (join '':'' (map sh gs))) \<noteq> None"
proof -
  obtain g gs' where gs: "gs = g # gs'" using assms(3) by (cases gs) auto
  then have "sh g \<noteq> []" "\<forall>c \<in> set (sh g). to_digit 16 c \<noteq> None" using assms(1,2) by (auto simp: hex_printer_def)
  then show ?thesis by (cases gs') (auto simp: gs join_Cons hd_append)
qed

lemma hex_not_percent: "to_digit 16 CHR ''%'' = None"
  by code_simp

lemma pton6_start:
  assumes "CHR ''%'' \<notin> set s" "s \<noteq> []" "hd s = CHR '':'' \<Longrightarrow> 2 \<le> length s \<and> s ! 1 = CHR '':''"
    "src = (if hd s = CHR '':'' then tl s else s)"
    "Option.bind (pton6_loop src src (stored [] None 0 0)) pton6_finish = Some (stored ws colon x v)"
  shows "inet_pton6 s = (case colon of
     None \<Rightarrow> if length ws = 8 then Some (flat ws @ replicate (16 - 2 * length ws) 0) else None
   | Some c \<Rightarrow> if length ws = 8 then None
       else Some (pton6_move c (2 * length ws - c) (2 * length ws - c) (flat ws @ replicate (16 - 2 * length ws) 0)))"
proof -
  have pct: "position (\<lambda>c. c = CHR ''%'') s = None" using assms(1) by (auto simp: position_None)
  have st: "\<lparr>p6_out = replicate 16 0, p6_tp = 0, p6_colon = None, p6_seen = 0, p6_value = 0\<rparr> = stored [] None 0 0"
    by (simp add: stored_def flat_def)
  obtain st where st1: "pton6_loop src src (stored [] None 0 0) = Some st" "pton6_finish st = Some (stored ws colon x v)"
    using assms(5) by (auto simp: bind_eq_Some_conv)
  have src: "(if s \<noteq> [] \<and> hd s = CHR '':'' then tl s else s) = src" using assms(2,4) by simp
  have ok: "\<not> (s \<noteq> [] \<and> hd s = CHR '':'' \<and> (length s < 2 \<or> s ! 1 \<noteq> CHR '':''))" using assms(3) by auto
  have fields: "p6_colon (stored ws colon x v) = colon" "p6_tp (stored ws colon x v) = 2 * length ws"
    "p6_out (stored ws colon x v) = flat ws @ replicate (16 - 2 * length ws) 0" by (simp_all add: stored_def)
  show ?thesis
    unfolding inet_pton6_def pct option.case if_not_P [OF ok] src st Let_def st1(1) pton6_finish_def [symmetric] st1(2) fields
    by (cases colon) simp_all
qed

lemma pton6_uncompressed:
  assumes "hex_printer sh" "\<forall>w \<in> set ws. w < 65536" "length ws = 8"
  shows "inet_pton6 (join '':'' (map sh ws)) = Some (flat ws)"
proof -
  let ?t = "join '':'' (map sh ws)"
  have ne: "ws \<noteq> []" using assms(3) by auto
  have pct: "CHR ''%'' \<notin> set ?t"
    using hex_printer_chars [OF assms(1,2), of "CHR ''%''"] hex_not_percent by auto
  have hd: "?t \<noteq> []" "hd ?t \<noteq> CHR '':''" using join_hd [OF assms(1,2) ne] hex_not_colon by auto
  obtain x v where loop: "Option.bind (pton6_loop ?t ?t (stored [] None 0 0)) pton6_finish = Some (stored ([] @ ws) None x v)"
    using pton6_tail [OF assms(1,2), of "[]" None] assms(3) by auto
  show ?thesis
    using pton6_start [OF pct hd(1) _ _ loop] hd assms(3) by simp
qed

lemma pton6_colons:
  assumes "hex_printer sh" "\<forall>w \<in> set L. w < 65536" "length L \<le> 7"
    "s = join '':'' (map sh L) @ ''::'' @ r" "src = (if hd s = CHR '':'' then tl s else s)"
  shows "pton6_loop src src (stored [] None 0 0) = pton6_loop r r (stored L (Some (2 * length L)) 0 0)"
proof (cases "L = []")
  case True
  then show ?thesis using assms(4,5) by (simp add: hex_not_colon) (simp add: stored_def)
next
  case False
  let ?g = "sh (last L)"
  have src: "src = s" using assms(4,5) join_hd [OF assms(1,2) False] hex_not_colon by auto
  have "last L < 65536" using assms(2) False by simp
  then have "0 < length ?g" using assms(1) by (auto simp: hex_printer_def)
  then have "pton6_loop (''::'' @ r) (?g @ ''::'' @ r) (stored (butlast L) None (length ?g) (last L)) =
      pton6_loop r r (stored L (Some (2 * length L)) 0 0)"
    using stored_store [of "butlast L" None "length ?g" "last L"] assms(3) False
    by (simp add: hex_not_colon) (simp add: stored_def)
  then show ?thesis
    using pton6_groups [OF assms(1,2) False, of "[]" "''::'' @ r" None] assms(3) unfolding src assms(4) by simp
qed

lemma pton6_compressed:
  assumes "hex_printer sh" "\<forall>w \<in> set L. w < 65536" "\<forall>w \<in> set R. w < 65536" "length L + length R < 8"
  shows "inet_pton6 (join '':'' (map sh L) @ ''::'' @ join '':'' (map sh R)) =
    Some (flat L @ replicate (16 - 2 * length (L @ R)) 0 @ flat R)"
proof -
  let ?s = "join '':'' (map sh L) @ ''::'' @ join '':'' (map sh R)"
  define src where "src = (if hd ?s = CHR '':'' then tl ?s else ?s)"
  have pct: "CHR ''%'' \<notin> set ?s"
    using hex_printer_chars [OF assms(1,2), of "CHR ''%''"] hex_printer_chars [OF assms(1,3), of "CHR ''%''"] hex_not_percent
    by auto
  have hd: "2 \<le> length ?s \<and> ?s ! 1 = CHR '':''" if "hd ?s = CHR '':''"
    using that join_hd [OF assms(1,2)] hex_not_colon by (cases "L = []") auto
  obtain x v where "Option.bind (pton6_loop src src (stored [] None 0 0)) pton6_finish =
      Some (stored (L @ R) (Some (2 * length L)) x v)"
    using pton6_colons [OF assms(1,2) _ refl src_def] pton6_tail [OF assms(1,3), of L "Some (2 * length L)"] assms(4) by auto
  then show ?thesis
    using pton6_start [OF pct _ hd src_def] pton6_moved [OF assms(4)] assms(4) by simp
qed

lemma dotted_chars: "c \<in> set (join ''.'' (map show_dec v)) \<Longrightarrow> c = CHR ''.'' \<or> is_ascii_digit c"
  by (induction v rule: induct_list012) (auto simp: join_Cons show_dec_is_digit [rule_format])

lemma dotted_hd: "v \<noteq> [] \<Longrightarrow> join ''.'' (map show_dec v) \<noteq> []"
  using join_eq_Nil [of "map show_dec v" "''.''"] show_radix_nonempty [THEN not_sym] by (auto simp: image_iff)

lemma pton6_mapped:
  assumes "\<forall>w \<in> set P. w < 65536" "length P \<le> 1" "length v = 4" "\<forall>b \<in> set v. b < 256"
  shows "inet_pton6 (''::'' @ concat (map (\<lambda>w. show_hex w @ '':'') P) @ join ''.'' (map show_dec v)) =
    Some (replicate (12 - 2 * length P) 0 @ flat P @ v)"
proof -
  let ?d = "join ''.'' (map show_dec v)"
  let ?r = "concat (map (\<lambda>w. show_hex w @ '':'') P) @ ?d"
  let ?s = "''::'' @ ?r"
  have digit: "\<not> is_ascii_digit CHR ''%''" by code_simp
  then have pct: "CHR ''%'' \<notin> set ?s" using dotted_chars [of "CHR ''%''" v] show_hex_chars by auto
  have words: "flat (be_words v) = v" "length (be_words v) = 2"
    using flat_be_words [of v] assms by (simp_all add: length_be_words)
  obtain x where loop: "pton6_loop ?r ?r (stored [] (Some 0) 0 0) = Some (stored (P @ be_words v) (Some 0) 0 x)"
  proof (cases P)
    case Nil
    then show ?thesis using pton6_dotted [OF assms(3,4), of "[]" "Some 0"] that by auto
  next
    case (Cons w P')
    then have P: "P = [w]" "w < 65536" using assms(1,2) by auto
    then have "0 < length (show_hex w)" by simp
    moreover have ne: "?d \<noteq> []" using dotted_hd [of v] assms(3) by (cases v) auto
    ultimately have "pton6_loop ?r ?r (stored [] (Some 0) 0 0) = pton6_loop ?d ?d (stored [w] (Some 0) 0 0)"
      using pton6_group [OF hex_printer_hex P(2), of "'':'' @ ?d" _ "[]" "Some 0"]
        stored_store [of "[]" "Some 0" "length (show_hex w)" w] ne P(1)
      by (simp add: hex_not_colon) (auto simp: stored_def)
    then show ?thesis using pton6_dotted [OF assms(3,4), of "[w]" "Some 0"] that P(1) by auto
  qed
  have "Option.bind (pton6_loop (tl ?s) (tl ?s) (stored [] None 0 0)) pton6_finish =
      Some (stored (P @ be_words v) (Some 0) 0 x)"
    using pton6_colons [OF hex_printer_hex, of "[]" ?s ?r "tl ?s"] loop by (simp add: pton6_finish_def stored_def)
  then have "inet_pton6 ?s = Some (pton6_move 0 (2 * length (P @ be_words v)) (2 * length (P @ be_words v))
      (flat (P @ be_words v) @ replicate (16 - 2 * length (P @ be_words v)) 0))"
    using pton6_start [OF pct, of "tl ?s" "P @ be_words v" "Some 0" 0 x] assms(2) words by simp
  then show ?thesis
    using pton6_moved [of "[]" "P @ be_words v"] assms(2) words by (simp add: flat_append) (simp add: flat_def)
qed

section \<open>Printing an IPv6 address\<close>

definition zero_run :: "nat list \<Rightarrow> nat \<Rightarrow> nat \<Rightarrow> bool" where
  "zero_run ws b n \<longleftrightarrow> b + n \<le> length ws \<and> take n (drop b ws) = replicate n 0"

definition run_inv :: "nat list \<Rightarrow> run_state \<Rightarrow> bool" where
  "run_inv ws r \<longleftrightarrow>
     (case rs_cur_base r of None \<Rightarrow> True | Some b \<Rightarrow> b + rs_cur_len r = length ws \<and> zero_run ws b (rs_cur_len r)) \<and>
     (case rs_best_base r of None \<Rightarrow> True | Some b \<Rightarrow> zero_run ws b (rs_best_len r))"

lemma zero_run_snoc:
  "zero_run ws b n \<Longrightarrow> zero_run (ws @ [w]) b n"
  "zero_run ws b n \<Longrightarrow> b + n = length ws \<Longrightarrow> zero_run (ws @ [0]) b (Suc n)"
  "zero_run (ws @ [0]) (length ws) (Suc 0)"
  by (auto simp: zero_run_def replicate_append_same)

lemma run_close_inv: "run_inv ws r \<Longrightarrow> run_inv ws (run_close r) \<and> rs_cur_base (run_close r) = None"
  by (auto simp: run_inv_def run_close_def split: option.splits)

lemma run_word_inv:
  assumes "run_inv ws r"
  shows "run_inv (ws @ [w]) (run_word r (length ws, w))"
proof (cases "w = 0")
  case True
  then show ?thesis
    using assms by (auto simp: run_inv_def run_word_def zero_run_snoc split: option.splits)
next
  case False
  then show ?thesis
    using run_close_inv [OF assms] by (auto simp: run_inv_def run_word_def zero_run_snoc split: option.splits)
qed

lemma best_run_ok:
  assumes "best_run ws = (Some b, n)"
  shows "2 \<le> n \<and> zero_run ws b n"
proof -
  let ?s = "\<lparr>rs_best_base = None, rs_best_len = 0, rs_cur_base = None, rs_cur_len = 0\<rparr>"
  have "run_inv ws (foldl run_word ?s (enumerate 0 ws))"
  proof (induction ws rule: rev_induct)
    case Nil
    then show ?case by (simp add: run_inv_def)
  next
    case (snoc w ws)
    then show ?case using run_word_inv by (simp add: enumerate_append_eq)
  qed
  then have "run_inv ws (run_close (foldl run_word ?s (enumerate 0 ws)))" using run_close_inv by blast
  then show ?thesis using assms by (auto simp: best_run_def Let_def run_inv_def split: if_splits)
qed

lemma words_explicit: "length ws = 8 \<Longrightarrow> ws = [ws ! 0, ws ! 1, ws ! 2, ws ! 3, ws ! 4, ws ! 5, ws ! 6, ws ! 7]"
  by (auto simp: length_Suc_conv eval_nat_numeral)

definition ntop6_out :: "nat list \<Rightarrow> nat list \<Rightarrow> nat option \<Rightarrow> nat \<Rightarrow> string" where
  "ntop6_out bs words bb bl =
     (let (out, early) = ntop6_loop bs words bb bl [0, 1, 2, 3, 4, 5, 6, 7]
      in if \<not> early \<and> (case bb of Some base \<Rightarrow> base + bl = 8 | None \<Rightarrow> False) then out @ '':'' else out)"

lemma ntop6_plain: "length ws = 8 \<Longrightarrow> ntop6_out bs ws None bl = join '':'' (map show_hex ws)"
  by (subst (2) words_explicit) (simp_all add: ntop6_out_def in_run_def dotted_tail_def Let_def)

lemma ntop6_dotted:
  assumes "length ws = 8"
  shows "ntop6_out bs ws (Some 0) 6 = ''::'' @ join ''.'' (map show_dec [bs ! 12, bs ! 13, bs ! 14, bs ! 15])"
    "ws ! 5 = 0xffff \<Longrightarrow> ntop6_out bs ws (Some 0) 5 =
       ''::'' @ show_hex 0xffff @ '':'' @ join ''.'' (map show_dec [bs ! 12, bs ! 13, bs ! 14, bs ! 15])"
  by (simp_all add: ntop6_out_def in_run_def dotted_tail_def Let_def)

lemma ntop6_short:
  assumes "length ws = 8" "2 \<le> n" "b + n \<le> 8" "\<not> (b = 0 \<and> (n = 6 \<or> n = 5 \<and> ws ! 5 = 0xffff))"
  shows "ntop6_out bs ws (Some b) n = join '':'' (map show_hex (take b ws)) @ ''::'' @ join '':'' (map show_hex (drop (b + n) ws))"
proof -
  obtain w0 w1 w2 w3 w4 w5 w6 w7 where ws: "ws = [w0, w1, w2, w3, w4, w5, w6, w7]" using words_explicit [OF assms(1)] by blast
  have b: "b = 0 \<or> b = 1 \<or> b = 2 \<or> b = 3 \<or> b = 4 \<or> b = 5 \<or> b = 6" using assms(2,3) by arith
  have n: "n = 2 \<or> n = 3 \<or> n = 4 \<or> n = 5 \<or> n = 6 \<or> n = 7 \<or> n = 8" using assms(2,3) by arith
  from b n assms(3,4) show ?thesis
    unfolding ws by (elim disjE) (simp_all add: ntop6_out_def in_run_def dotted_tail_def Let_def)
qed

definition bytes_ok :: "nat list \<Rightarrow> bool" where
  "bytes_ok b \<longleftrightarrow> (\<forall>x \<in> set b. x < 256)"

lemma flat_zeros: "flat (replicate n 0) = replicate (2 * n) 0"
  by (induction n) (auto simp: flat_def)

lemma zero_run_parts: "zero_run ws b n \<Longrightarrow> ws = take b ws @ replicate n 0 @ drop (b + n) ws"
  by (metis add.commute append_take_drop_id drop_drop zero_run_def)

lemma inet_ntop6_out: "inet_ntop6 bs = ntop6_out bs (be_words bs) (fst (best_run (be_words bs))) (snd (best_run (be_words bs)))"
  by (cases "best_run (be_words bs)") (simp only: inet_ntop6_def ntop6_out_def Let_def prod.case fst_conv snd_conv)

lemma last_four: "length b = 16 \<Longrightarrow> [b ! 12, b ! 13, b ! 14, b ! 15] = drop 12 b"
  using Cons_nth_drop_Suc [of 12 b] Cons_nth_drop_Suc [of 13 b] Cons_nth_drop_Suc [of 14 b] Cons_nth_drop_Suc [of 15 b]
  by simp

lemma zeros_front: "b = replicate n 0 @ t \<Longrightarrow> b = replicate n 0 @ drop n b"
  by simp

lemma drop_known: "length p = n \<Longrightarrow> b = p @ t \<Longrightarrow> drop n b = t"
  by simp

lemma pton6_ntop6_run:
  assumes "length b = 16" "bytes_ok b" "best_run (be_words b) = (Some k, n)"
  shows "inet_pton6 (inet_ntop6 b) = Some b"
proof -
  let ?ws = "be_words b"
  have len: "length ?ws = 8" using assms(1) by (simp add: length_be_words)
  have bnd: "\<forall>w \<in> set ?ws. w < 65536" using assms(2) be_words_bound [of b] by (auto simp: bytes_ok_def)
  have flat: "flat ?ws = b" using flat_be_words [of b] assms by (simp add: bytes_ok_def)
  have run: "2 \<le> n" "zero_run ?ws k n" "k + n \<le> 8" using best_run_ok [OF assms(3)] len by (auto simp: zero_run_def)
  have parts: "b = flat (take k ?ws) @ replicate (2 * n) 0 @ flat (drop (k + n) ?ws)"
    using zero_run_parts [OF run(2)] flat by (metis flat_append flat_zeros)
  have out: "inet_ntop6 b = ntop6_out b ?ws (Some k) n" using assms(3) by (simp add: inet_ntop6_out)
  have tail: "length (drop 12 b) = 4" "\<forall>x \<in> set (drop 12 b). x < 256"
    using assms(1,2) by (auto simp: bytes_ok_def dest: in_set_dropD)
  consider (six) "k = 0" "n = 6" | (five) "k = 0" "n = 5" "?ws ! 5 = 0xffff"
    | (short) "\<not> (k = 0 \<and> (n = 6 \<or> n = 5 \<and> ?ws ! 5 = 0xffff))" by blast
  then show ?thesis
  proof cases
    case six
    have "b = replicate 12 0 @ drop 12 b"
      using zeros_front [of b 12 "flat (drop 6 ?ws)"] parts six by (simp add: flat_def)
    then show ?thesis
      using pton6_mapped [of "[]" "drop 12 b"] tail ntop6_dotted(1) [OF len, of b] six out last_four [OF assms(1)]
      by (simp add: flat_def)
  next
    case five
    have "drop 5 ?ws = 0xffff # drop 6 ?ws" using five(3) len Cons_nth_drop_Suc [of 5 ?ws] by simp
    then have "b = replicate 10 0 @ flat [0xffff] @ flat (drop 6 ?ws)"
      using parts five by (simp add: flat_def)
    moreover from this have "drop 12 b = flat (drop 6 ?ws)" 
      using drop_known [of "replicate 10 0 @ flat [0xffff]" 12 b "flat (drop 6 ?ws)"] by simp
    ultimately show ?thesis
      using pton6_mapped [of "[0xffff]" "drop 12 b"] tail ntop6_dotted(2) [OF len, of b] five out last_four [OF assms(1)]
      by simp
  next
    case short
    have "\<forall>w \<in> set (take k ?ws). w < 65536" "\<forall>w \<in> set (drop (k + n) ?ws). w < 65536"
      using bnd by (auto dest: in_set_takeD in_set_dropD)
    moreover have "16 - 2 * length (take k ?ws @ drop (k + n) ?ws) = 2 * n" using run len by simp
    ultimately show ?thesis
      using pton6_compressed [OF hex_printer_hex, of "take k ?ws" "drop (k + n) ?ws"] ntop6_short [OF len run(1,3) short, of b]
        run len parts out by simp
  qed
qed

lemma pton6_ntop6:
  assumes "length b = 16" "bytes_ok b"
  shows "inet_pton6 (inet_ntop6 b) = Some b"
proof (cases "best_run (be_words b)")
  case (Pair bb n)
  then show ?thesis
  proof (cases bb)
    case None
    have "inet_ntop6 b = join '':'' (map show_hex (be_words b))"
      using Pair None assms(1) by (simp add: inet_ntop6_out ntop6_plain length_be_words)
    then show ?thesis
      using pton6_uncompressed [OF hex_printer_hex, of "be_words b"] assms be_words_bound [of b] flat_be_words [of b]
      by (auto simp: bytes_ok_def length_be_words)
  next
    case (Some k)
    then show ?thesis using pton6_ntop6_run [OF assms] Pair by simp
  qed
qed

section \<open>Reading a printed address back\<close>

text \<open>The address in a text, as \<open>canonicalize_ip\<close> reads it.\<close>

definition ip_bytes :: "string \<Rightarrow> nat list option" where
  "ip_bytes t = (case inet_pton4 t of Some v \<Rightarrow> Some v | None \<Rightarrow> inet_pton6 t)"

definition ip_char :: "char \<Rightarrow> bool" where
  "ip_char c \<longleftrightarrow> c = CHR '':'' \<or> c = CHR ''.'' \<or> to_digit 16 c \<noteq> None"

lemma ip_char_show: "c \<in> set (show_hex w) \<Longrightarrow> ip_char c" "c \<in> set (show_dec w) \<Longrightarrow> ip_char c"
  using show_radix_digits [of 16 c w] show_radix_digits [of 10 c w] to_digit_digit_char [of _ 16]
  by (fastforce simp: ip_char_def)+

lemma ip_char_upper: "w < 65536 \<Longrightarrow> c \<in> set (show_upper w) \<Longrightarrow> ip_char c"
  using hex_printer_upper by (auto simp: ip_char_def hex_printer_def)

lemma ip_char_sep: "ip_char CHR '':''" "ip_char CHR ''.''"
  by (simp_all add: ip_char_def)

lemma ip_char_ascii: "ip_char c \<Longrightarrow> byte_of c < 128"
  by (auto simp: ip_char_def to_digit_def Let_def byte_of_def split: if_splits)

lemma ip_char_join: "ip_char s \<Longrightarrow> \<forall>t \<in> set ts. \<forall>c \<in> set t. ip_char c \<Longrightarrow> c \<in> set (join [s] ts) \<Longrightarrow> ip_char c"
  by (induction ts rule: induct_list012) auto

lemma dotted_ip_chars: "c \<in> set (join ''.'' (map show_dec v)) \<Longrightarrow> ip_char c"
  using ip_char_join [OF ip_char_sep(2), of "map show_dec v"] ip_char_show(2) by auto

lemma ntop6_loop_chars: "c \<in> set (fst (ntop6_loop bs ws bb bl js)) \<Longrightarrow> ip_char c"
proof (induction js)
  case (Cons i js)
  then show ?case
    using dotted_ip_chars [of c "[bs ! 12, bs ! 13, bs ! 14, bs ! 15]"] ip_char_show(1) [of c "ws ! i"] ip_char_sep(1)
    by (auto simp: Let_def simp del: join.simps list.map split: if_splits prod.splits)
qed simp

lemma ntop6_out_chars:
  assumes "c \<in> set (ntop6_out bs ws bb bl)"
  shows "ip_char c"
proof (cases "ntop6_loop bs ws bb bl [0, 1, 2, 3, 4, 5, 6, 7]")
  case (Pair out early)
  have "c \<in> set out \<or> c = CHR '':''"
    using assms unfolding ntop6_out_def Pair Let_def prod.case by (auto split: if_splits)
  then show ?thesis
    using ntop6_loop_chars [of c bs ws bb bl "[0, 1, 2, 3, 4, 5, 6, 7]"] ip_char_sep(1) unfolding Pair fst_conv by blast
qed

lemma ntop6_chars: "c \<in> set (inet_ntop6 bs) \<Longrightarrow> ip_char c"
  using ntop6_out_chars unfolding inet_ntop6_out .

lemma ntop6_colon:
  assumes "length b = 16"
  shows "CHR '':'' \<in> set (inet_ntop6 b)"
proof (cases "best_run (be_words b)")
  case (Pair bb n)
  have len: "length (be_words b) = 8" using assms by (simp add: length_be_words)
  show ?thesis
  proof (cases bb)
    case None
    obtain w0 w1 w2 w3 w4 w5 w6 w7 where "be_words b = [w0, w1, w2, w3, w4, w5, w6, w7]" using words_explicit [OF len] by blast
    then show ?thesis using ntop6_plain [OF len, of b n] Pair None by (simp add: inet_ntop6_out)
  next
    case (Some k)
    then have run: "2 \<le> n" "k + n \<le> 8" using best_run_ok [of "be_words b" k n] Pair len by (auto simp: zero_run_def)
    show ?thesis
      using ntop6_short [OF len run, of b] ntop6_dotted [OF len, of b] Pair Some
      by (cases "k = 0 \<and> (n = 6 \<or> n = 5 \<and> be_words b ! 5 = 0xffff)") (auto simp: inet_ntop6_out)
  qed
qed

lemma pton4_colon: "CHR '':'' \<in> set t \<Longrightarrow> inet_pton4 t = None"
  using pton4_bad [of "CHR '':''" t] by (simp add: inet_pton4_def is_ascii_digit_def byte_of_def)

lemma ip_bytes_text:
  assumes "bytes_ok b" "ip_text b = Some t"
  shows "ip_bytes t = Some b \<and> t \<noteq> [] \<and> (\<forall>c \<in> set t. ip_char c)"
proof (cases "length b = 4")
  case True
  then have "b \<noteq> []" by auto
  then show ?thesis
    using True assms pton4_dotted [OF True] dotted_hd [of b] dotted_ip_chars [of _ b] by (auto simp: ip_text_def ip_bytes_def bytes_ok_def)
next
  case False
  then have "length b = 16" "t = inet_ntop6 b" using assms(2) by (auto simp: ip_text_def split: if_splits)
  then show ?thesis
    using pton4_colon ntop6_colon [of b] pton6_ntop6 [OF _ assms(1)] ntop6_chars by (auto simp: ip_bytes_def)
qed

lemma ip_text_inj: "bytes_ok b \<Longrightarrow> bytes_ok b' \<Longrightarrow> ip_text b = Some t \<Longrightarrow> ip_text b' = Some t \<Longrightarrow> b = b'"
  using ip_bytes_text [of b t] ip_bytes_text [of b' t] by simp

lemma as_bytes_asc: "\<forall>c \<in> set t. byte_of c < 128 \<Longrightarrow> as_bytes (asc t) = t"
  by (induction t) (auto simp: as_bytes_def asc_def encode_utf8_def byte_of_def)

lemma pton_length: "inet_pton4 t = Some v \<Longrightarrow> length v = 4"
proof -
  have "pton4_loop t out k f cur = Some v \<Longrightarrow> length v = length out" for out k f cur
    by (induction t arbitrary: out k f cur) (auto simp: Let_def split: if_splits)
  then show "inet_pton4 t = Some v \<Longrightarrow> length v = 4" by (auto simp: inet_pton4_def)
qed

lemma canonicalize_asc:
  assumes "\<forall>c \<in> set t. byte_of c < 128" "ip_bytes t = Some b" "inet_pton4 t = Some b \<or> length b = 16"
  shows "canonicalize_ip (asc t) = ip_text b"
  using assms(2,3) pton_length [of t]
  by (auto simp: canonicalize_ip_def as_bytes_asc [OF assms(1)] Let_def ip_bytes_def ip_text_def split: option.splits)

lemma canonicalize_text:
  assumes "bytes_ok b" "ip_text b = Some t"
  shows "canonicalize_ip (asc t) = Some t"
proof -
  have "inet_pton4 t = Some b \<or> length b = 16"
    using assms pton4_dotted [of b] by (auto simp: ip_text_def bytes_ok_def split: if_splits)
  then show ?thesis using ip_bytes_text [OF assms] canonicalize_asc [of t b] ip_char_ascii assms(2) by auto
qed

lemma pton6_bad:
  assumes "CHR ''%'' \<notin> set t" "t = CHR ''<'' # r" "to_digit 16 CHR ''<'' = None"
  shows "inet_pton6 t = None"
proof -
  have pos: "position (\<lambda>c. c = CHR ''%'') t = None" using assms(1) by (auto simp: position_None)
  show ?thesis unfolding inet_pton6_def pos option.case using assms(2,3) by simp
qed

lemma canonicalize_entry:
  assumes "bytes_ok b"
  shows "canonicalize_ip (asc (ip_entry_text b)) = ip_text b"
proof -
  consider (four) "length b = 4" | (sixteen) "length b = 16" | (other) "length b \<noteq> 4" "length b \<noteq> 16" by blast
  then show ?thesis
  proof cases
    case four
    then have "ip_text b = Some (ip_entry_text b)" by (simp add: ip_text_def ip_entry_text_def)
    then show ?thesis using canonicalize_text [OF assms] by simp
  next
    case sixteen
    let ?ws = "be_words b"
    have t: "ip_entry_text b = join '':'' (map show_upper ?ws)" using sixteen by (simp add: ip_entry_text_def)
    have ws: "\<forall>w \<in> set ?ws. w < 65536" "length ?ws = 8" using assms be_words_bound [of b] sixteen by (auto simp: bytes_ok_def length_be_words)
    have "\<forall>c \<in> set (ip_entry_text b). byte_of c < 128"
      using ip_char_join [OF ip_char_sep(1), of "map show_upper ?ws"] ip_char_upper ws(1) ip_char_ascii unfolding t by fastforce
    moreover have "CHR '':'' \<in> set (ip_entry_text b)" using ws(2) t by (subst t, subst words_explicit) simp_all
    then have "ip_bytes (ip_entry_text b) = Some b"
      using pton4_colon pton6_uncompressed [OF hex_printer_upper ws] flat_be_words [of b] assms sixteen
      by (auto simp: ip_bytes_def t bytes_ok_def)
    ultimately show ?thesis using canonicalize_asc sixteen by blast
  next
    case other
    let ?t = "ip_entry_text b"
    have t: "?t = CHR ''<'' # ''invalid length='' @ show_dec (length b) @ ''>''" using other by (simp add: ip_entry_text_def)
    have dec: "ip_char c" if "c \<in> set (show_dec n)" for c n using that ip_char_show(2) by blast
    have "\<forall>c \<in> set ?t. byte_of c < 128" using dec ip_char_ascii unfolding t by (auto simp: byte_of_def)
    moreover have "inet_pton4 ?t = None"
      using pton4_bad [of "CHR ''<''" ?t] unfolding inet_pton4_def by (auto simp: t is_ascii_digit_def byte_of_def)
    moreover have "\<not> ip_char CHR ''%''" "to_digit 16 CHR ''<'' = None" by code_simp+
    then have "CHR ''%'' \<notin> set ?t" "to_digit 16 CHR ''<'' = None" using dec unfolding t by auto
    then have "inet_pton6 ?t = None" using pton6_bad t by blast
    ultimately show ?thesis using other by (simp add: canonicalize_ip_def as_bytes_asc ip_text_def)
  qed
qed

end
