(* ===== verification/Cert_Check.thy ===== *)
theory Cert_Check
  imports Cert_Text Cert_Addr
begin

text \<open>
  What the certificate check of \<open>tls.rs\<close> and \<open>tls/names.rs\<close> decides. The two readers of a
  certificate's alternative names (the native one, which takes them from the DER, and the JavaScript one,
  which takes them from the printed list) agree; the elements read off a DER string tile it; a
  certificate is accepted for an address when it lists the address; and what \<open>host_matches\<close> accepts
  is stated label by label.
\<close>

section \<open>The token of each name\<close>

text \<open>What a token contributes to the two lists.\<close>

definition token_dns :: "nat list \<Rightarrow> nat list list" where
  "token_dns t = (case strip_prefix (asc ''DNS:'') t of Some n \<Rightarrow> [n] | None \<Rightarrow> [])"

definition token_ips :: "nat list \<Rightarrow> string option list" where
  "token_ips t = (if starts_with (asc ''DNS:'') t then []
     else case strip_prefix (asc ''IP Address:'') t of Some n \<Rightarrow> [op_tls_canonicalize_ip n] | None \<Rightarrow> [])"

definition token_for :: "general_name \<Rightarrow> nat list \<Rightarrow> bool" where
  "token_for name tok \<longleftrightarrow> entry_shape (js_text (general_name_bytes name)) tok \<and>
     token_dns tok = dns_names_of [name] \<and> map (unwrap_or []) (token_ips tok) = ips_of [name]"

lemma op_tls_asc: "op_tls_canonicalize_ip (asc t) = canonicalize_ip (asc t)"
proof -
  have "utf16_decode (asc t) = asc t"
  proof (induction t)
    case (Cons c t)
    have "byte_of c < 0xD800" using byte_of_lt [of c] by simp
    then show ?case using Cons by (simp add: asc_def)
  qed (simp add: asc_def)
  then show ?thesis by (simp add: op_tls_canonicalize_ip_def)
qed

lemma token_simps:
  "token_dns (asc ''DNS:'' @ v) = [v]" "token_ips (asc ''DNS:'' @ v) = []"
  "token_dns (asc ''IP Address:'' @ v) = []" "token_ips (asc ''IP Address:'' @ v) = [op_tls_canonicalize_ip v]"
  by (simp_all add: token_dns_def token_ips_def asc_def byte_of_def strip_prefix_def starts_with_def)

text \<open>The labels of the other kinds of name.\<close>

definition other_labels :: "string list" where
  "other_labels = [''email:'', ''URI:'', ''DirName:'', ''Registered ID:'', ''othername:'', ''X400Name:'', ''EdiPartyName:'']"

lemma other_label_token:
  "l \<in> set other_labels \<Longrightarrow> token_dns (asc l @ v) = [] \<and> token_ips (asc l @ v) = [] \<and> label_ok l \<and> l \<noteq> []"
  by (auto simp: other_labels_def token_dns_def token_ips_def asc_def byte_of_def strip_prefix_def starts_with_def label_ok_def)

lemma asc_append: "asc (a @ b) = asc a @ asc b"
  by (simp add: asc_def)

lemma other_label_shape:
  assumes "l \<in> set other_labels" "label_ok t" "general_name_bytes name = l @ t" "dns_names_of [name] = []" "ips_of [name] = []"
  shows "\<exists>tok. token_for name tok"
proof -
  have "label_ok (l @ t)" "l @ t \<noteq> []" using other_label_token [OF assms(1)] assms(2) by (simp_all add: label_ok_append)
  then show ?thesis
    using label_shape [of "l @ t"] other_label_token [OF assms(1)] assms(3-5) unfolding token_for_def asc_append by auto
qed

lemma other_label_alt:
  assumes "l \<in> set other_labels" "label_ok (name_prefix pre)" "general_name_bytes name = l @ print_alt_name t u pre"
    "dns_names_of [name] = []" "ips_of [name] = []"
  shows "\<exists>tok. token_for name tok"
  using alt_name_shape [of l pre t u] other_label_token [OF assms(1)] assms(2-5) unfolding token_for_def by auto

lemma label_ip_text:
  "\<forall>c \<in> set t. ip_char c \<Longrightarrow> label_ok t"
proof -
  have "ip_char c \<Longrightarrow> 0x20 \<le> byte_of c \<and> byte_of c < 128 \<and> byte_of c \<noteq> 34 \<and> byte_of c \<noteq> 92 \<and> byte_of c \<noteq> 44" for c
    by (auto simp: ip_char_def to_digit_def Let_def byte_of_def split: if_splits)
  then show "\<forall>c \<in> set t. ip_char c \<Longrightarrow> label_ok t" by (auto simp: label_ok_def)
qed

lemma label_entry_text:
  assumes "bytes_ok b"
  shows "label_ok (ip_entry_text b)"
proof -
  have "\<forall>c \<in> set (join '':'' (map show_upper (be_words b))). ip_char c"
    using ip_char_join [OF ip_char_sep(1), of "map show_upper (be_words b)"] ip_char_upper be_words_bound [of b] assms
    by (fastforce simp: bytes_ok_def)
  moreover have "label_ok (show_dec n)" for n using label_ip_text ip_char_show(2) by blast
  moreover have "label_ok ''<invalid length=''" "label_ok ''>''" by (simp_all add: label_ok_def byte_of_def)
  ultimately have "label_ok (''<invalid length='' @ show_dec (length b) @ ''>'')"
    "label_ok (join '':'' (map show_upper (be_words b)))" "label_ok (join ''.'' (map show_dec b))"
    using label_ip_text dotted_ip_chars unfolding label_ok_append by blast+
  then show ?thesis unfolding ip_entry_text_def by (simp only: split: if_split) blast
qed

lemma oid_text_label: "label_ok (oid_text oid)"
  unfolding oid_text_def using label_ip_text dotted_ip_chars by blast

lemma other_prefix_label: "other_name_prefix t = Some (pre, u) \<Longrightarrow> label_ok (name_prefix (Some pre))"
  by (auto simp: other_name_prefix_def name_prefix_def label_ok_def byte_of_def split: if_splits)

lemma name_prefix_None_label: "label_ok (name_prefix None)"
  by (simp add: name_prefix_def label_ok_def)

lemma unsupported_label: "label_ok ''<unsupported>''"
  by (simp add: label_ok_def byte_of_def)

lemmas no_lists = dns_names_of_def ips_of_def

lemma general_name_token: "\<exists>tok. token_for name tok"
proof (cases name)
  case (GDns bs)
  have "label_ok ''DNS:''" by (simp add: label_ok_def byte_of_def)
  then show ?thesis
    using alt_name_shape [of "''DNS:''" None bs False] name_prefix_None_label
    unfolding GDns token_for_def general_name_bytes_def
    by (auto simp: token_simps no_lists intro!: exI [of _ "asc ''DNS:'' @ map byte_of bs"])
next
  case (GIp bs)
  have b: "bytes_ok (map byte_of bs)" by (simp add: bytes_ok_def byte_of_lt)
  let ?l = "''IP Address:'' @ ip_entry_text (map byte_of bs)"
  have "label_ok ?l" using label_entry_text [OF b] by (simp add: label_ok_def byte_of_def)
  then have "entry_shape (js_text ?l) (asc ?l)" by (rule label_shape) simp
  then show ?thesis
    using canonicalize_entry [OF b] unfolding GIp token_for_def general_name_bytes_def
    by (auto simp: token_simps no_lists asc_append op_tls_asc simp del: append.simps intro!: exI [of _ "asc ?l"])
next
  case (GEmail bs)
  then show ?thesis
    using other_label_alt [of "''email:''" None name bs False] name_prefix_None_label
    by (simp add: general_name_bytes_def no_lists other_labels_def)
next
  case (GUri bs)
  then show ?thesis
    using other_label_alt [of "''URI:''" None name bs False] name_prefix_None_label
    by (simp add: general_name_bytes_def no_lists other_labels_def)
next
  case (GDirectory d)
  then show ?thesis
    using other_label_alt [of "''DirName:''" None name "the (print_directory_name d)" True] name_prefix_None_label
      other_label_shape [of "''DirName:''" "''<unsupported>''" name] unsupported_label
    by (cases "print_directory_name d") (simp_all add: general_name_bytes_def no_lists other_labels_def)
next
  case (GRegistered oid)
  then show ?thesis
    using other_label_shape [of "''Registered ID:''" "oid_text oid" name] oid_text_label
    by (simp add: general_name_bytes_def no_lists other_labels_def)
next
  case (GOther t v)
  have l: "''othername:'' \<in> set other_labels" by (simp add: other_labels_def)
  have lists: "dns_names_of [name] = []" "ips_of [name] = []" by (simp_all add: GOther no_lists)
  have "(\<exists>pre u. other_name_prefix t = Some (pre, u) \<and>
        general_name_bytes name = ''othername:'' @ print_alt_name (der_content v) u (Some pre)) \<or>
      general_name_bytes name = ''othername:'' @ ''<unsupported>''"
    by (cases "other_name_prefix t") (auto simp: GOther general_name_bytes_def split: if_split)
  then consider (alt) pre u where "other_name_prefix t = Some (pre, u)"
      "general_name_bytes name = ''othername:'' @ print_alt_name (der_content v) u (Some pre)"
    | (no) "general_name_bytes name = ''othername:'' @ ''<unsupported>''" by blast
  then show ?thesis
  proof cases
    case alt
    then show ?thesis using other_label_alt [OF l other_prefix_label alt(2) lists] by blast
  next
    case no
    then show ?thesis using other_label_shape [OF l unsupported_label no lists] by blast
  qed
next
  case GX400
  then show ?thesis
    using other_label_shape [of "''X400Name:''" "''<unsupported>''" name] unsupported_label
    by (simp add: general_name_bytes_def no_lists other_labels_def)
next
  case GEdiParty
  then show ?thesis
    using other_label_shape [of "''EdiPartyName:''" "''<unsupported>''" name] unsupported_label
    by (simp add: general_name_bytes_def no_lists other_labels_def)
qed

lemma js_string_join: "js_string (join (asc '', '') ts) = join [44, 32] (map js_string ts)"
proof -
  have "js_string (asc '', '') = [44, 32]" by (simp add: js_string_def utf16_def asc_def byte_of_def)
  then show ?thesis 
    by (induction ts rule: induct_list012) (simp_all add: js_string_append js_string_def)
qed

lemma name_tokens:
  "\<exists>toks. list_all2 token_for names toks"
proof (induction names)
  case (Cons n names)
  then show ?case using general_name_token [of n] by (auto simp: list_all2_Cons1)
qed simp

text \<open>
  For every list of general names, the JavaScript reader of the printed list takes no
  exception and finds the DNS names and the addresses the native check takes from the names
  themselves, in the same order: a name cannot, through the commas, quotes or other bytes it holds, pass
  for another entry of the list.
\<close>

lemma js_reads_printed_names:
  "\<exists>tokens. js_alt_names (js_string (names_text names)) = Some tokens \<and>
     js_dns_names tokens = dns_names_of names \<and>
     map (unwrap_or []) (js_ips op_tls_canonicalize_ip tokens) = ips_of names"
proof -
  obtain toks where toks: "list_all2 token_for names toks" using name_tokens by blast
  then have "list_all2 entry_shape (map (\<lambda>n. js_text (general_name_bytes n)) names) toks"
    by (induction rule: list_all2_induct) (auto simp: token_for_def)
  then have "js_alt_names (js_string (names_text names)) = Some toks"
    using js_alt_names_join by (simp add: names_text_def js_string_join js_text_def general_name_text_def comp_def)
  moreover from toks have "js_dns_names toks = dns_names_of names"
    by (induction rule: list_all2_induct) (auto simp: token_for_def js_dns_names_def token_dns_def dns_names_of_def)
  moreover from toks have "map (unwrap_or []) (js_ips op_tls_canonicalize_ip toks) = ips_of names"
    by (induction rule: list_all2_induct) (auto simp: token_for_def js_ips_def token_ips_def ips_of_def)
  ultimately show ?thesis by blast
qed

section \<open>Elements\<close>

definition der_wf :: "der \<Rightarrow> bool" where
  "der_wf d \<longleftrightarrow> der_tag d < 256 \<and> der_tag d mod 32 \<noteq> 31 \<and>
     (\<exists>len. der_raw d = char_of (der_tag d) # len @ der_content d \<and> 1 \<le> length len \<and> length len \<le> 5 \<and>
        (\<forall>r. der_length (len @ r) = Some (length (der_content d), r)))"

lemma der_length_parts:
  assumes "der_length s = Some (n, r)"
  obtains len where "s = len @ r" "1 \<le> length len" "length len \<le> 5" "\<And>r'. der_length (len @ r') = Some (n, r')"
proof (cases s)
  case Nil
  then show ?thesis using assms by (simp add: der_length_def)
next
  case (Cons f rest)
  show ?thesis
  proof (cases "byte_of f < 0x80")
    case True
    then show ?thesis using assms that [of "[f]"] Cons by (auto simp: der_length_def)
  next
    case False
    let ?k = "byte_of f mod 0x80"
    have k: "?k \<noteq> 0" "?k \<le> 4" "?k \<le> length rest" "r = drop ?k rest"
      "n = foldl (\<lambda>acc b. acc * 256 + byte_of b) 0 (take ?k rest)"
      using assms False Cons by (auto simp: der_length_def Let_def split: if_splits)
    have "der_length ((f # take ?k rest) @ r') = Some (n, r')" for r'
      using False k by (simp add: der_length_def Let_def)
    then show ?thesis using that [of "f # take ?k rest"] k Cons by simp
  qed
qed

lemma read_der_wf:
  assumes "read_der s = Some (d, r)"
  shows "s = der_raw d @ r \<and> der_wf d"
proof -
  obtain tag rest where s: "s = tag # rest" using assms by (cases s) (auto simp: read_der_def)
  obtain n q where len: "byte_of tag mod 32 \<noteq> 31" "der_length rest = Some (n, q)" "n \<le> length q"
    "d = \<lparr>der_tag = byte_of tag, der_content = take n q, der_raw = take (length s - length q + n) s\<rparr>" "r = drop n q"
    using assms s by (auto simp: read_der_def Let_def split: if_splits option.splits)
  obtain l where l: "rest = l @ q" "1 \<le> length l" "length l \<le> 5" "\<And>r'. der_length (l @ r') = Some (n, r')"
    using der_length_parts [OF len(2)] by blast
  have "der_raw d = tag # l @ take n q" using len(4) s l(1) by simp
  moreover have "tag = char_of (byte_of tag)" by (simp add: byte_of_def)
  ultimately show ?thesis
    using len l s by (auto simp: der_wf_def byte_of_lt)
qed

lemma der_wf_read: "der_wf d \<Longrightarrow> read_der (der_raw d @ r) = Some (d, r)"
  by (auto simp: der_wf_def read_der_def byte_of_char_of Let_def)


section \<open>Addresses\<close>

definition cert_names :: "cert \<Rightarrow> general_name list" where
  "cert_names c = (case extension_value c ''2.5.29.17'' of None \<Rightarrow> [] | Some v \<Rightarrow> unwrap_or [] (general_names v))"

lemma octets_ok: "ip_ok ip \<Longrightarrow> bytes_ok (octets ip) \<and> (length (octets ip) = 4 \<or> length (octets ip) = 16)"
proof (cases ip)
  case (V6 g)
  assume "ip_ok ip"
  then have g: "length g = 8" "\<forall>x \<in> set g. x < 65536" using V6 by (auto simp: ipv6_ok_def)
  have "length (octets ip) = 2 * length g" unfolding V6 by (simp add: length_concat comp_def sum_list_triv)
  moreover have "bytes_ok (octets ip)" using g(2) unfolding V6 by (auto simp: bytes_ok_def)
  ultimately show ?thesis using g(1) by simp
qed (auto simp: bytes_ok_def ipv4_ok_def)

lemma identity_ips: "hi_ips (from_certificate c) = ips_of (cert_names c)"
  by (auto simp: from_certificate_def cert_names_def identity_default_def ips_of_def Let_def split: option.splits)

lemma last_join: "ts \<noteq> [] \<Longrightarrow> last ts \<noteq> [] \<Longrightarrow> last (join s ts) = last (last ts)"
proof (cases ts rule: rev_cases)
  case (snoc xs x)
  then show "last ts \<noteq> [] \<Longrightarrow> last (join s ts) = last (last ts)" by (cases "xs = []") (auto simp: join_snoc)
qed simp

lemma last_shown:
  "ws \<noteq> [] \<Longrightarrow> last (join s (map show_hex ws)) \<noteq> CHR ''.''" "ws \<noteq> [] \<Longrightarrow> last (join s (map show_dec ws)) \<noteq> CHR ''.''"
proof -
  have hex: "last (show_hex w) \<noteq> CHR ''.''" for w using show_hex_chars [of "last (show_hex w)" w] by auto
  have "is_ascii_digit (last (show_dec w))" for w using show_dec_is_digit [of w] by auto
  moreover have "\<not> is_ascii_digit CHR ''.''" by code_simp
  ultimately have dec: "last (show_dec w) \<noteq> CHR ''.''" for w by metis
  show "ws \<noteq> [] \<Longrightarrow> last (join s (map show_hex ws)) \<noteq> CHR ''.''" "ws \<noteq> [] \<Longrightarrow> last (join s (map show_dec ws)) \<noteq> CHR ''.''"
    using hex dec last_join [of "map show_hex ws" s] last_join [of "map show_dec ws" s] by (simp_all add: last_map)
qed

lemma ntop6_last:
  assumes "length b = 16"
  shows "last (inet_ntop6 b) \<noteq> CHR ''.''"
proof (cases "best_run (be_words b)")
  case (Pair bb n)
  have len: "length (be_words b) = 8" using assms by (simp add: length_be_words)
  then have ne: "be_words b \<noteq> []" by auto
  show ?thesis
  proof (cases bb)
    case None
    then show ?thesis using ntop6_plain [OF len, of b n] Pair last_shown(1) [OF ne] by (simp add: inet_ntop6_out)
  next
    case (Some k)
    then have run: "2 \<le> n" "k + n \<le> 8" using best_run_ok [of "be_words b" k n] Pair len by (auto simp: zero_run_def)
    let ?v = "[b ! 12, b ! 13, b ! 14, b ! 15]"
    have v: "join ''.'' (map show_dec ?v) \<noteq> []" "last (join ''.'' (map show_dec ?v)) \<noteq> CHR ''.''"
      using dotted_hd [of ?v] last_shown(2) [of ?v] by blast+
    let ?r = "drop (k + n) (be_words b)"
    have r: "last (''::'' @ join '':'' (map show_hex ?r)) \<noteq> CHR ''.''"
      using last_shown(1) [of ?r "'':''"] by (cases "?r = []") (auto simp: last_append)
    show ?thesis
    proof (cases "k = 0 \<and> (n = 6 \<or> n = 5 \<and> be_words b ! 5 = 0xffff)")
      case True
      then show ?thesis
        using v Pair Some ntop6_dotted [OF len, of b] by (auto simp: inet_ntop6_out last_append simp del: join.simps list.map)
    next
      case False
      then show ?thesis
        using r Pair Some ntop6_short [OF len run False, of b] by (simp add: inet_ntop6_out last_append)
    qed
  qed
qed

lemma ip_text_last:
  assumes "ip_text b = Some t"
  shows "unfqdn (asc t) = asc t"
proof -
  have "last t \<noteq> CHR ''.''"
    using assms ntop6_last [of b] last_shown(2) [of b "''.''"] by (cases b) (auto simp: ip_text_def split: if_splits)
  then have "byte_of (last t) \<noteq> 46" using byte_of_inj [of "last t" "CHR ''.''"] by (simp add: byte_of_def)
  then show ?thesis by (cases "t = []") (simp_all add: unfqdn_def asc_def last_map)
qed

lemma check_identity_ip:
  assumes "bytes_ok b" "ip_text b = Some t"
  shows "check_identity (asc t) identity = None \<longleftrightarrow> t \<in> set (hi_ips identity)"
  using canonicalize_text [OF assms] ip_text_last [OF assms(2)]
  by (simp add: check_identity_def Let_def)


section \<open>Wildcards\<close>

lemma tails_equal:
  "length a = length b \<Longrightarrow> list_ex (\<lambda>i. a ! i \<noteq> b ! i) (rev [1..<length a]) \<longleftrightarrow> tl a \<noteq> tl b"
proof -
  assume len: "length a = length b"
  then have "tl a = tl b \<longleftrightarrow> (\<forall>i < length a - 1. a ! Suc i = b ! Suc i)"
    by (auto simp: list_eq_iff_nth_eq nth_tl)
  also have "\<dots> \<longleftrightarrow> (\<forall>i \<in> {1..<length a}. a ! i = b ! i)"
  proof (intro iffI ballI allI impI)
    fix i assume all: "\<forall>i < length a - 1. a ! Suc i = b ! Suc i" and "i \<in> {1..<length a}"
    then show "a ! i = b ! i" by (cases i) auto
  qed auto
  finally show ?thesis by (auto simp: list_ex_iff)
qed

definition printable_label :: "ustr \<Rightarrow> bool" where
  "printable_label l \<longleftrightarrow> l \<noteq> [] \<and> (\<forall>c \<in> set l. 0x21 \<le> c \<and> c \<le> 0x7f)"

text \<open>One \<open>*\<close> stands for any text within one label.\<close>

definition wildcard_label :: "ustr \<Rightarrow> ustr \<Rightarrow> bool" where
  "wildcard_label p h \<longleftrightarrow> (\<exists>pre suf mid. p = pre @ [42] @ suf \<and> 42 \<notin> set pre \<and> 42 \<notin> set suf \<and> h = pre @ mid @ suf)"

text \<open>A label that is compared as it is: no wildcard, or punycode.\<close>

definition plain_label :: "ustr \<Rightarrow> bool" where
  "plain_label p \<longleftrightarrow> 42 \<notin> set p \<or> contains_str (asc ''xn--'') p"

lemma as_bytes_Cons: "as_bytes (c # s) = encode_utf8 c @ as_bytes s"
  by (simp add: as_bytes_def)

lemma str_len_ascii: "\<forall>c \<in> set s. c < 128 \<Longrightarrow> str_len s = length s"
  by (induction s) (auto simp: str_len_def as_bytes_Cons encode_utf8_def as_bytes_def [of "[]"])

lemma str_len_ge: "length s \<le> str_len s"
proof (induction s)
  case (Cons c s)
  then show ?case by (auto simp: str_len_def as_bytes_Cons encode_utf8_def)
qed simp

lemma affix_iff:
  assumes "\<forall>c \<in> set pre. c < 128" "\<forall>c \<in> set suf. c < 128"
  shows "(str_len pre + str_len suf \<le> str_len h \<and> starts_with pre h \<and> ends_with suf h) \<longleftrightarrow> (\<exists>mid. h = pre @ mid @ suf)"
proof
  assume h: "str_len pre + str_len suf \<le> str_len h \<and> starts_with pre h \<and> ends_with suf h"
  have pre: "take (length pre) h = pre" and suf: "drop (length h - length suf) h = suf" using h by (auto simp: starts_with_def ends_with_def)
  show "\<exists>mid. h = pre @ mid @ suf"
  proof (cases "length pre + length suf \<le> length h")
    case True
    have "h = pre @ drop (length pre) h" using append_take_drop_id [of "length pre" h] pre by simp
    moreover have "drop (length pre) h = take (length h - length suf - length pre) (drop (length pre) h) @ suf"
      using append_take_drop_id [of "length h - length suf - length pre" "drop (length pre) h"] suf True by simp
    ultimately show ?thesis by metis
  next
    case False
    have "set (drop (length pre) h) \<subseteq> set (drop (length h - length suf) h)"
      using False by (intro set_drop_subset_set_drop) simp
    then have "\<forall>c \<in> set h. c < 128"
      using assms pre suf append_take_drop_id [of "length pre" h] by (metis Un_iff set_append subsetD)
    then show ?thesis using h False by (simp add: str_len_ascii assms)
  qed
next
  assume "\<exists>mid. h = pre @ mid @ suf"
  then obtain mid where h: "h = pre @ mid @ suf" by blast
  have "str_len h = str_len pre + str_len mid + str_len suf" unfolding h by (simp add: str_len_def as_bytes_def)
  then show "str_len pre + str_len suf \<le> str_len h \<and> starts_with pre h \<and> ends_with suf h"
    unfolding h by (simp add: starts_with_def ends_with_def)
qed

lemma split_on_rejoin: "join [b] (split_on (\<lambda>c. c = b) xs) = xs"
proof (induction xs)
  case (Cons x xs)
  obtain y ys where "split_on (\<lambda>c. c = b) xs = y # ys" by (cases "split_on (\<lambda>c. c = b) xs") auto
  then show ?case using Cons by (cases ys) (auto simp: join_Cons)
qed simp

lemma split_no_star: "42 \<notin> set p \<Longrightarrow> split_on (\<lambda>c. c = (42 :: nat)) p = [p]"
  by (rule split_on_no_sep) auto

lemma split_star_one: "length (split_on (\<lambda>c. c = (42 :: nat)) p) = 1 \<longleftrightarrow> 42 \<notin> set p"
proof
  assume "length (split_on (\<lambda>c. c = (42 :: nat)) p) = 1"
  then obtain a where a: "split_on (\<lambda>c. c = 42) p = [a]" by (auto simp: length_Suc_conv)
  then show "42 \<notin> set p" using split_on_rejoin [of 42 p] split_on_pieces [of a "\<lambda>c. c = 42" p] by auto
qed (simp add: split_no_star)

lemma split_star_two: "split_on (\<lambda>c. c = (42 :: nat)) p = [a, b] \<longleftrightarrow> p = a @ [42] @ b \<and> 42 \<notin> set a \<and> 42 \<notin> set b"
proof
  assume ab: "split_on (\<lambda>c. c = 42) p = [a, b]"
  then show "p = a @ [42] @ b \<and> 42 \<notin> set a \<and> 42 \<notin> set b"
    using split_on_rejoin [of 42 p] split_on_pieces [of _ "\<lambda>c. c = 42" p] by auto
qed (auto simp: split_on_append_sep split_no_star)

lemma wildcard_parts:
  assumes "\<forall>c \<in> set p. c < 128" "42 \<in> set p"
  shows "(let parts = split_on (\<lambda>c. c = 42) p in \<not> 2 < length parts \<and>
      (let pre = parts ! 0; suf = parts ! 1 in
        \<not> str_len h < str_len pre + str_len suf \<and> starts_with pre h \<and> ends_with suf h)) \<longleftrightarrow> wildcard_label p h"
    (is "?lhs \<longleftrightarrow> _")
proof -
  let ?parts = "split_on (\<lambda>c. c = 42) p"
  have n: "length ?parts \<noteq> 1" "length ?parts \<noteq> 0" using split_star_one assms(2) by auto
  show ?thesis
  proof (cases "length ?parts = 2")
    case True
    then obtain a b where ab: "?parts = [a, b]" by (auto simp: length_Suc_conv eval_nat_numeral)
    then have p: "p = a @ [42] @ b" "42 \<notin> set a" "42 \<notin> set b" using split_star_two by blast+
    have uniq: "p = a' @ [42] @ b' \<and> 42 \<notin> set a' \<and> 42 \<notin> set b' \<Longrightarrow> a' = a \<and> b' = b" for a' b'
      using split_star_two [of p a' b'] ab by simp
    have "?lhs \<longleftrightarrow> (\<exists>mid. h = a @ mid @ b)"
      using affix_iff [of a b h] assms(1) p(1) unfolding ab by (auto simp: Let_def)
    also have "\<dots> \<longleftrightarrow> wildcard_label p h" unfolding wildcard_label_def using p uniq by blast
    finally show ?thesis .
  next
    case False
    then have "2 < length ?parts" using n by linarith
    moreover have "\<not> wildcard_label p h"
    proof
      assume "wildcard_label p h"
      then obtain pre suf where "?parts = [pre, suf]" unfolding wildcard_label_def using split_star_two [of p] by blast
      then show False using False by simp
    qed
    ultimately show ?thesis by (simp add: Let_def)
  qed
qed

lemma printable_labels:
  "list_all printable_label pp \<longleftrightarrow> [] \<notin> set pp \<and> \<not> list_ex (list_ex (\<lambda>c. \<not> (0x21 \<le> c \<and> c \<le> 0x7f))) pp"
  by (auto simp: printable_label_def list_all_iff list_ex_iff)

section \<open>Object identifiers\<close>

text \<open>
  An arc is accumulated in 128 bits, so that an arc of 2 to the 133rd prints as 0 and two different
  identifiers have the same text.
\<close>

lemma oid_text_wraps:
  "oid_text (map char_of ([0x2a, 0x81] @ replicate 18 0x80 @ [0 :: nat])) = oid_text (map char_of [0x2a, 0 :: nat])"
  by code_simp

section \<open>Properties\<close>

text \<open>
  Property C6. A certificate is accepted for an address exactly when its alternative names hold an IP
  entry of the address's own bytes.
\<close>

theorem ip_accepted_iff_listed:
  assumes "ip_ok ip" "parse d = Some c"
  shows "check_server_identity parse (IpAddress ip) d = Inr () \<longleftrightarrow>
    (\<exists>bs. GIp bs \<in> set (cert_names c) \<and> map byte_of bs = octets ip)"
proof -
  obtain t where t: "ip_text (octets ip) = Some t" using octets_ok [OF assms(1)] by (auto simp: ip_text_def)
  have b: "bytes_ok (octets ip)" using octets_ok [OF assms(1)] by blast
  have "check_server_identity parse (IpAddress ip) d = Inr () \<longleftrightarrow> t \<in> set (ips_of (cert_names c))"
    using check_identity_ip [OF b t, of "from_certificate c"] assms(2)
    by (cases "check_identity (asc t) (from_certificate c)")
      (simp_all add: check_server_identity_def t from_der_def identity_ips)
  also have "\<dots> \<longleftrightarrow> (\<exists>bs. GIp bs \<in> set (cert_names c) \<and> map byte_of bs = octets ip)"
  proof
    assume "t \<in> set (ips_of (cert_names c))"
    then obtain bs where bs: "GIp bs \<in> set (cert_names c)" "t = unwrap_or [] (ip_text (map byte_of bs))"
      by (auto simp: ips_of_def split: general_name.splits)
    then have "ip_text (map byte_of bs) = Some t" using ip_bytes_text [OF b t] by (cases "ip_text (map byte_of bs)") auto
    then have "map byte_of bs = octets ip" using ip_text_inj [OF _ b _ t] by (simp add: bytes_ok_def byte_of_lt)
    then show "\<exists>bs. GIp bs \<in> set (cert_names c) \<and> map byte_of bs = octets ip" using bs(1) by blast
  next
    assume "\<exists>bs. GIp bs \<in> set (cert_names c) \<and> map byte_of bs = octets ip"
    then show "t \<in> set (ips_of (cert_names c))" using t by (force simp: ips_of_def)
  qed
  finally show ?thesis .
qed

theorem ip_accepted_iff_listed_witness:
  "check_server_identity
     (\<lambda>_. Some \<lparr>ct_extensions = [(''2.5.29.17'', map char_of [0x30, 6, 0x87, 4, 127, 0, 0, 1 :: nat])], ct_subject = []\<rparr>)
     (IpAddress (V4 [127, 0, 0, 1])) [] = Inr ()"
proof -
  let ?c = "\<lparr>ct_extensions = [(''2.5.29.17'', map char_of [0x30, 6, 0x87, 4, 127, 0, 0, 1 :: nat])], ct_subject = []\<rparr>"
  have ok: "ip_ok (V4 [127, 0, 0, 1])" by (simp add: ipv4_ok_def)
  have names: "cert_names ?c = [GIp (map char_of [127, 0, 0, 1 :: nat])]"
    by code_simp
  show ?thesis
    using ip_accepted_iff_listed [OF ok, of "\<lambda>_. Some ?c" "[]" ?c] names by (simp add: byte_of_char_of)
qed

text \<open>
  Property C19. A host matches a pattern when it has as many labels, the labels after the first are equal
  to the pattern's, every label of the pattern is non-empty and printable, and the first is equal to the
  pattern's or, where that holds exactly one \<open>*\<close>, no punycode and is followed by at least two labels,
  is what stands before the \<open>*\<close>, anything within the label, and what stands after it.
\<close>

theorem host_matches_iff:
  "host_matches hp pattern wildcards \<longleftrightarrow> pattern \<noteq> [] \<and>
     (let pp = split_host pattern; plain = plain_label (hd pp) in
      length hp = length pp \<and> list_all printable_label pp \<and> tl hp = tl pp \<and>
      (if plain then hd hp = hd pp
       else wildcards \<and> 2 < length pp \<and> wildcard_label (hd pp) (hd hp)))"
proof (cases "length hp = length (split_host pattern) \<and> list_all printable_label (split_host pattern) \<and> pattern \<noteq> []")
  case True
  let ?pp = "split_host pattern"
  have ne: "?pp \<noteq> []" "hp \<noteq> []" using True by (auto simp: split_host_def)
  then have hd: "hp ! 0 = hd hp" "?pp ! 0 = hd ?pp" by (simp_all add: hd_conv_nth)
  have small: "\<forall>c \<in> set (hd ?pp). c < 128" using True ne by (fastforce simp: list_all_iff printable_label_def)
  have ok: "[] \<notin> set ?pp" "\<not> list_ex (list_ex (\<lambda>c. \<not> (0x21 \<le> c \<and> c \<le> 0x7f))) ?pp"
    using True printable_labels by blast+
  show ?thesis
  proof (cases "42 \<in> set (hd ?pp)")
    case star: True
    then have "length (split_on (\<lambda>c. c = 42) (hd ?pp)) \<noteq> 1" using split_star_one by blast
    then show ?thesis
      unfolding host_matches_def Let_def hd tails_equal [OF conjunct1 [OF True]]
        plain_label_def
        wildcard_parts [OF small star, of "hd hp", unfolded Let_def, symmetric]
      using True ok star by (simp only: if_False if_True simp_thms split: if_split) (auto simp only: not_le not_less)
  next
    case False
    then have "length (split_on (\<lambda>c. c = 42) (hd ?pp)) = 1" using split_star_one by blast
    then show ?thesis
      unfolding host_matches_def Let_def hd tails_equal [OF conjunct1 [OF True]] plain_label_def using True ok False by simp
  qed
next
  case False
  then show ?thesis using printable_labels [of "split_host pattern"] by (auto simp: host_matches_def Let_def)
qed


end
