(* ===== verification/Cert_Js.thy ===== *)
theory Cert_Js
  imports Cert_Check
begin

text \<open>
  \<open>tls.checkServerIdentity\<close> and \<open>net.isIP\<close> of \<open>js/node_compat.js\<close>, and the legacy name object
  \<open>x509NameObject\<close> they read the common name from, with the lemmas that carry the native host
  matching over to UTF-16. Strings are lists of UTF-16 units.
\<close>

section \<open>\<open>net.isIP\<close>\<close>

definition digit_unit :: "nat \<Rightarrow> bool" where
  "digit_unit u \<longleftrightarrow> 48 \<le> u \<and> u \<le> 57"

text \<open>\<open>V4_SEGMENT\<close>, alternative by alternative.\<close>

fun v4_segment :: "nat list \<Rightarrow> bool" where
  "v4_segment [a] = digit_unit a"
| "v4_segment [a, b] = (49 \<le> a \<and> a \<le> 57 \<and> digit_unit b)"
| "v4_segment [a, b, c] =
     (a = 50 \<and> b = 53 \<and> 48 \<le> c \<and> c \<le> 53 \<or> a = 50 \<and> 48 \<le> b \<and> b \<le> 52 \<and> digit_unit c \<or>
      a = 49 \<and> digit_unit b \<and> digit_unit c)"
| "v4_segment _ = False"

definition is_ipv4 :: "nat list \<Rightarrow> bool" where
  "is_ipv4 input =
     (let parts = split_on (\<lambda>c. c = 46) input in length parts = 4 \<and> list_all v4_segment parts)"

definition zone_unit :: "nat \<Rightarrow> bool" where
  "zone_unit u \<longleftrightarrow> digit_unit u \<or> 97 \<le> u \<and> u \<le> 122 \<or> 65 \<le> u \<and> u \<le> 90 \<or> u = 45 \<or> u = 46 \<or> u = 58"

text \<open>\<open>text.split("::")\<close>.\<close>

fun split_colons :: "nat list \<Rightarrow> nat list list" where
  "split_colons (x # y # xs) =
     (if x = 58 \<and> y = 58 then [] # split_colons xs
      else case split_colons (y # xs) of [] \<Rightarrow> [[x]] | t # ts \<Rightarrow> (x # t) # ts)"
| "split_colons xs = [xs]"

definition hex_group :: "nat list \<Rightarrow> bool" where
  "hex_group g \<longleftrightarrow> 1 \<le> length g \<and> length g \<le> 4 \<and> list_all (\<lambda>u. hex_unit u \<noteq> None) g"

definition check_part :: "nat list \<Rightarrow> bool" where
  "check_part part =
     (part = [] \<or>
      (let arr = split_on (\<lambda>c. c = 58) part
       in list_all (\<lambda>(i, g). hex_group g \<or> (i = length arr - 1 \<and> is_ipv4 g)) (enumerate 0 arr)))"

definition is_ipv6 :: "nat list \<Rightarrow> bool" where
  "is_ipv6 input =
     (if input = [] \<or> 32 \<in> set input then False
      else case (case position (\<lambda>c. c = 37) input of
              None \<Rightarrow> Some input
            | Some zone \<Rightarrow>
                if Suc zone < length input \<and> list_all zone_unit (drop (Suc zone) input) then Some (take zone input) else None) of
        None \<Rightarrow> False
      | Some t \<Rightarrow>
          (let sections = split_colons t in
           if 2 < length sections then False
           else if length sections = 2 then check_part (sections ! 0) \<and> check_part (sections ! 1)
           else
             (let groups = split_on (\<lambda>c. c = 58) t;
                  expected = (if is_ipv4 (last groups) then 7 else 8)
              in length groups = expected \<and> check_part t)))"

definition is_ip :: "nat list \<Rightarrow> nat" where
  "is_ip input = (if is_ipv4 input then 4 else if is_ipv6 input then 6 else 0)"

section \<open>The name object\<close>

datatype js_names = OneName "nat list" | ManyNames "nat list list"

definition name_add :: "(nat list \<rightharpoonup> js_names) \<Rightarrow> nat list \<times> nat list \<Rightarrow> (nat list \<rightharpoonup> js_names)" where
  "name_add out = (\<lambda>(key, v).
     case out key of
       Some (ManyNames vs) \<Rightarrow> out(key \<mapsto> ManyNames (vs @ [v]))
     | Some (OneName w) \<Rightarrow> out(key \<mapsto> ManyNames [w, v])
     | None \<Rightarrow> out(key \<mapsto> OneName v))"

definition x509_name_object :: "(nat list \<times> nat list) list \<Rightarrow> (nat list \<rightharpoonup> js_names)" where
  "x509_name_object entries = foldl name_add Map.empty entries"

section \<open>\<open>checkServerIdentity\<close>\<close>

definition js_unfqdn :: "nat list \<Rightarrow> nat list" where
  "js_unfqdn host = (if host \<noteq> [] \<and> last host = 46 then butlast host else host)"

definition lower_az :: "nat \<Rightarrow> nat" where
  "lower_az c = (if 65 \<le> c \<and> c \<le> 90 then 32 + c else c)"

definition js_split_host :: "nat list \<Rightarrow> nat list list" where
  "js_split_host host = split_on (\<lambda>c. c = 46) (map lower_az (js_unfqdn host))"

definition check_host_pattern :: "nat list list \<Rightarrow> nat list \<Rightarrow> bool \<Rightarrow> bool" where
  "check_host_pattern host_parts pattern wildcards =
     (if pattern = [] then False
      else
        (let pattern_parts = js_split_host pattern in
         if length host_parts \<noteq> length pattern_parts then False
         else if [] \<in> set pattern_parts then False
         else if list_ex (list_ex (\<lambda>c. \<not> (0x21 \<le> c \<and> c \<le> 0x7f))) pattern_parts then False
         else if list_ex (\<lambda>i. host_parts ! i \<noteq> pattern_parts ! i) (rev [1..<length host_parts]) then False
         else
           (let host_subdomain = host_parts ! 0;
                pattern_subdomain = pattern_parts ! 0;
                parts = take 3 (split_on (\<lambda>c. c = 42) pattern_subdomain)
            in if length parts = 1 \<or> contains_str (asc ''xn--'') pattern_subdomain
               then host_subdomain = pattern_subdomain
               else if \<not> wildcards then False
               else if 2 < length parts then False
               else if length pattern_parts \<le> 2 then False
               else
                 (let pre = parts ! 0; suf = parts ! 1 in
                  if length host_subdomain < length pre + length suf then False
                  else if \<not> starts_with pre host_subdomain then False
                  else if \<not> ends_with suf host_subdomain then False
                  else True))))"

definition cn_truthy :: "js_names option \<Rightarrow> bool" where
  "cn_truthy cn = (case cn of Some (OneName s) \<Rightarrow> s \<noteq> [] | Some (ManyNames _) \<Rightarrow> True | None \<Rightarrow> False)"

definition cn_text :: "js_names option \<Rightarrow> nat list" where
  "cn_text cn = (case cn of Some (OneName s) \<Rightarrow> s | Some (ManyNames vs) \<Rightarrow> join (asc '','') vs | None \<Rightarrow> asc ''undefined'')"

text \<open>
  The outer \<open>None\<close> is the exception of \<open>splitEscapedAltNames\<close>; the answer is undefined for a match
  and else the reason. An absent element of a list joins as the empty text.
\<close>

definition js_check_server_identity ::
    "(nat list \<Rightarrow> string option) \<Rightarrow> nat list \<Rightarrow> nat list option \<Rightarrow> js_names option \<Rightarrow> nat list option option" where
  "js_check_server_identity canonicalize hostname alt_names cn =
     (case (case alt_names of None \<Rightarrow> Some [] | Some alt \<Rightarrow> js_alt_names alt) of
        None \<Rightarrow> None
      | Some tokens \<Rightarrow>
          (let dns_names = js_dns_names tokens;
               ips = js_ips canonicalize tokens;
               hostname = js_unfqdn hostname;
               (valid, reason) =
                 (if is_ip hostname \<noteq> 0 then
                    (canonicalize hostname \<in> set ips,
                     asc ''IP: '' @ hostname @ asc '' is not in the cert's list: '' @
                       join (asc '', '') (map (\<lambda>ip. asc (unwrap_or [] ip)) ips))
                  else if dns_names \<noteq> [] \<or> cn_truthy cn then
                    (let host_parts = js_split_host hostname in
                     if dns_names \<noteq> [] then
                       (list_ex (\<lambda>pattern. check_host_pattern host_parts pattern True) dns_names,
                        asc ''Host: '' @ hostname @ asc ''. is not in the cert's altnames: '' @ unwrap_or [] alt_names)
                     else
                       ((case cn of
                           Some (ManyNames vs) \<Rightarrow> list_ex (\<lambda>pattern. check_host_pattern host_parts pattern True) vs
                         | Some (OneName s) \<Rightarrow> check_host_pattern host_parts s True
                         | None \<Rightarrow> False),
                        asc ''Host: '' @ hostname @ asc ''. is not cert's CN: '' @ cn_text cn))
                  else (False, asc ''Cert does not contain a DNS name''))
           in Some (if valid then None else Some reason)))"

section \<open>Units and characters\<close>

lemma js_string_Cons: "js_string (c # s) = utf16 c @ js_string s"
  by (simp add: js_string_def)

lemma utf16_nonempty: "utf16 c \<noteq> []"
  by (simp add: utf16_def)

lemma utf16_ascii: "c < 128 \<Longrightarrow> utf16 c = [c]"
  by (simp add: utf16_def)

lemma utf16_high: "128 \<le> c \<Longrightarrow> u \<in> set (utf16 c) \<Longrightarrow> 128 \<le> u"
  by (auto simp: utf16_def split: if_splits)

lemma js_string_ascii: "\<forall>c \<in> set s. c < 128 \<Longrightarrow> js_string s = s"
  by (rule js_string_small) auto

lemma js_string_mem: "u < 128 \<Longrightarrow> u \<in> set (js_string s) \<longleftrightarrow> u \<in> set s"
proof (induction s)
  case (Cons c s)
  then show ?case
    using utf16_high [of c u] utf16_ascii [of c] by (cases "c < 128") (auto simp: js_string_Cons)
qed (simp add: js_string_def)

text \<open>A text whose units are ASCII is that text.\<close>

lemma utf16_ascii_iff: "(\<forall>u \<in> set (utf16 c). u < 128) \<longleftrightarrow> c < 128"
  by (auto simp: utf16_def)

lemma js_string_ascii_iff: "(\<forall>u \<in> set (js_string s). u < 128) \<longleftrightarrow> (\<forall>c \<in> set s. c < 128)"
proof (induction s)
  case (Cons c s)
  then show ?case using utf16_ascii_iff [of c] by (simp add: js_string_Cons ball_Un)
qed (simp add: js_string_def)

lemma js_string_eq_ascii: "\<forall>c \<in> set p. c < 128 \<Longrightarrow> js_string h = p \<longleftrightarrow> h = p"
  using js_string_ascii_iff [of h] js_string_ascii by metis

lemma js_string_map:
  assumes "\<And>c. c < 128 \<Longrightarrow> f c < 128" "\<And>c. 128 \<le> c \<Longrightarrow> f c = c"
  shows "js_string (map f s) = map f (js_string s)"
proof (induction s)
  case (Cons c s)
  have "utf16 (f c) = map f (utf16 c)"
  proof (cases "c < 128")
    case True
    then show ?thesis using assms(1) by (simp add: utf16_ascii)
  next
    case False
    then have "map f (utf16 c) = utf16 c" using utf16_high [of c] assms(2) by (intro map_idI) auto
    then show ?thesis using False assms(2) by simp
  qed
  then show ?case using Cons by (simp add: js_string_Cons)
qed (simp add: js_string_def)

lemma js_string_last: "s \<noteq> [] \<Longrightarrow> u < 128 \<Longrightarrow> last (js_string s) = u \<longleftrightarrow> last s = u"
proof (induction s rule: rev_induct)
  case (snoc c s)
  have "last (utf16 c) = u \<longleftrightarrow> c = u"
    using utf16_ascii [of c] utf16_high [of c "last (utf16 c)"] utf16_nonempty [of c] snoc.prems(2) by (cases "c < 128") auto
  then show ?case using utf16_nonempty by (simp add: js_string_append js_string_Cons js_string_def)
qed simp

lemma js_string_Nil_iff: "js_string s = [] \<longleftrightarrow> s = []"
  by (cases s) (auto simp: js_string_def utf16_nonempty)

lemma split_on_high: "\<forall>u \<in> set a. \<not> P u \<Longrightarrow> split_on P (a @ s) = (a @ hd (split_on P s)) # tl (split_on P s)"
proof (induction a)
  case Nil
  then show ?case by (cases "split_on P s") auto
next
  case (Cons x a)
  then show ?case by simp
qed

lemma split_on_js:
  assumes "x < 128"
  shows "split_on (\<lambda>c. c = x) (js_string s) = map js_string (split_on (\<lambda>c. c = x) s)"
proof (induction s)
  case (Cons c s)
  obtain y ys where sp: "split_on (\<lambda>c. c = x) s = y # ys" by (cases "split_on (\<lambda>c. c = x) s") auto
  show ?case
  proof (cases "c = x")
    case True
    then show ?thesis using Cons assms by (simp add: js_string_Cons utf16_ascii) (simp add: js_string_def)
  next
    case False
    then have "\<forall>u \<in> set (utf16 c). \<not> u = x"
      using assms utf16_high [of c x] utf16_ascii [of c] by (cases "c < 128") auto
    then have "split_on (\<lambda>c. c = x) (js_string (c # s)) = (utf16 c @ js_string y) # map js_string ys"
      using split_on_high [of "utf16 c" "\<lambda>c. c = x" "js_string s"] Cons sp by (simp add: js_string_Cons)
    then show ?thesis using False sp by (simp add: js_string_Cons)
  qed
qed (simp add: js_string_def)

section \<open>Hosts\<close>

lemma js_unfqdn_string: "js_unfqdn (js_string h) = js_string (unfqdn h)"
proof (cases "h \<noteq> [] \<and> last h = 46")
  case True
  then obtain h' where h: "h = h' @ [46]" by (metis append_butlast_last_id)
  then show ?thesis by (simp add: js_unfqdn_def unfqdn_def js_string_append) (simp add: js_string_def utf16_def)
next
  case False
  then show ?thesis using js_string_last [of h 46] by (auto simp: js_unfqdn_def unfqdn_def js_string_Nil_iff)
qed

lemma lower_az_eq: "lower_az = u_lower"
  by (rule ext) (simp add: lower_az_def u_lower_def)

lemma js_split_host_string: "js_split_host (js_string h) = map js_string (split_host h)"
proof -
  have "js_string (map u_lower s) = map u_lower (js_string s)" for s
    by (rule js_string_map) (auto simp: u_lower_def)
  then have "map lower_az (js_unfqdn (js_string h)) = js_string (map u_lower (unfqdn h))"
    by (simp add: js_unfqdn_string lower_az_eq)
  then show ?thesis using split_on_js [of 46 "map u_lower (unfqdn h)"] by (simp add: js_split_host_def split_host_def)
qed

lemma affix_units:
  "(length pre + length suf \<le> length h \<and> starts_with pre h \<and> ends_with suf h) \<longleftrightarrow> (\<exists>mid. h = pre @ mid @ suf)"
proof
  assume h: "length pre + length suf \<le> length h \<and> starts_with pre h \<and> ends_with suf h"
  then have "h = pre @ drop (length pre) h" using append_take_drop_id [of "length pre" h] by (simp add: starts_with_def)
  moreover have "drop (length pre) h = take (length h - length suf - length pre) (drop (length pre) h) @ suf"
    using append_take_drop_id [of "length h - length suf - length pre" "drop (length pre) h"] h by (simp add: ends_with_def)
  ultimately show "\<exists>mid. h = pre @ mid @ suf" by metis
qed (auto simp: starts_with_def ends_with_def)

lemma js_string_front:
  "\<forall>c \<in> set pre. c < 128 \<Longrightarrow> js_string h = pre @ m \<Longrightarrow> \<exists>h'. h = pre @ h' \<and> js_string h' = m"
proof (induction pre arbitrary: h)
  case (Cons p pre)
  obtain c h' where h: "h = c # h'" using Cons.prems(2) by (cases h) (auto simp: js_string_def)
  have eq: "utf16 c @ js_string h' = p # pre @ m" using Cons.prems(2) h by (simp add: js_string_Cons)
  then have "p \<in> set (utf16 c)" using utf16_nonempty [of c] by (cases "utf16 c") auto
  then have "c < 128" using utf16_high [of c p] Cons.prems(1) by force
  then have "c = p" "js_string h' = pre @ m" using eq by (auto simp: utf16_ascii)
  then show ?case using Cons.IH [of h'] Cons.prems(1) h by auto
qed simp

lemma js_string_back:
  "\<forall>c \<in> set suf. c < 128 \<Longrightarrow> js_string h = m @ suf \<Longrightarrow> \<exists>h'. h = h' @ suf \<and> js_string h' = m"
proof (induction suf arbitrary: h rule: rev_induct)
  case (snoc p suf)
  obtain c h' where h: "h = h' @ [c]" using snoc.prems(2) by (cases h rule: rev_cases) (auto simp: js_string_def)
  have eq: "js_string h' @ utf16 c = m @ suf @ [p]" using snoc.prems(2) h by (simp add: js_string_append js_string_Cons) (simp add: js_string_def)
  then have "p = last (utf16 c)" using utf16_nonempty [of c] by (metis append_assoc last_appendR last_snoc)
  then have "p \<in> set (utf16 c)" using utf16_nonempty [of c] by simp
  then have "c < 128" using utf16_high [of c p] snoc.prems(1) by force
  then have "c = p" "js_string h' = m @ suf" using eq by (auto simp: utf16_ascii)
  then show ?case using snoc.IH [of h'] snoc.prems(1) h by auto
qed simp

lemma js_string_affix:
  assumes "\<forall>c \<in> set pre. c < 128" "\<forall>c \<in> set suf. c < 128"
  shows "(\<exists>mid. js_string h = pre @ mid @ suf) \<longleftrightarrow> (\<exists>mid. h = pre @ mid @ suf)"
proof
  assume "\<exists>mid. js_string h = pre @ mid @ suf"
  then obtain mid h' where "h = pre @ h'" "js_string h' = mid @ suf" using js_string_front [OF assms(1)] by blast
  then show "\<exists>mid. h = pre @ mid @ suf" using js_string_back [OF assms(2)] by blast
next
  assume "\<exists>mid. h = pre @ mid @ suf"
  then show "\<exists>mid. js_string h = pre @ mid @ suf" using assms by (auto simp: js_string_append js_string_ascii)
qed

lemma printable_units:
  "list_ex (\<lambda>c. \<not> (0x21 \<le> c \<and> c \<le> 0x7f)) (js_string p) \<longleftrightarrow> list_ex (\<lambda>c. \<not> (0x21 \<le> c \<and> c \<le> 0x7f)) p"
proof (cases "\<forall>c \<in> set p. c < 128")
  case True
  then show ?thesis by (simp add: js_string_ascii)
next
  case False
  then have "\<exists>u \<in> set (js_string p). \<not> u < 128" using js_string_ascii_iff by blast
  then obtain u where "u \<in> set (js_string p)" "127 < u" by force
  moreover obtain c where "c \<in> set p" "127 < c" using False by force
  ultimately have "list_ex (\<lambda>c. \<not> (0x21 \<le> c \<and> c \<le> 0x7f)) (js_string p)" "list_ex (\<lambda>c. \<not> (0x21 \<le> c \<and> c \<le> 0x7f)) p"
    unfolding list_ex_iff by (auto intro: bexI [of _ u] bexI [of _ c])
  then show ?thesis by simp
qed

lemma tails_units:
  assumes "\<forall>p \<in> set pp. \<forall>c \<in> set p. c < 128" "length hp = length pp"
  shows "list_ex (\<lambda>i. map js_string hp ! i \<noteq> pp ! i) (rev [1..<length hp]) \<longleftrightarrow>
    list_ex (\<lambda>i. hp ! i \<noteq> pp ! i) (rev [1..<length hp])"
proof -
  have "map js_string hp ! i \<noteq> pp ! i \<longleftrightarrow> hp ! i \<noteq> pp ! i" if "i \<in> set (rev [1..<length hp])" for i
  proof -
    have "i < length pp" using that assms(2) by simp
    then have "\<forall>c \<in> set (pp ! i). c < 128" using assms(1) nth_mem by blast
    then show ?thesis using js_string_eq_ascii [of "pp ! i" "hp ! i"] \<open>i < length pp\<close> assms(2) by simp
  qed
  then show ?thesis unfolding list_ex_iff by blast
qed

lemma check_host_pattern_string:
  "check_host_pattern (map js_string hp) (js_string pattern) wildcards = host_matches hp pattern wildcards"
proof -
  let ?pp = "split_host pattern"
  have bad: "list_ex (list_ex (\<lambda>c. \<not> (0x21 \<le> c \<and> c \<le> 0x7f))) (map js_string ?pp) \<longleftrightarrow>
      list_ex (list_ex (\<lambda>c. \<not> (0x21 \<le> c \<and> c \<le> 0x7f))) ?pp"
    using printable_units by (auto simp: list_ex_iff)
  have mem: "[] \<in> set (map js_string ?pp) \<longleftrightarrow> [] \<in> set ?pp" by (simp add: image_iff eq_commute [of "[]"] js_string_Nil_iff)
  show ?thesis
  proof (cases "pattern \<noteq> [] \<and> length hp = length ?pp \<and> [] \<notin> set ?pp \<and>
      \<not> list_ex (list_ex (\<lambda>c. \<not> (0x21 \<le> c \<and> c \<le> 0x7f))) ?pp")
    case False
    then show ?thesis
      using bad mem by (auto simp: check_host_pattern_def host_matches_def Let_def js_split_host_string js_string_Nil_iff)
  next
    case True
    then have ascii: "\<forall>p \<in> set ?pp. \<forall>c \<in> set p. c < 128" by (fastforce simp: list_ex_iff)
    then have same: "map js_string ?pp = ?pp" by (intro map_idI) (simp add: js_string_ascii)
    have ne: "hp \<noteq> []" "?pp \<noteq> []" using True by (auto simp: split_host_def)
    let ?p = "?pp ! 0" and ?h = "hp ! 0"
    let ?parts = "split_on (\<lambda>c. c = 42) ?p"
    have small: "\<forall>c \<in> set ?p. c < 128" using ascii ne(2) nth_mem [of 0 ?pp] by blast
    have len: "length (take 3 ?parts) = 1 \<longleftrightarrow> length ?parts = 1" "2 < length (take 3 ?parts) \<longleftrightarrow> 2 < length ?parts" by auto
    have affix: "(\<not> length (js_string ?h) < length (take 3 ?parts ! 0) + length (take 3 ?parts ! 1) \<and>
          starts_with (take 3 ?parts ! 0) (js_string ?h) \<and> ends_with (take 3 ?parts ! 1) (js_string ?h)) \<longleftrightarrow>
        (\<not> str_len ?h < str_len (?parts ! 0) + str_len (?parts ! 1) \<and>
          starts_with (?parts ! 0) ?h \<and> ends_with (?parts ! 1) ?h)" if two: "length ?parts = 2"
    proof -
      obtain a b where ab: "?parts = [a, b]" using two by (auto simp: length_Suc_conv eval_nat_numeral)
      then have "?p = a @ [42] @ b" using split_star_two by blast
      then have s: "\<forall>c \<in> set a. c < 128" "\<forall>c \<in> set b. c < 128" using small by auto
      show ?thesis
        using affix_units [of a b "js_string ?h"] js_string_affix [OF s, of ?h] affix_iff [OF s, of ?h]
        unfolding ab by (simp add: not_less)
    qed
    have js: "js_string pattern \<noteq> []" using True js_string_Nil_iff by blast
    note unfolds = check_host_pattern_def host_matches_def Let_def js_split_host_string same
    note guards = True js tails_units [OF ascii, of hp]
    have h0: "map js_string hp ! 0 = js_string ?h" using ne by simp
    show ?thesis
    proof (cases "list_ex (\<lambda>i. hp ! i \<noteq> ?pp ! i) (rev [1..<length hp])")
      case differ: True
      then show ?thesis unfolding unfolds using guards by simp
    next
      case agree: False
      show ?thesis
      proof (cases "length ?parts = 2")
        case two: True
        have parts: "take 3 ?parts = ?parts" using two by simp
        show ?thesis
          using guards agree js_string_eq_ascii [OF small, of ?h] two affix [OF two, unfolded parts]
          unfolding unfolds h0 parts
          by (cases "contains_str (asc ''xn--'') ?p"; cases "wildcards"; cases "length ?pp \<le> 2") (simp_all, argo)
      next
        case other: False
        have "length ?parts \<noteq> 0" by simp
        then consider "length ?parts = 1" | "2 < length ?parts" using other by linarith
        then show ?thesis
          using guards agree js_string_eq_ascii [OF small, of ?h] len unfolding unfolds h0 by cases simp_all
      qed
    qed
  qed
qed

end
