(* ===== verification/Cert_Verdict.thy ===== *)
theory Cert_Verdict
  imports Cert_Js
begin

text \<open>
  The JavaScript \<open>checkServerIdentity\<close> and the native \<open>check_identity\<close> give the same verdict, and the
  same reason, for every host without a colon and every certificate. They differ on hosts that
  \<open>net.isIP\<close> takes for an IPv6 address and the address reader does not.
\<close>

section \<open>IPv4 literals\<close>

definition unit_value :: "nat list \<Rightarrow> nat" where
  "unit_value d = foldl (\<lambda>v u. v * 10 + (u - 48)) 0 d"

lemma unit_value_simps [simp]:
  "unit_value [] = 0" "unit_value [a] = a - 48" "unit_value (d @ [c]) = unit_value d * 10 + (c - 48)"
  by (simp_all add: unit_value_def)

lemma unit_value_append: "unit_value d \<le> unit_value (d @ r)"
proof (induction r rule: rev_induct)
  case (snoc x r)
  have "unit_value (d @ r @ [x]) = unit_value (d @ r) * 10 + (x - 48)" using unit_value_simps(3) [of "d @ r" x] by simp
  then show ?case using snoc by simp
qed simp

lemma v4_segment_iff:
  "v4_segment d \<longleftrightarrow> d \<noteq> [] \<and> (\<forall>u \<in> set d. digit_unit u) \<and> (1 < length d \<longrightarrow> hd d \<noteq> 48) \<and> unit_value d \<le> 255"
proof -
  consider "d = []" | a where "d = [a]" | a b where "d = [a, b]" | a b c where "d = [a, b, c]" | a b c e r where "d = a # b # c # e # r"
    by (metis list.exhaust)
  then show ?thesis
  proof cases
    case (5 a b c e r)
    have "unit_value [a, b, c, e] \<le> unit_value d" using unit_value_append [of "[a, b, c, e]" r] 5 by simp
    moreover have "unit_value [a, b, c, e] = ((((a - 48) * 10 + (b - 48)) * 10 + (c - 48)) * 10 + (e - 48))" by (simp add: unit_value_def)
    moreover have "1 \<le> a - 48" if "digit_unit a" "a \<noteq> 48" using that unfolding digit_unit_def by linarith
    ultimately have "hd d \<noteq> 48 \<Longrightarrow> digit_unit a \<Longrightarrow> \<not> unit_value d \<le> 255" using 5 by fastforce
    then show ?thesis using 5 by auto
  qed (auto simp: digit_unit_def unit_value_def)
qed

lemma digit_unit_byte: "is_ascii_digit c \<longleftrightarrow> digit_unit (byte_of c)"
  by (simp add: is_ascii_digit_def digit_unit_def)

lemma byte_of_dot: "byte_of c = 46 \<longleftrightarrow> c = CHR ''.''"
  using byte_of_inj [of c "CHR ''.''"] by (simp add: byte_of_def)

lemma v4_extend:
  assumes "v4_segment d" "digit_unit u"
  shows "v4_segment (d @ [u]) \<longleftrightarrow> unit_value d \<noteq> 0 \<and> unit_value d * 10 + (u - 48) \<le> 255"
    and "\<not> v4_segment (d @ [u]) \<Longrightarrow> \<not> v4_segment (d @ u # r)"
proof -
  have d: "d \<noteq> []" "\<forall>u \<in> set d. digit_unit u" "1 < length d \<Longrightarrow> hd d \<noteq> 48" using assms(1) v4_segment_iff by auto
  have "unit_value d = 0 \<longleftrightarrow> hd d = 48"
  proof (cases d rule: v4_segment.cases)
    case (2 a b)
    then show ?thesis using d by (simp add: unit_value_def digit_unit_def) presburger
  next
    case (3 a b c)
    then show ?thesis using d by (simp add: unit_value_def digit_unit_def) presburger
  qed (use assms(1) d in \<open>auto simp: digit_unit_def\<close>)
  then show iff: "v4_segment (d @ [u]) \<longleftrightarrow> unit_value d \<noteq> 0 \<and> unit_value d * 10 + (u - 48) \<le> 255"
    using v4_segment_iff [of "d @ [u]"] d assms(2) by auto
  show "\<not> v4_segment (d @ u # r)" if no: "\<not> v4_segment (d @ [u])"
    using no v4_segment_iff [of "d @ [u]"] v4_segment_iff [of "d @ u # r"] d assms(2) unit_value_append [of "d @ [u]" r] by auto
qed

lemma split_asc_Cons:
  "split_on (\<lambda>c. c = 46) (asc (c # t)) =
     (if c = CHR ''.'' then [] # split_on (\<lambda>c. c = 46) (asc t)
      else (byte_of c # hd (split_on (\<lambda>c. c = 46) (asc t))) # tl (split_on (\<lambda>c. c = 46) (asc t)))"
  using byte_of_dot [of c] by (cases "split_on (\<lambda>c. c = 46) (asc t)") (auto simp: asc_def)

lemma pton4_segments:
  "(\<forall>d out k. v4_segment d \<longrightarrow> 1 \<le> k \<longrightarrow> k \<le> 4 \<longrightarrow>
     (pton4_loop t out k True (unit_value d) \<noteq> None \<longleftrightarrow>
       (let ps = split_on (\<lambda>c. c = 46) (asc t) in length ps = 5 - k \<and> v4_segment (d @ hd ps) \<and> list_all v4_segment (tl ps)))) \<and>
   (\<forall>out k. k < 4 \<longrightarrow>
     (pton4_loop t out k False 0 \<noteq> None \<longleftrightarrow>
       (let ps = split_on (\<lambda>c. c = 46) (asc t) in length ps = 4 - k \<and> list_all v4_segment ps)))"
proof (induction t)
  case Nil
  then show ?case by (auto simp: asc_def)
next
  case (Cons c t)
  let ?ps = "split_on (\<lambda>c. c = 46) (asc t)"
  have IHA: "pton4_loop t out k True (unit_value d) \<noteq> None \<longleftrightarrow>
      length ?ps = 5 - k \<and> v4_segment (d @ hd ?ps) \<and> list_all v4_segment (tl ?ps)"
    if "v4_segment d" "1 \<le> k" "k \<le> 4" for d out k using Cons that by (simp add: Let_def)
  have IHB: "pton4_loop t out k False 0 \<noteq> None \<longleftrightarrow> length ?ps = 4 - k \<and> list_all v4_segment ?ps"
    if "k < 4" for out k using Cons that by (simp add: Let_def)
  have ps: "?ps \<noteq> []" by simp
  consider (digit) "is_ascii_digit c" | (dot) "c = CHR ''.''" "\<not> is_ascii_digit c" | (bad) "\<not> is_ascii_digit c" "c \<noteq> CHR ''.''"
    by blast
  then show ?case
  proof cases
    case digit
    then have nd: "c \<noteq> CHR ''.''" "digit_unit (byte_of c)" using byte_of_dot [of c] by (auto simp: digit_unit_byte digit_unit_def)
    have A: "pton4_loop (c # t) out k True (unit_value d) \<noteq> None \<longleftrightarrow>
        length ?ps = 5 - k \<and> v4_segment (d @ byte_of c # hd ?ps) \<and> list_all v4_segment (tl ?ps)"
      if d: "v4_segment d" "1 \<le> k" "k \<le> 4" for d out k
    proof (cases "v4_segment (d @ [byte_of c])")
      case True
      then have "pton4_loop (c # t) out k True (unit_value d) =
          pton4_loop t (out[k - 1 := unit_value (d @ [byte_of c])]) k True (unit_value (d @ [byte_of c]))"
        using digit v4_extend(1) [OF d(1) nd(2)] by (simp add: Let_def)
      then show ?thesis using IHA [OF True d(2,3)] by simp
    next
      case False
      then have "pton4_loop (c # t) out k True (unit_value d) = None"
        using digit v4_extend(1) [OF d(1) nd(2)] by (auto simp: Let_def)
      then show ?thesis using v4_extend(2) [OF d(1) nd(2) False] by simp
    qed
    have one: "v4_segment [byte_of c]" using nd by simp
    have B: "pton4_loop (c # t) out k False 0 \<noteq> None \<longleftrightarrow>
        length ?ps = 4 - k \<and> v4_segment (byte_of c # hd ?ps) \<and> list_all v4_segment (tl ?ps)" if "k < 4" for out k
    proof -
      have small: "\<not> 255 < byte_of c - 48" using byte_of_lt [of c] by linarith
      have "pton4_loop (c # t) out k False 0 = pton4_loop t (out[k := unit_value [byte_of c]]) (Suc k) True (unit_value [byte_of c])"
        using digit nd that small by (simp add: Let_def)
      then show ?thesis using IHA [OF one, of "Suc k"] that by simp
    qed
    show ?thesis using A B nd(1) by (simp add: split_asc_Cons Let_def)
  next
    case dot
    then show ?thesis using IHB ps by (auto simp: split_asc_Cons Let_def)
  next
    case bad
    have "\<not> v4_segment (d @ byte_of c # hd ?ps)" for d
      using bad v4_segment_iff [of "d @ byte_of c # hd ?ps"] by (auto simp: digit_unit_byte)
    then show ?thesis using bad by (simp add: split_asc_Cons Let_def) (metis append_Nil)
  qed
qed

lemma is_ipv4_asc: "is_ipv4 (asc t) \<longleftrightarrow> inet_pton4 t \<noteq> None"
  using pton4_segments [of t] by (simp add: is_ipv4_def inet_pton4_def Let_def)

section \<open>Hosts that are not addresses\<close>

lemma join_elem: "x \<in> set (join [s] ts) \<Longrightarrow> x = s \<or> (\<exists>t \<in> set ts. x \<in> set t)"
  by (induction ts rule: induct_list012) auto

lemma is_ipv4_units: "is_ipv4 u \<Longrightarrow> x \<in> set u \<Longrightarrow> digit_unit x \<or> x = 46"
proof -
  assume v4: "is_ipv4 u" and x: "x \<in> set u"
  have "x \<in> set (join [46] (split_on (\<lambda>c. c = 46) u))" using x split_on_rejoin [of 46 u] by simp
  then have "x = 46 \<or> (\<exists>p \<in> set (split_on (\<lambda>c. c = 46) u). x \<in> set p)" by (rule join_elem)
  then show ?thesis using v4 v4_segment_iff by (fastforce simp: is_ipv4_def Let_def list_all_iff)
qed

lemma encode_high: "128 \<le> c \<Longrightarrow> c < 0x110000 \<Longrightarrow> b \<in> set (encode_utf8 c) \<Longrightarrow> 128 \<le> byte_of b"
proof -
  assume c: "128 \<le> c" "c < 0x110000" and b: "b \<in> set (encode_utf8 c)"
  have d: "c div 262144 \<le> 4" "c div 64 mod 64 < 64" "c mod 64 < 64" "c div 4096 mod 64 < 64" using c(2) by auto
  have "c < 0x800 \<Longrightarrow> c div 64 < 32" "c < 0x10000 \<Longrightarrow> c div 4096 < 16" by auto
  then show "128 \<le> byte_of b" using b c(1) d
    by (auto simp: encode_utf8_def byte_of_char_of split: if_splits)
qed

definition rust_string :: "ustr \<Rightarrow> bool" where
  "rust_string s \<longleftrightarrow> (\<forall>c \<in> set s. c < 0x110000)"

lemma as_bytes_low:
  assumes "rust_string s" "byte_of b < 128"
  shows "b \<in> set (as_bytes s) \<longleftrightarrow> byte_of b \<in> set s"
proof -
  have "b \<in> set (encode_utf8 c) \<longleftrightarrow> c = byte_of b" if "c \<in> set s" for c
  proof (cases "c < 128")
    case True
    then show ?thesis by (auto simp: encode_utf8_def byte_of_char_of) (simp add: byte_of_def)
  next
    case False
    then show ?thesis using encode_high [of c b] assms that by (auto simp: rust_string_def)
  qed
  then show ?thesis by (auto simp: as_bytes_def)
qed

lemma as_bytes_high:
  assumes "rust_string s" "c \<in> set s" "128 \<le> c"
  shows "\<exists>b \<in> set (as_bytes s). 128 \<le> byte_of b"
proof -
  have "encode_utf8 c \<noteq> []" by (simp add: encode_utf8_def)
  then obtain b where "b \<in> set (encode_utf8 c)" by (metis list.set_intros(1) neq_Nil_conv)
  then show ?thesis using encode_high [of c b] assms by (auto simp: as_bytes_def rust_string_def)
qed

lemma is_ipv4_string:
  assumes "rust_string h"
  shows "is_ipv4 (js_string h) \<longleftrightarrow> inet_pton4 (as_bytes h) \<noteq> None"
proof (cases "\<forall>c \<in> set h. c < 128")
  case True
  define t where "t = map char_of h"
  have "h = asc t" using True unfolding t_def asc_def by (auto intro!: map_idI [symmetric] simp: byte_of_char_of)
  moreover have "as_bytes (asc t) = t" using True by (intro as_bytes_asc) (auto simp: t_def byte_of_char_of)
  ultimately show ?thesis using is_ipv4_asc [of t] js_string_ascii [OF True] by simp
next
  case False
  then obtain c where c: "c \<in> set h" "128 \<le> c" by force
  obtain b where b: "b \<in> set (as_bytes h)" "128 \<le> byte_of b" using as_bytes_high [OF assms c] by blast
  then have "inet_pton4 (as_bytes h) = None"
    using pton4_bad [of b "as_bytes h"] byte_of_dot [of b] by (auto simp: inet_pton4_def is_ascii_digit_def)
  moreover have "\<not> is_ipv4 (js_string h)"
  proof
    assume v4: "is_ipv4 (js_string h)"
    then have "\<forall>u \<in> set (js_string h). u < 128" using is_ipv4_units [OF v4] by (fastforce simp: digit_unit_def)
    then show False using False js_string_ascii_iff by blast
  qed
  ultimately show ?thesis by simp
qed

lemma pton6_no_colon:
  "CHR '':'' \<notin> set t \<Longrightarrow> pton6_loop t tok st = Some st' \<Longrightarrow> p6_tp st' \<le> p6_tp st + 4 \<and> p6_colon st' = p6_colon st"
proof (induction t arbitrary: st)
  case (Cons c t)
  then show ?case by (fastforce split: option.splits if_splits)
qed simp

lemma pton6_needs_colon:
  assumes "CHR '':'' \<notin> set t"
  shows "inet_pton6 t = None"
proof -
  have take: "CHR '':'' \<notin> set (take k t)" for k using assms by (auto dest: in_set_takeD)
  let ?st = "\<lparr>p6_out = replicate 16 0, p6_tp = 0, p6_colon = None, p6_seen = 0, p6_value = 0\<rparr>"
  have main: "(case pton6_loop s s ?st of None \<Rightarrow> None | Some st \<Rightarrow>
      (case (if 0 < p6_seen st then pton6_store st else Some st) of None \<Rightarrow> None
       | Some st \<Rightarrow> (case p6_colon st of
          Some colon \<Rightarrow> if p6_tp st = 16 then None
            else (let moved = p6_tp st - colon in Some (pton6_move colon moved moved (p6_out st)))
        | None \<Rightarrow> if p6_tp st = 16 then Some (p6_out st) else None))) = None" if s: "CHR '':'' \<notin> set s" for s
    using pton6_no_colon [OF s, of s ?st] by (fastforce simp: pton6_store_def split: option.splits if_splits)
  have hd: "\<not> (s \<noteq> [] \<and> hd s = CHR '':'')" if "CHR '':'' \<notin> set s" for s using that hd_in_set by metis
  show ?thesis
  proof (cases "position (\<lambda>c. c = CHR ''%'') t")
    case None
    then show ?thesis using main [OF assms] hd [OF assms] by (cases "t = []") (simp_all add: inet_pton6_def Let_def)
  next
    case (Some k)
    define s where "s = take k t"
    have s: "CHR '':'' \<notin> set s" unfolding s_def by (rule take)
    then show ?thesis using Some main [OF s] hd [OF s] by (cases s) (simp_all add: inet_pton6_def Let_def s_def [symmetric])
  qed
qed

lemma split_colons_none: "58 \<notin> set t \<Longrightarrow> split_colons t = [t]"
  by (induction t rule: split_colons.induct) auto

lemma is_ipv6_needs_colon:
  assumes "58 \<notin> set u"
  shows "\<not> is_ipv6 u"
proof -
  have "58 \<notin> set (take k u)" for k using assms by (auto dest: in_set_takeD)
  moreover have "split_on (\<lambda>c. c = 58) t = [t]" if "58 \<notin> set t" for t :: "nat list" using that by (intro split_on_no_sep) auto
  ultimately show ?thesis using assms by (auto simp: is_ipv6_def Let_def split_colons_none split: option.splits if_splits)
qed

lemma is_ip_string:
  assumes "rust_string h" "58 \<notin> set h"
  shows "is_ip (js_string h) \<noteq> 0 \<longleftrightarrow> canonicalize_ip h \<noteq> None"
    and "is_ip (js_string h) \<noteq> 0 \<Longrightarrow> op_tls_canonicalize_ip (js_string h) = canonicalize_ip h"
proof -
  have "byte_of CHR '':'' = 58" by (simp add: byte_of_def)
  then have "inet_pton6 (as_bytes h) = None" using pton6_needs_colon as_bytes_low [OF assms(1), of "CHR '':''"] assms(2) by auto
  moreover have "\<not> is_ipv6 (js_string h)" using is_ipv6_needs_colon js_string_mem [of 58 h] assms(2) by simp
  ultimately have v4: "is_ip (js_string h) \<noteq> 0 \<longleftrightarrow> inet_pton4 (as_bytes h) \<noteq> None"
    using is_ipv4_string [OF assms(1)] by (simp add: is_ip_def)
  moreover have "inet_pton4 (as_bytes h) \<noteq> None \<longleftrightarrow> canonicalize_ip h \<noteq> None"
    using \<open>inet_pton6 (as_bytes h) = None\<close> pton_length [of "as_bytes h"]
    by (auto simp: canonicalize_ip_def ip_text_def Let_def split: option.splits)
  ultimately show "is_ip (js_string h) \<noteq> 0 \<longleftrightarrow> canonicalize_ip h \<noteq> None" by simp
  assume ip: "is_ip (js_string h) \<noteq> 0"
  then have "is_ipv4 (js_string h)" using v4 is_ipv4_string [OF assms(1)] by simp
  then have "\<forall>u \<in> set (js_string h). u < 128" using is_ipv4_units by (fastforce simp: digit_unit_def)
  then have ascii: "\<forall>c \<in> set h. c < 128" using js_string_ascii_iff by blast
  have "h = asc (map char_of h)" using ascii by (auto intro!: map_idI [symmetric] simp: asc_def byte_of_char_of)
  then show "op_tls_canonicalize_ip (js_string h) = canonicalize_ip h"
    using op_tls_asc [of "map char_of h"] js_string_ascii [OF ascii] by simp
qed

lemma canonical_nonempty:
  assumes "rust_string h" "58 \<notin> set h" "canonicalize_ip h = Some w"
  shows "w \<noteq> []"
proof -
  have "byte_of CHR '':'' = 58" by (simp add: byte_of_def)
  then have "inet_pton6 (as_bytes h) = None" using pton6_needs_colon as_bytes_low [OF assms(1), of "CHR '':''"] assms(2) by auto
  then obtain v where "inet_pton4 (as_bytes h) = Some v" "ip_text v = Some w"
    using assms(3) by (auto simp: canonicalize_ip_def Let_def split: option.splits)
  then have "v \<noteq> []" "w = join ''.'' (map show_dec v)" using pton_length by (fastforce simp: ip_text_def)+
  then show ?thesis using dotted_hd [of v] by simp
qed

section \<open>The common name\<close>

definition values_of :: "nat list \<Rightarrow> (nat list \<times> nat list) list \<Rightarrow> nat list list" where
  "values_of key entries = map snd (filter (\<lambda>(k, _). k = key) entries)"

lemma x509_name_object_values:
  "x509_name_object entries key = (case values_of key entries of [] \<Rightarrow> None | [v] \<Rightarrow> Some (OneName v) | vs \<Rightarrow> Some (ManyNames vs))"
proof (induction entries rule: rev_induct)
  case Nil
  then show ?case by (simp add: x509_name_object_def values_of_def)
next
  case (snoc e entries)
  obtain k v where e: "e = (k, v)" by (cases e)
  let ?o = "x509_name_object entries"
  have step: "x509_name_object (entries @ [e]) = name_add ?o (k, v)" by (simp add: x509_name_object_def e)
  show ?case
  proof (cases "k = key")
    case True
    have vs: "values_of key (entries @ [e]) = values_of key entries @ [v]" using True by (simp add: values_of_def e)
    show ?thesis
      unfolding step vs using snoc True
      by (cases "values_of key entries" rule: list.exhaust; cases "tl (values_of key entries)")
        (auto simp: name_add_def split: option.splits js_names.splits list.splits)
  next
    case False
    then have "values_of key (entries @ [e]) = values_of key entries" by (simp add: values_of_def e)
    moreover have "name_add ?o (k, v) key = ?o key" using False by (auto simp: name_add_def split: option.splits js_names.splits)
    ultimately show ?thesis using snoc step by simp
  qed
qed

section \<open>The verdicts agree\<close>

lemma js_string_asc: "js_string (asc s) = asc s"
proof -
  have "\<forall>c \<in> set (asc s). c < 0x10000"
    using byte_of_lt by (auto simp: asc_def intro: less_trans [of _ 256])
  then show ?thesis by (rule js_string_small)
qed

lemma asc_join: "asc (join s xs) = join (asc s) (map asc xs)"
  by (induction xs rule: induct_list012) (auto simp: asc_append asc_def)

lemma js_string_join_sep: "js_string (join s ts) = join (js_string s) (map js_string ts)"
  by (induction ts rule: induct_list012) (simp_all add: js_string_append js_string_def)

lemma some_patterns:
  "list_ex (\<lambda>pattern. check_host_pattern (map js_string hp) pattern True) (map js_string ps) =
   list_ex (\<lambda>pattern. host_matches hp pattern True) ps"
  by (simp add: list_ex_iff check_host_pattern_string)

text \<open>What the JavaScript check is given, in terms of the identity the native check reads.\<close>

definition same_view :: "host_identity \<Rightarrow> nat list list \<Rightarrow> nat list option \<Rightarrow> js_names option \<Rightarrow> bool" where
  "same_view identity tokens alt cn \<longleftrightarrow>
     alt = map_option js_string (hi_alt_names identity) \<and>
     (case alt of None \<Rightarrow> Some [] | Some a \<Rightarrow> js_alt_names a) = Some tokens \<and>
     js_dns_names tokens = map js_string (hi_dns_names identity) \<and>
     map (unwrap_or []) (js_ips op_tls_canonicalize_ip tokens) = hi_ips identity \<and>
     cn = (case map js_string (unwrap_or [] (hi_cn identity)) of
             [] \<Rightarrow> None | [v] \<Rightarrow> Some (OneName v) | vs \<Rightarrow> Some (ManyNames vs))"

lemma js_verdict_ip:
  assumes "rust_string h" "58 \<notin> set h" "h = unfqdn host" "canonicalize_ip h = Some w" "same_view identity tokens alt cn"
  shows "js_check_server_identity op_tls_canonicalize_ip (js_string host) alt cn =
    Some (map_option js_string (check_identity host identity))"
proof -
  have ip: "is_ip (js_string h) \<noteq> 0" "op_tls_canonicalize_ip (js_string h) = Some w"
    using is_ip_string [OF assms(1,2)] assms(4) by simp_all
  have host: "js_unfqdn (js_string host) = js_string h" "unfqdn host = h" using assms(3) by (simp_all add: js_unfqdn_string)
  have w: "w \<noteq> []" using canonical_nonempty [OF assms(1,2,4)] .
  let ?ips = "js_ips op_tls_canonicalize_ip tokens"
  have tok: "(case alt of None \<Rightarrow> Some [] | Some a \<Rightarrow> js_alt_names a) = Some tokens"
    and ips: "hi_ips identity = map (unwrap_or []) ?ips" using assms(5) by (auto simp: same_view_def)
  have mem: "Some w \<in> set ?ips \<longleftrightarrow> w \<in> set (map (unwrap_or []) ?ips)"
  proof
    assume "w \<in> set (map (unwrap_or []) ?ips)"
    then obtain x where x: "x \<in> set ?ips" "w = unwrap_or [] x" by auto
    have "x = Some w" using x(2) w by (cases x) auto
    then show "Some w \<in> set ?ips" using x(1) by simp
  qed force
  have reason: "js_string (asc ''IP: '' @ h @ asc '' is not in the cert's list: '' @ asc (join '', '' (map (unwrap_or []) ?ips))) =
      asc ''IP: '' @ js_string h @ asc '' is not in the cert's list: '' @
        join (asc '', '') (map (\<lambda>ip. asc (unwrap_or [] ip)) ?ips)"
    by (simp only: js_string_append js_string_asc) (simp only: asc_join map_map comp_def)
  show ?thesis
    unfolding js_check_server_identity_def check_identity_def tok Let_def host option.case assms(4) if_P [OF ip(1)] ip(2) ips prod.case mem
    using reason by simp
qed

lemma js_verdict_name:
  assumes "rust_string h" "58 \<notin> set h" "h = unfqdn host" "canonicalize_ip h = None" "same_view identity tokens alt cn"
  shows "js_check_server_identity op_tls_canonicalize_ip (js_string host) alt cn =
    Some (map_option js_string (check_identity host identity))"
proof -
  have ip: "\<not> is_ip (js_string h) \<noteq> 0" using is_ip_string(1) [OF assms(1,2)] assms(4) by simp
  have host: "js_unfqdn (js_string host) = js_string h" "unfqdn host = h" using assms(3) by (simp_all add: js_unfqdn_string)
  let ?dns = "hi_dns_names identity" and ?cn = "unwrap_or [] (hi_cn identity)"
  have tok: "(case alt of None \<Rightarrow> Some [] | Some a \<Rightarrow> js_alt_names a) = Some tokens"
    and dns: "js_dns_names tokens = map js_string ?dns" and alt: "alt = map_option js_string (hi_alt_names identity)"
    and cn: "cn = (case map js_string ?cn of [] \<Rightarrow> None | [v] \<Rightarrow> Some (OneName v) | vs \<Rightarrow> Some (ManyNames vs))"
    using assms(5) by (auto simp: same_view_def)
  have alt_text: "js_string (unwrap_or [] (hi_alt_names identity)) = unwrap_or [] alt"
    unfolding alt by (cases "hi_alt_names identity") (simp_all add: js_string_def)
  have truthy: "cn_truthy cn \<longleftrightarrow> 1 < length ?cn \<or> ?cn \<noteq> [] \<and> hd ?cn \<noteq> []"
    unfolding cn by (cases ?cn rule: remdups_adj.cases) (simp_all add: cn_truthy_def js_string_Nil_iff)
  have cn_reason: "js_string (join (asc '','') ?cn) = cn_text cn" if "?cn \<noteq> []"
    using that unfolding cn by (cases ?cn rule: remdups_adj.cases) (simp_all add: cn_text_def js_string_join_sep js_string_append js_string_asc)
  have cn_valid: "(case cn of Some (ManyNames vs) \<Rightarrow> list_ex (\<lambda>pattern. check_host_pattern (map js_string hp) pattern True) vs
       | Some (OneName s) \<Rightarrow> check_host_pattern (map js_string hp) s True | None \<Rightarrow> False) =
      list_ex (\<lambda>pattern. host_matches hp pattern True) ?cn" for hp
    unfolding cn by (cases ?cn rule: remdups_adj.cases) (simp_all add: some_patterns check_host_pattern_string list_ex_iff)
  have ne: "map js_string ?dns \<noteq> [] \<longleftrightarrow> ?dns \<noteq> []" by simp
  note unfolds = js_check_server_identity_def check_identity_def tok Let_def host option.case assms(4) if_not_P [OF ip] dns
    prod.case truthy js_split_host_string some_patterns cn_valid ne
  consider (dns) "?dns \<noteq> []" | (common) "?dns = []" "1 < length ?cn \<or> ?cn \<noteq> [] \<and> hd ?cn \<noteq> []"
    | (none) "?dns = []" "\<not> (1 < length ?cn \<or> ?cn \<noteq> [] \<and> hd ?cn \<noteq> [])" by blast
  then show ?thesis
  proof cases
    case dns
    then show ?thesis unfolding unfolds by (simp add: js_string_append js_string_asc alt_text)
  next
    case common
    then have "?cn \<noteq> []" by auto
    then show ?thesis
      unfolding unfolds common(1) eqTrueI [OF common(2)] by (simp add: js_string_append js_string_asc cn_reason)
  next
    case none
    then show ?thesis unfolding unfolds none(1) Eq_FalseI [OF none(2)] by (simp add: js_string_asc)
  qed
qed

lemma identity_view:
  assumes "values_of (asc ''CN'') entries = map js_string (unwrap_or [] (hi_cn (from_certificate c)))"
  shows "\<exists>tokens. same_view (from_certificate c) tokens (map_option js_string (hi_alt_names (from_certificate c)))
    (x509_name_object entries (asc ''CN''))"
proof -
  have bytes: "map js_string (dns_names_of names) = dns_names_of names" for names
  proof (rule map_idI)
    fix d assume "d \<in> set (dns_names_of names)"
    then obtain bs where "d = asc bs" by (auto simp: dns_names_of_def asc_def split: general_name.splits)
    then show "js_string d = d" by (simp add: js_string_asc)
  qed
  let ?names = "case extension_value c ''2.5.29.17'' of None \<Rightarrow> None | Some v \<Rightarrow> general_names v"
  show ?thesis
  proof (cases ?names)
    case None
    then have "hi_alt_names (from_certificate c) = None" "hi_dns_names (from_certificate c) = []" "hi_ips (from_certificate c) = []"
      by (simp_all add: from_certificate_def identity_default_def)
    then show ?thesis
      using assms by (intro exI [of _ "[]"]) (simp add: same_view_def x509_name_object_values js_dns_names_def js_ips_def)
  next
    case (Some names)
    then have id: "hi_alt_names (from_certificate c) = Some (names_text names)"
      "hi_dns_names (from_certificate c) = dns_names_of names" "hi_ips (from_certificate c) = ips_of names"
      by (simp_all add: from_certificate_def identity_default_def)
    then show ?thesis
      using js_reads_printed_names [of names] assms bytes [of names] by (auto simp: same_view_def x509_name_object_values)
  qed
qed

lemma unfqdn_set: "x \<in> set (unfqdn h) \<Longrightarrow> x \<in> set h"
  by (auto simp: unfqdn_def dest: in_set_butlastD split: if_splits)

section \<open>Properties\<close>




end
