(* ===== verification/Redirect.thy ===== *)
theory Redirect
  imports Cert_Names Http_Head
begin

text \<open>
  The preparation of a request and the redirect step of \<open>fetch\<close>
  (\<open>crates/oam_core/src/http_client/prepare.rs\<close> and \<open>redirect.rs\<close>).

  The crates \<open>url\<close>, \<open>http\<close>, \<open>percent-encoding\<close> and \<open>base64\<close> are arguments, gathered in the record
  \<open>crates\<close>. A \<open>Url\<close> is the record of the parts the code reads and sets; a \<open>HeaderMap\<close> is the list of
  values of each name; a method is its token.
\<close>

section \<open>The crates\<close>

record url =
  u_scheme :: string
  u_username :: string
  u_password :: "string option"
  u_host :: "string option"
  u_port :: "nat option"
  u_tail :: string
  u_fragment :: "string option"

type_synonym header_map = "string \<Rightarrow> string list"

record crates =
  cr_parse :: "ustr \<Rightarrow> url option"
  cr_join :: "url \<Rightarrow> ustr \<Rightarrow> url option"
  cr_to_uri :: "url \<Rightarrow> bool"
  cr_percent_decode :: "string \<Rightarrow> string option"
  cr_base64 :: "string \<Rightarrow> string"
  cr_base64_decode :: "string \<Rightarrow> string option"
  cr_method :: "string \<Rightarrow> string option"
  cr_header_name :: "string \<Rightarrow> string option"
  cr_header_value :: "string \<Rightarrow> string option"
  cr_room :: "header_map \<Rightarrow> string \<Rightarrow> bool"

text \<open>\<open>Url::port_or_known_default\<close>.\<close>

definition known_default :: "string \<Rightarrow> nat option" where
  "known_default scheme = map_of [(''http'', 80), (''https'', 443), (''ws'', 80), (''wss'', 443), (''ftp'', 21)] scheme"

definition port_or_known_default :: "url \<Rightarrow> nat option" where
  "port_or_known_default u = (case u_port u of Some p \<Rightarrow> Some p | None \<Rightarrow> known_default (u_scheme u))"

text \<open>\<open>HeaderMap\<close>: \<open>try_append\<close> and \<open>try_insert\<close> fail when the map has no room for the name.\<close>

definition try_append :: "crates \<Rightarrow> header_map \<Rightarrow> string \<Rightarrow> string \<Rightarrow> header_map option" where
  "try_append cr h n v = (if cr_room cr h n then Some (h(n := h n @ [v])) else None)"

definition try_insert :: "crates \<Rightarrow> header_map \<Rightarrow> string \<Rightarrow> string \<Rightarrow> header_map option" where
  "try_insert cr h n v = (if cr_room cr h n then Some (h(n := [v])) else None)"

definition remove_all :: "header_map \<Rightarrow> string list \<Rightarrow> header_map" where
  "remove_all h ns = foldl (\<lambda>h n. h(n := [])) h ns"

text \<open>
  \<open>slice::binary_search\<close>: half of the \<open>n\<close> elements from \<open>base\<close> is dropped while more than one is left.
\<close>

function search_from :: "nat list \<Rightarrow> nat \<Rightarrow> nat \<Rightarrow> nat \<Rightarrow> nat" where
  "search_from xs x base n =
     (if n \<le> 1 then base
      else (let half = n div 2; mid = base + half
            in search_from xs x (if x < xs ! mid then base else mid) (n - half)))"
  by auto
termination by (relation "measure (\<lambda>(_, _, _, n). n)") auto

declare search_from.simps [simp del]

definition binary_search :: "nat list \<Rightarrow> nat \<Rightarrow> bool" where
  "binary_search xs x = (xs \<noteq> [] \<and> xs ! search_from xs x 0 (length xs) = x)"

section \<open>Preparing a request\<close>

definition BUILDER_ERROR :: string where
  "BUILDER_ERROR = ''builder error''"

definition DEFAULT_ACCEPT_ENCODING :: string where
  "DEFAULT_ACCEPT_ENCODING = ''gzip,deflate''"

record prepared =
  pr_url :: url
  pr_method :: string
  pr_headers :: header_map

datatype prepare_error = Builder | InvalidMethod string | TooManyHeaders

definition prepare_error_text :: "prepare_error \<Rightarrow> string" where
  "prepare_error_text e = (case e of
     Builder \<Rightarrow> BUILDER_ERROR
   | InvalidMethod m \<Rightarrow> ''fetch: invalid method '' @ [CHR 0x27] @ m @ [CHR 0x27]
   | TooManyHeaders \<Rightarrow> ''fetch: too many request headers'')"

definition is_http :: "url \<Rightarrow> bool" where
  "is_http u \<longleftrightarrow> u_scheme u = ''http'' \<or> u_scheme u = ''https''"

definition parse_url :: "crates \<Rightarrow> ustr \<Rightarrow> string + url" where
  "parse_url cr raw =
     (case cr_parse cr raw of
        None \<Rightarrow> Inl BUILDER_ERROR
      | Some u \<Rightarrow>
          if is_http u \<and> u_host u \<noteq> None
          then (if cr_to_uri cr u then Inr u else Inl BUILDER_ERROR)
          else Inl BUILDER_ERROR)"

definition take_userinfo :: "crates \<Rightarrow> url \<Rightarrow> url \<times> string option" where
  "take_userinfo cr u =
     (if u_username u = [] \<and> u_password u = None then (u, None)
      else
        (let username = cr_percent_decode cr (u_username u);
             password = Option.bind (u_password u) (cr_percent_decode cr)
         in (u\<lparr>u_username := [], u_password := None\<rparr>,
             (case username of
                None \<Rightarrow> None
              | Some username \<Rightarrow>
                  if username = [] \<and> password = None then None
                  else cr_header_value cr (''Basic '' @ cr_base64 cr (username @ '':'' @ unwrap_or [] password))))))"

fun append_user_headers :: "crates \<Rightarrow> header_map \<Rightarrow> (string \<times> ustr) list \<Rightarrow> prepare_error + header_map" where
  "append_user_headers cr h [] = Inr h"
| "append_user_headers cr h ((name, v) # hs) =
     (case cr_header_name cr name of
        None \<Rightarrow> Inl Builder
      | Some name \<Rightarrow>
          (case latin1_header_value (cr_header_value cr) v of
             None \<Rightarrow> Inl Builder
           | Some v \<Rightarrow>
               (case try_append cr h name v of
                  None \<Rightarrow> Inl TooManyHeaders
                | Some h \<Rightarrow> append_user_headers cr h hs)))"

definition insert_absent :: "crates \<Rightarrow> string \<Rightarrow> string \<Rightarrow> header_map \<Rightarrow> prepare_error + header_map" where
  "insert_absent cr n v h =
     (if h n = [] then (case try_insert cr h n v of None \<Rightarrow> Inl TooManyHeaders | Some h \<Rightarrow> Inr h) else Inr h)"

definition insert_defaults :: "crates \<Rightarrow> bool \<Rightarrow> string \<Rightarrow> header_map \<Rightarrow> prepare_error + header_map" where
  "insert_defaults cr default_headers user_agent h =
     (if default_headers then
        rbind (insert_absent cr ''accept'' ''*/*'' h) (\<lambda>h.
        rbind (insert_absent cr ''user-agent'' user_agent h) (\<lambda>h.
          insert_absent cr ''accept-encoding'' DEFAULT_ACCEPT_ENCODING h))
      else Inr h)"

definition credential_headers :: "crates \<Rightarrow> string option \<Rightarrow> (string \<times> ustr) list \<Rightarrow> prepare_error + header_map" where
  "credential_headers cr basic user_headers =
     (case basic of
        Some basic \<Rightarrow>
          if list_ex (\<lambda>(name, _). eq_ignore_ascii_case name ''authorization'') user_headers then Inr (\<lambda>_. [])
          else (case try_append cr (\<lambda>_. []) ''authorization'' basic of None \<Rightarrow> Inl TooManyHeaders | Some h \<Rightarrow> Inr h)
      | None \<Rightarrow> Inr (\<lambda>_. []))"

definition prepare :: "crates \<Rightarrow> ustr \<Rightarrow> string \<Rightarrow> (string \<times> ustr) list \<Rightarrow> bool \<Rightarrow> string \<Rightarrow> prepare_error + prepared" where
  "prepare cr raw_url method user_headers default_headers user_agent =
     (case cr_method cr method of
        None \<Rightarrow> Inl (InvalidMethod method)
      | Some method \<Rightarrow>
          (case parse_url cr raw_url of
             Inl _ \<Rightarrow> Inl Builder
           | Inr u \<Rightarrow>
               (let (u, basic) = take_userinfo cr u in
                rbind (credential_headers cr basic user_headers) (\<lambda>h.
                rbind (append_user_headers cr h user_headers) (\<lambda>h.
                rbind (insert_defaults cr default_headers user_agent h) (\<lambda>h.
                  Inr \<lparr>pr_url = u, pr_method = method, pr_headers = h\<rparr>))))))"

definition origin_eq :: "url \<Rightarrow> url \<Rightarrow> bool" where
  "origin_eq a b \<longleftrightarrow> u_scheme a = u_scheme b \<and> u_host a = u_host b \<and> port_or_known_default a = port_or_known_default b"

definition BAD_PORTS :: "nat list" where
  "BAD_PORTS =
     [1, 7, 9, 11, 13, 15, 17, 19, 20, 21, 22, 23, 25, 37, 42, 43, 53, 69, 77, 79, 87, 95, 101, 102,
      103, 104, 109, 110, 111, 113, 115, 117, 119, 123, 135, 137, 139, 143, 161, 179, 389, 427, 465,
      512, 513, 514, 515, 526, 530, 531, 532, 540, 548, 554, 556, 563, 587, 601, 636, 989, 990, 993,
      995, 1719, 1720, 1723, 2049, 3659, 4045, 4190, 5060, 5061, 6000, 6566, 6665, 6666, 6667, 6668,
      6669, 6679, 6697, 10080]"

definition is_bad_port :: "url \<Rightarrow> bool" where
  "is_bad_port u \<longleftrightarrow> is_http u \<and> (case u_port u of Some port \<Rightarrow> binary_search BAD_PORTS port | None \<Rightarrow> False)"

section \<open>The redirect step\<close>

definition MAX_REDIRECTS :: nat where
  "MAX_REDIRECTS = 20"

definition INVALID_URL :: string where
  "INVALID_URL = ''Invalid URL''"

definition BAD_SCHEME :: string where
  "BAD_SCHEME = ''URL scheme must be a HTTP(S) scheme''"

definition COUNT_EXCEEDED :: string where
  "COUNT_EXCEEDED = ''redirect count exceeded''"

definition CREDENTIALS :: string where
  "CREDENTIALS = ''cross origin not allowed for request mode '' @ [CHR 0x22] @ ''cors'' @ [CHR 0x22]"

definition BAD_PORT :: string where
  "BAD_PORT = ''bad port''"

definition UNEXPECTED_REDIRECT :: string where
  "UNEXPECTED_REDIRECT = ''unexpected redirect''"

definition STREAMED_BODY :: string where
  "STREAMED_BODY = []"

datatype redirect_body = Replayable | Streamed | StreamedFetch | UndiciReplayable | UndiciIterable

datatype redirect_rules = FetchRules | UndiciRules

datatype next_step =
  Done | Follow url string bool | ReturnResponse | Fail string | InvalidLocation ustr

definition is_redirect_status :: "nat \<Rightarrow> bool" where
  "is_redirect_status status \<longleftrightarrow> status \<in> {301, 302, 303, 307, 308}"

text \<open>The values of the response's Location lines, joined.\<close>

definition location_value :: "crates \<Rightarrow> (string \<times> string) list \<Rightarrow> string option" where
  "location_value cr headers =
     (case map snd (filter (\<lambda>(n, _). n = ''location'') headers) of
        [] \<Rightarrow> None
      | [v] \<Rightarrow> Some v
      | vs \<Rightarrow> cr_header_value cr (join '', '' vs))"

definition bad_edge :: "char \<Rightarrow> bool" where
  "bad_edge c \<longleftrightarrow> c = CHR 0x09 \<or> c = CHR '' ''"

definition resolve_location :: "crates \<Rightarrow> string \<Rightarrow> url \<Rightarrow> ustr option + url" where
  "resolve_location cr raw current =
     (if raw \<noteq> [] \<and> (bad_edge (hd raw) \<or> bad_edge (last raw)) \<or>
         list_ex (\<lambda>b. b = CHR 0x00 \<or> b = CHR 0x0D \<or> b = CHR 0x0A) raw
      then Inl None
      else
        (let t = from_utf8_lossy raw
         in case cr_join cr current t of Some u \<Rightarrow> Inr u | None \<Rightarrow> Inl (Some t)))"

definition rewrites_to_get :: "nat \<Rightarrow> string \<Rightarrow> redirect_rules \<Rightarrow> bool" where
  "rewrites_to_get status method rules = (case rules of
     UndiciRules \<Rightarrow> status = 303 \<and> method \<noteq> ''HEAD''
   | FetchRules \<Rightarrow>
       (status = 301 \<or> status = 302) \<and> method = ''POST'' \<or>
       status = 303 \<and> method \<noteq> ''GET'' \<and> method \<noteq> ''HEAD'')"

definition inherit_fragment :: "url \<Rightarrow> url \<Rightarrow> url" where
  "inherit_fragment current target =
     (if u_fragment target = None \<or> u_fragment target = Some []
      then target\<lparr>u_fragment := (if u_fragment current = Some [] then None else u_fragment current)\<rparr>
      else target)"

definition redirect_next ::
    "crates \<Rightarrow> nat \<Rightarrow> string \<Rightarrow> url \<Rightarrow> string option \<Rightarrow> nat \<Rightarrow> redirect_body \<Rightarrow> next_step" where
  "redirect_next cr status method current location redirects_so_far body =
     (if \<not> is_redirect_status status then Done
      else case location of
        None \<Rightarrow> Done
      | Some location \<Rightarrow>
          if body = Streamed then ReturnResponse
          else (case resolve_location cr location current of
             Inl (Some input) \<Rightarrow> InvalidLocation input
           | Inl None \<Rightarrow> Fail INVALID_URL
           | Inr target \<Rightarrow>
               if \<not> is_http target then Fail BAD_SCHEME
               else if MAX_REDIRECTS \<le> redirects_so_far then Fail COUNT_EXCEEDED
               else if u_username target \<noteq> [] \<or> u_password target \<noteq> None then Fail CREDENTIALS
               else
                 (let target = inherit_fragment current target in
                  if body = StreamedFetch \<and> status \<noteq> 303 then Fail STREAMED_BODY
                  else
                    (let rules = (if body = UndiciReplayable \<or> body = UndiciIterable then UndiciRules else FetchRules);
                         rewrite = rewrites_to_get status method rules
                     in if \<not> rewrite \<and> body = StreamedFetch then ReturnResponse
                        else if is_bad_port target then Fail BAD_PORT
                        else if rewrite then Follow target ''GET'' True
                        else Follow target method False))))"

definition BODY_HEADERS :: "string list" where
  "BODY_HEADERS = [''content-encoding'', ''content-language'', ''content-location'', ''content-type'',
     ''content-length'', ''transfer-encoding'']"

definition ORIGIN_HEADERS :: "string list" where
  "ORIGIN_HEADERS = [''authorization'', ''proxy-authorization'', ''cookie'', ''host'']"

definition redirect_apply :: "header_map \<Rightarrow> url \<Rightarrow> url \<Rightarrow> bool \<Rightarrow> header_map" where
  "redirect_apply headers from_url to_url drop_body =
     (let headers = (if drop_body then remove_all headers BODY_HEADERS else headers)
      in if \<not> origin_eq from_url to_url then remove_all headers ORIGIN_HEADERS else headers)"

section \<open>The port table\<close>

lemma search_from_finds:
  "sorted xs \<Longrightarrow> 1 \<le> n \<Longrightarrow> base + n \<le> length xs \<Longrightarrow> base \<le> i \<Longrightarrow> i < base + n \<Longrightarrow> xs ! i = x \<Longrightarrow>
     xs ! search_from xs x base n = x"
proof (induction xs x base n arbitrary: i rule: search_from.induct)
  case (1 xs x base n)
  show ?case
  proof (cases "n \<le> 1")
    case True
    then have "i = base" using 1 by simp
    then show ?thesis using True "1.prems"(6) by (simp add: search_from.simps [of xs x base n])
  next
    case False
    define half where "half = n div 2"
    have half: "1 \<le> half" "half < n" "half \<le> n - half" using False by (auto simp: half_def)
    let ?b = "if x < xs ! (base + half) then base else base + half"
    have step: "search_from xs x base n = search_from xs x ?b (n - half)"
      using False by (subst search_from.simps) (simp add: Let_def half_def)
    note IH = "1.IH" [OF False half_def refl, folded half_def]
    have bounds: "1 \<le> n - half" "?b + (n - half) \<le> length xs" using half "1.prems"(3) by auto
    obtain k where k: "?b \<le> k" "k < ?b + (n - half)" "xs ! k = x"
    proof (cases "x < xs ! (base + half)")
      case True
      have "i < base + half"
      proof (rule ccontr)
        assume "\<not> i < base + half"
        then have "xs ! (base + half) \<le> xs ! i" using sorted_nth_mono [OF "1.prems"(1), of "base + half" i] "1.prems" by simp
        then show False using True "1.prems"(6) by simp
      qed
      then show ?thesis using that [of i] True "1.prems" half by auto
    next
      case no: False
      show ?thesis
      proof (cases "base + half \<le> i")
        case True
        then show ?thesis using that [of i] no "1.prems" half by auto
      next
        case False
        then have "x \<le> xs ! (base + half)"
          using sorted_nth_mono [OF "1.prems"(1), of i "base + half"] "1.prems" half by auto
        then have "xs ! (base + half) = x" using no by simp
        then show ?thesis using that [of "base + half"] half by simp
      qed
    qed
    show ?thesis unfolding step using IH [OF "1.prems"(1) bounds k] .
  qed
qed

lemma binary_search_iff:
  assumes "sorted xs"
  shows "binary_search xs x \<longleftrightarrow> x \<in> set xs"
proof
  assume "x \<in> set xs"
  then obtain i where "i < length xs" "xs ! i = x" by (auto simp: in_set_conv_nth)
  then show "binary_search xs x"
    using search_from_finds [OF assms, of "length xs" 0 i x] by (cases xs) (auto simp: binary_search_def)
next
  have range: "base + n \<le> length xs \<Longrightarrow> 1 \<le> n \<Longrightarrow> search_from xs x base n < length xs" for base n
  proof (induction xs x base n rule: search_from.induct)
    case (1 xs x base n)
    show ?case
    proof (cases "n \<le> 1")
      case True
      then show ?thesis using 1 by (simp add: search_from.simps [of xs x base n])
    next
      case False
      then show ?thesis using 1 by (subst search_from.simps) (auto simp: Let_def)
    qed
  qed
  assume "binary_search xs x"
  then have "xs \<noteq> []" "xs ! search_from xs x 0 (length xs) = x" by (auto simp: binary_search_def)
  moreover from this(1) have "1 \<le> length xs" by (cases xs) auto
  ultimately show "x \<in> set xs" using range [of 0 "length xs"] nth_mem [of "search_from xs x 0 (length xs)" xs] by simp
qed

lemma bad_ports_sorted: "sorted BAD_PORTS"
  by (simp add: BAD_PORTS_def)

lemma is_bad_port_iff: "is_bad_port u \<longleftrightarrow> is_http u \<and> (\<exists>p. u_port u = Some p \<and> p \<in> set BAD_PORTS)"
  using binary_search_iff [OF bad_ports_sorted] by (auto simp: is_bad_port_def split: option.splits)

section \<open>What a step and a rewrite give\<close>

lemma remove_all_apply: "remove_all h ns n = (if n \<in> set ns then [] else h n)"
proof -
  have "foldl (\<lambda>h n. h(n := [])) h ns n = (if n \<in> set ns then [] else h n)" for h :: header_map
    by (induction ns arbitrary: h) auto
  then show ?thesis by (simp add: remove_all_def)
qed

text \<open>A step that follows goes to an HTTP URL with no credentials and no bad port, within the limit.\<close>

lemma redirect_next_follow:
  assumes "redirect_next cr status method current loc n body = Follow u m d"
  shows "is_http u \<and> u_username u = [] \<and> u_password u = None \<and> \<not> is_bad_port u \<and> n < MAX_REDIRECTS \<and> body \<noteq> Streamed \<and>
    (body = StreamedFetch \<longrightarrow> d)"
  using assms unfolding redirect_next_def
  by (auto simp: Let_def inherit_fragment_def is_http_def split: if_splits option.splits sum.splits)

lemma redirect_apply_keeps: "redirect_apply h a b d n \<noteq> [] \<Longrightarrow> h n \<noteq> []"
  by (auto simp: redirect_apply_def Let_def remove_all_apply split: if_splits)

lemma redirect_apply_strips: "\<not> origin_eq a b \<Longrightarrow> n \<in> set ORIGIN_HEADERS \<Longrightarrow> redirect_apply h a b d n = []"
  by (simp add: redirect_apply_def Let_def remove_all_apply)

lemma take_userinfo_clear: "take_userinfo cr u = (u', basic) \<Longrightarrow>
  u_username u' = [] \<and> u_password u' = None \<and> u_scheme u' = u_scheme u \<and> u_host u' = u_host u \<and> u_port u' = u_port u"
  by (auto simp: take_userinfo_def Let_def split: if_splits)

lemma rbind_Inr: "rbind x f = Inr y \<longleftrightarrow> (\<exists>z. x = Inr z \<and> f z = Inr y)"
  by (cases x) auto

lemma prepare_url:
  assumes "prepare cr raw m hs d ua = Inr p"
  shows "is_http (pr_url p) \<and> u_username (pr_url p) = [] \<and> u_password (pr_url p) = None"
proof -
  obtain u basic where u: "parse_url cr raw = Inr u" "take_userinfo cr u = (pr_url p, basic)"
    using assms by (auto simp: prepare_def rbind_Inr split: option.splits sum.splits prod.splits)
  then have "is_http u" by (auto simp: parse_url_def split: option.splits if_splits)
  then show ?thesis using take_userinfo_clear [OF u(2)] by (simp add: is_http_def)
qed

end
