(* ===== verification/Fetch_Loop.thy ===== *)
theory Fetch_Loop
  imports Redirect
begin

text \<open>
  The request loop of \<open>fetch\<close> (\<open>crates/oam_core/src/http_client/send.rs\<close>): a hop checks the net grant,
  builds its request and sends it, a failed send may be sent again, and the answer ends the fetch or starts the next hop.

  The network is a list of answers, one per request sent; \<open>run\<close> yields the requests it sends, in order,
  and the outcome, if the answers last to it. A park for a lookup hook or a connector resumes the loop with
  the state it had and is not modelled. The transport's proxy credential, the conversion of a URL and
  the crates of \<open>Redirect\<close> are arguments.
\<close>

section \<open>State\<close>

datatype redirect_mode = FollowMode | ManualMode | ErrorMode

text \<open>A body: none, the bytes, or a stream, whose receiver the first send takes.\<close>

datatype body_source = EmptyBody | FullBody string | StreamBody nat bool

record fetch_env =
  en_crates :: crates
  en_proxy_authorization :: "url \<Rightarrow> string option"
  en_net_check :: "(string \<times> nat \<Rightarrow> bool) option"
  en_canonical_reason :: "nat \<Rightarrow> string option"

record loop_state =
  st_method :: string
  st_current :: url
  st_pin :: "url option"
  st_carried :: header_map
  st_source :: body_source
  st_hops :: nat
  st_redirect :: redirect_mode
  st_max_header_size :: nat
  st_undici_head :: bool
  st_fetch_rules :: bool
  st_iterable_body :: bool
  st_h2 :: nat
  st_stale :: bool

record sent_request =
  rq_url :: url
  rq_target :: url
  rq_method :: string
  rq_headers :: header_map
  rq_body :: body_source

record response =
  rs_status :: nat
  rs_headers :: "(string \<times> string) list"
  rs_http2 :: bool
  rs_reason :: "string option"

record send_error =
  se_h2_retryable :: bool
  se_incomplete :: bool
  se_reused :: bool
  se_started :: bool
  se_text :: string

text \<open>
  What a send comes to: a response (and whether the fetch is cancelled before its connection is back), a
  failure, a cancel, or a head that is late.
\<close>

datatype send_answer = Answered response bool | SendFailed send_error | Cancelled | HeadLate

datatype fetch_outcome =
  Responded response | Failed string | AccessDenied "string \<times> nat" | NodeFailed string string
| InvalidLocationOf ustr url | SendOutcome string

definition MAX_H2_RETRIES :: nat where
  "MAX_H2_RETRIES = 2"

definition ABORTED :: string where
  "ABORTED = ''fetch: aborted''"

section \<open>A hop\<close>

definition replayable :: "body_source \<Rightarrow> bool" where
  "replayable s = (case s of StreamBody _ _ \<Rightarrow> False | _ \<Rightarrow> True)"

definition build_body :: "body_source \<Rightarrow> string + body_source" where
  "build_body s = (case s of
     StreamBody handle True \<Rightarrow> Inl (''fetch: unknown body stream '' @ show_dec handle)
   | StreamBody handle False \<Rightarrow> Inr (StreamBody handle True)
   | _ \<Rightarrow> Inr s)"

definition is_idempotent :: "string \<Rightarrow> bool" where
  "is_idempotent m \<longleftrightarrow> m \<in> {''GET'', ''HEAD'', ''PUT'', ''DELETE'', ''OPTIONS'', ''TRACE''}"

definition pinned_url :: "url \<Rightarrow> url \<Rightarrow> url" where
  "pinned_url u pin = u\<lparr>u_scheme := u_scheme pin, u_host := u_host pin, u_port := u_port pin\<rparr>"

definition net_target :: "url \<Rightarrow> string \<times> nat" where
  "net_target u = (unwrap_or [] (u_host u), unwrap_or 0 (port_or_known_default u))"

definition net_denial :: "fetch_env \<Rightarrow> url \<Rightarrow> (string \<times> nat) option" where
  "net_denial env u = (case en_net_check env of
     None \<Rightarrow> None
   | Some check \<Rightarrow> if check (net_target u) then None else Some (net_target u))"

definition hop_target :: "loop_state \<Rightarrow> url" where
  "hop_target st = (case st_pin st of Some pin \<Rightarrow> pinned_url (st_current st) pin | None \<Rightarrow> st_current st)"

definition hop_headers :: "fetch_env \<Rightarrow> loop_state \<Rightarrow> header_map option" where
  "hop_headers env st = (case en_proxy_authorization env (hop_target st) of
     Some auth \<Rightarrow>
       if st_carried st ''proxy-authorization'' = []
       then try_insert (en_crates env) (st_carried st) ''proxy-authorization'' auth
       else Some (st_carried st)
   | None \<Rightarrow> Some (st_carried st))"

definition hop_start :: "fetch_env \<Rightarrow> loop_state \<Rightarrow> fetch_outcome + header_map" where
  "hop_start env st =
     (let target = hop_target st in
      case net_denial env target of
        Some denial \<Rightarrow> Inl (AccessDenied denial)
      | None \<Rightarrow>
          if \<not> cr_to_uri (en_crates env) target then Inl (Failed BUILDER_ERROR)
          else (case hop_headers env st of
             None \<Rightarrow> Inl (Failed (prepare_error_text TooManyHeaders))
           | Some h \<Rightarrow> Inr h))"

definition response_head_overflow :: "fetch_env \<Rightarrow> response \<Rightarrow> nat \<Rightarrow> bool \<Rightarrow> fetch_outcome option" where
  "response_head_overflow env r limit undici_head =
     (let fields = sum_list (map (\<lambda>(n, v). length n + length v) (rs_headers r));
          total = fields + (if \<not> undici_head \<and> \<not> rs_http2 r
             then (case rs_reason r of Some reason \<Rightarrow> length reason
                   | None \<Rightarrow> length (unwrap_or [] (en_canonical_reason env (rs_status r))))
             else 0)
      in if total < limit then None
         else Some (if undici_head then NodeFailed ''UND_ERR_HEADERS_OVERFLOW'' ''Headers Overflow Error''
           else NodeFailed ''HPE_HEADER_OVERFLOW'' ''Parse Error: Header overflow''))"

definition redirect_body_of :: "loop_state \<Rightarrow> redirect_body" where
  "redirect_body_of st =
     (let undici_request = st_undici_head st \<and> \<not> st_fetch_rules st in
      if replayable (st_source st) then
        (if \<not> st_fetch_rules st \<and> undici_request then UndiciReplayable else Replayable)
      else if st_fetch_rules st then StreamedFetch
      else if st_iterable_body st then UndiciIterable
      else Streamed)"

definition follow :: "loop_state \<Rightarrow> url \<Rightarrow> string \<Rightarrow> bool \<Rightarrow> loop_state" where
  "follow st u method drop_body =
     (let carried = redirect_apply (st_carried st) (st_current st) u drop_body;
          spent = (\<not> drop_body \<and> redirect_body_of st = UndiciIterable)
      in st\<lparr>st_carried := (if spent then carried(''transfer-encoding'' := [], ''content-length'' := [''0'']) else carried),
        st_source := (if drop_body \<or> spent then EmptyBody else st_source st),
        st_method := method, st_current := u, st_hops := st_hops st + 1, st_h2 := 0, st_stale := False\<rparr>)"

datatype verdict = Resend loop_state | Finished fetch_outcome | NextHop loop_state

definition judge_response :: "fetch_env \<Rightarrow> loop_state \<Rightarrow> response \<Rightarrow> bool \<Rightarrow> verdict" where
  "judge_response env st r cancelled =
     (case response_head_overflow env r (st_max_header_size st) (st_undici_head st) of
        Some refusal \<Rightarrow> Finished refusal
      | None \<Rightarrow>
          if st_redirect st = ManualMode then Finished (Responded r)
          else if st_redirect st = ErrorMode \<and> is_redirect_status (rs_status r)
          then Finished (Failed UNEXPECTED_REDIRECT)
          else (case redirect_next (en_crates env) (rs_status r) (st_method st) (st_current st)
                  (location_value (en_crates env) (rs_headers r)) (st_hops st) (redirect_body_of st) of
             Done \<Rightarrow> Finished (Responded r)
           | ReturnResponse \<Rightarrow> Finished (Responded r)
           | Fail t \<Rightarrow> Finished (Failed t)
           | InvalidLocation input \<Rightarrow> Finished (InvalidLocationOf input (st_current st))
           | Follow u method drop_body \<Rightarrow>
               if cancelled then Finished (Failed ABORTED) else NextHop (follow st u method drop_body)))"

definition judge_error :: "loop_state \<Rightarrow> send_error \<Rightarrow> verdict" where
  "judge_error st e =
     (if st_h2 st < MAX_H2_RETRIES \<and> replayable (st_source st) \<and> se_h2_retryable e
      then Resend (st\<lparr>st_h2 := st_h2 st + 1\<rparr>)
      else if \<not> st_stale st \<and> replayable (st_source st) \<and> is_idempotent (st_method st) \<and> se_incomplete e \<and>
        se_reused e \<and> \<not> se_started e
      then Resend (st\<lparr>st_stale := True\<rparr>)
      else Finished (SendOutcome (se_text e)))"

definition judge :: "fetch_env \<Rightarrow> loop_state \<Rightarrow> send_answer \<Rightarrow> verdict" where
  "judge env st a = (case a of
     Answered r cancelled \<Rightarrow> judge_response env st r cancelled
   | SendFailed e \<Rightarrow> judge_error st e
   | Cancelled \<Rightarrow> Finished (Failed ABORTED)
   | HeadLate \<Rightarrow> Finished (NodeFailed ''UND_ERR_HEADERS_TIMEOUT'' ''Headers Timeout Error''))"

section \<open>The loop\<close>

definition request_of :: "loop_state \<Rightarrow> header_map \<Rightarrow> sent_request" where
  "request_of st h = \<lparr>rq_url = st_current st, rq_target = hop_target st, rq_method = st_method st, rq_headers = h,
     rq_body = st_source st\<rparr>"

fun send_loop :: "fetch_env \<Rightarrow> loop_state \<Rightarrow> header_map \<Rightarrow> send_answer list \<Rightarrow> sent_request list \<times> fetch_outcome option" where
  "send_loop env st h answers =
     (case build_body (st_source st) of
        Inl t \<Rightarrow> ([], Some (Failed t))
      | Inr source' \<Rightarrow>
          (case answers of
             [] \<Rightarrow> ([request_of st h], None)
           | a # as \<Rightarrow>
               (case judge env (st\<lparr>st_source := source'\<rparr>) a of
                  Finished out \<Rightarrow> ([request_of st h], Some out)
                | Resend st' \<Rightarrow> (case send_loop env st' h as of (rs, out) \<Rightarrow> (request_of st h # rs, out))
                | NextHop st' \<Rightarrow>
                    (case hop_start env st' of
                       Inl out \<Rightarrow> ([request_of st h], Some out)
                     | Inr h' \<Rightarrow> (case send_loop env st' h' as of (rs, out) \<Rightarrow> (request_of st h # rs, out))))))"

declare send_loop.simps [simp del]

definition run_loop :: "fetch_env \<Rightarrow> loop_state \<Rightarrow> send_answer list \<Rightarrow> sent_request list \<times> fetch_outcome option" where
  "run_loop env st answers = (case hop_start env st of
     Inl out \<Rightarrow> ([], Some out)
   | Inr h \<Rightarrow> send_loop env st h answers)"

section \<open>The op\<close>

record fetch_request =
  fr_url :: ustr
  fr_method :: "string option"
  fr_headers :: "(string \<times> ustr) list"
  fr_default_headers :: bool
  fr_user_agent :: string
  fr_body_stream :: "nat option"
  fr_body :: "string option"
  fr_body_base64 :: "string option"
  fr_pin_origin :: "ustr option"
  fr_redirect :: redirect_mode
  fr_max_header_size :: nat
  fr_fetch_semantics :: bool
  fr_dispatch_semantics :: bool
  fr_iterable_body :: bool

definition pin_origin :: "crates \<Rightarrow> ustr \<Rightarrow> string + url" where
  "pin_origin cr origin =
     (let refusal = ''fetch: invalid dispatcher origin '' @ as_bytes origin in
      case cr_parse cr origin of
        Some u \<Rightarrow> if is_http u \<and> u_host u \<noteq> None then Inr u else Inl refusal
      | None \<Rightarrow> Inl refusal)"

definition source_of :: "crates \<Rightarrow> fetch_request \<Rightarrow> string + body_source" where
  "source_of cr req = (case fr_body_stream req of
     Some handle \<Rightarrow> Inr (StreamBody handle False)
   | None \<Rightarrow> (case fr_body req of
       Some body \<Rightarrow> Inr (FullBody body)
     | None \<Rightarrow> (case fr_body_base64 req of
         Some encoded \<Rightarrow> (case cr_base64_decode cr encoded of
             Some bytes \<Rightarrow> Inr (FullBody bytes)
           | None \<Rightarrow> Inl ''fetch: malformed base64 body'')
       | None \<Rightarrow> Inr EmptyBody)))"

definition initial_state :: "fetch_request \<Rightarrow> prepared \<Rightarrow> body_source \<Rightarrow> url option \<Rightarrow> loop_state" where
  "initial_state req p source pin = \<lparr>st_method = pr_method p, st_current = pr_url p, st_pin = pin, st_carried = pr_headers p,
     st_source = source, st_hops = 0, st_redirect = fr_redirect req, st_max_header_size = fr_max_header_size req,
     st_undici_head = (fr_fetch_semantics req \<or> fr_dispatch_semantics req), st_fetch_rules = fr_fetch_semantics req,
     st_iterable_body = fr_iterable_body req, st_h2 = 0, st_stale = False\<rparr>"

definition fetch_op :: "fetch_env \<Rightarrow> fetch_request \<Rightarrow> send_answer list \<Rightarrow> sent_request list \<times> fetch_outcome option" where
  "fetch_op env req answers =
     (case prepare (en_crates env) (fr_url req) (unwrap_or ''GET'' (fr_method req)) (fr_headers req)
             (fr_default_headers req) (fr_user_agent req) of
        Inl e \<Rightarrow> ([], Some (Failed (prepare_error_text e)))
      | Inr p \<Rightarrow>
          if fr_fetch_semantics req \<and> is_bad_port (pr_url p) then ([], Some (Failed BAD_PORT))
          else (case source_of (en_crates env) req of
             Inl t \<Rightarrow> ([], Some (Failed t))
           | Inr source \<Rightarrow>
               (case fr_pin_origin req of
                  None \<Rightarrow> run_loop env (initial_state req p source None) answers
                | Some origin \<Rightarrow>
                    (case pin_origin (en_crates env) origin of
                       Inl t \<Rightarrow> ([], Some (Failed t))
                     | Inr pin \<Rightarrow> run_loop env (initial_state req p source (Some pin)) answers))))"

section \<open>Steps of the loop\<close>

lemma judge_resend:
  assumes "judge env st a = Resend st'"
  shows "replayable (st_source st) \<and> (\<exists>e. a = SendFailed e) \<and>
    (st_h2 st < MAX_H2_RETRIES \<and> st' = st\<lparr>st_h2 := st_h2 st + 1\<rparr> \<or>
     \<not> st_stale st \<and> is_idempotent (st_method st) \<and> st' = st\<lparr>st_stale := True\<rparr>)"
  using assms
  by (auto simp: judge_def judge_response_def judge_error_def Let_def
      split: send_answer.splits if_splits option.splits next_step.splits)

lemma judge_next:
  assumes "judge env st a = NextHop st'"
  shows "\<exists>r u m d. a = Answered r False \<and> st' = follow st u m d \<and>
    redirect_next (en_crates env) (rs_status r) (st_method st) (st_current st)
      (location_value (en_crates env) (rs_headers r)) (st_hops st) (redirect_body_of st) = Follow u m d"
  using assms
  by (auto simp: judge_def judge_response_def judge_error_def split: send_answer.splits if_splits option.splits next_step.splits)

lemma follow_simps [simp]:
  "st_current (follow st u m d) = u" "st_method (follow st u m d) = m" "st_hops (follow st u m d) = st_hops st + 1"
  "st_pin (follow st u m d) = st_pin st" "st_fetch_rules (follow st u m d) = st_fetch_rules st"
  "st_h2 (follow st u m d) = 0" "st_stale (follow st u m d) = False"
  by (simp_all add: follow_def Let_def)

lemma build_source: "build_body s = Inr s' \<Longrightarrow> replayable s' = replayable s \<and> (replayable s \<longrightarrow> s' = s)"
  by (auto simp: build_body_def replayable_def split: body_source.splits bool.splits)

lemma hop_start_fields:
  assumes "st_current st' = st_current st" "st_pin st' = st_pin st" "st_carried st' = st_carried st"
  shows "hop_start env st' = hop_start env st" "hop_target st' = hop_target st"
proof -
  show t: "hop_target st' = hop_target st" unfolding hop_target_def assms ..
  show "hop_start env st' = hop_start env st" unfolding hop_start_def hop_headers_def t assms ..
qed

text \<open>One case per way a send goes on; the loop's properties are proved by this induction.\<close>

lemma send_loop_induct [consumes 1, case_names unbuilt waiting finished denied again hop]:
  assumes "send_loop env st h answers = res"
    and "\<And>st h answers t. build_body (st_source st) = Inl t \<Longrightarrow> P st h answers ([], Some (Failed t))"
    and "\<And>st h s. build_body (st_source st) = Inr s \<Longrightarrow> P st h [] ([request_of st h], None)"
    and "\<And>st h s a answers out. build_body (st_source st) = Inr s \<Longrightarrow>
      judge env (st\<lparr>st_source := s\<rparr>) a = Finished out \<Longrightarrow> P st h (a # answers) ([request_of st h], Some out)"
    and "\<And>st h s a answers st' out. build_body (st_source st) = Inr s \<Longrightarrow>
      judge env (st\<lparr>st_source := s\<rparr>) a = NextHop st' \<Longrightarrow> hop_start env st' = Inl out \<Longrightarrow>
      P st h (a # answers) ([request_of st h], Some out)"
    and "\<And>st h s a answers st' rs out. build_body (st_source st) = Inr s \<Longrightarrow>
      judge env (st\<lparr>st_source := s\<rparr>) a = Resend st' \<Longrightarrow> P st' h answers (rs, out) \<Longrightarrow>
      P st h (a # answers) (request_of st h # rs, out)"
    and "\<And>st h s a answers st' h' rs out. build_body (st_source st) = Inr s \<Longrightarrow>
      judge env (st\<lparr>st_source := s\<rparr>) a = NextHop st' \<Longrightarrow> hop_start env st' = Inr h' \<Longrightarrow> P st' h' answers (rs, out) \<Longrightarrow>
      P st h (a # answers) (request_of st h # rs, out)"
  shows "P st h answers res"
  unfolding assms(1) [symmetric]
proof (induction answers arbitrary: st h)
  case Nil
  show ?case by (subst send_loop.simps) (auto split: sum.splits intro: assms(2,3))
next
  case (Cons a answers)
  show ?case
  proof (cases "build_body (st_source st)")
    case (Inl t)
    then show ?thesis by (subst send_loop.simps) (simp add: assms(2))
  next
    case built: (Inr s)
    show ?thesis
    proof (cases "judge env (st\<lparr>st_source := s\<rparr>) a")
      case (Finished out)
      then show ?thesis using built by (subst send_loop.simps) (simp add: assms(4))
    next
      case (Resend st')
      obtain rs out where r: "send_loop env st' h answers = (rs, out)" by fastforce
      then show ?thesis using built Resend assms(6) [OF built Resend] Cons [of st' h] by (subst send_loop.simps) simp
    next
      case (NextHop st')
      show ?thesis
      proof (cases "hop_start env st'")
        case (Inl out)
        then show ?thesis using built NextHop by (subst send_loop.simps) (simp add: assms(5))
      next
        case (Inr h')
        obtain rs out where r: "send_loop env st' h' answers = (rs, out)" by fastforce
        then show ?thesis
          using built NextHop Inr assms(7) [OF built NextHop Inr] Cons [of st' h'] by (subst send_loop.simps) simp
      qed
    qed
  qed
qed

text \<open>
  The steps from one send to the next, and the sends they reach; \<open>send_loop\<close> sends the requests of the
  states it goes through.
\<close>

inductive sends :: "fetch_env \<Rightarrow> loop_state \<Rightarrow> loop_state \<Rightarrow> bool" for env where
  again: "build_body (st_source st) = Inr s \<Longrightarrow> judge env (st\<lparr>st_source := s\<rparr>) a = Resend st' \<Longrightarrow> sends env st st'"
| hop: "build_body (st_source st) = Inr s \<Longrightarrow> judge env (st\<lparr>st_source := s\<rparr>) a = NextHop st' \<Longrightarrow>
    hop_start env st' = Inr h \<Longrightarrow> sends env st st'"

inductive_cases sendsE: "sends env st st'"

locale loop_invariant =
  fixes env :: fetch_env and I :: "loop_state \<Rightarrow> bool"
  assumes step: "I st \<Longrightarrow> sends env st st' \<Longrightarrow> I st'"
begin

lemma requests:
  assumes "I st" "hop_start env st = Inr h" "rq \<in> set (fst (send_loop env st h answers))"
  shows "\<exists>st' h'. I st' \<and> hop_start env st' = Inr h' \<and> rq = request_of st' h'"
proof -
  have "I st \<Longrightarrow> hop_start env st = Inr h \<Longrightarrow> rq \<in> set (fst res) \<Longrightarrow>
      \<exists>st' h'. I st' \<and> hop_start env st' = Inr h' \<and> rq = request_of st' h'" if "send_loop env st h answers = res" for res
    using that
  proof (induction rule: send_loop_induct)
    case (again st h s a answers st' rs out)
    have "hop_start env st' = hop_start env st" using judge_resend [OF again(2)] by (intro hop_start_fields) auto
    then show ?case using again step sends.again [OF again(1,2)] by auto
  next
    case (hop st h s a answers st' h' rs out)
    then show ?case using step sends.hop [OF hop(1-3)] by auto
  qed auto
  then show ?thesis using assms by blast
qed

end

text \<open>The URL of a hop.\<close>

definition clean_hop :: "loop_state \<Rightarrow> bool" where
  "clean_hop st \<longleftrightarrow> is_http (st_current st) \<and> u_username (st_current st) = [] \<and> u_password (st_current st) = None \<and>
     (st_fetch_rules st \<or> 0 < st_hops st \<longrightarrow> \<not> is_bad_port (st_current st))"

lemma clean_hop_step: "clean_hop st \<Longrightarrow> sends env st st' \<Longrightarrow> clean_hop st'"
proof (erule sendsE)
  fix s a assume clean: "clean_hop st" and j: "judge env (st\<lparr>st_source := s\<rparr>) a = Resend st'"
  then show "clean_hop st'" using judge_resend [OF j] by (auto simp: clean_hop_def)
next
  fix s a h assume j: "judge env (st\<lparr>st_source := s\<rparr>) a = NextHop st'"
  then show "clean_hop st'" using judge_next [OF j] redirect_next_follow by (fastforce simp: clean_hop_def)
qed

lemma rules_step: "sends env st st' \<Longrightarrow> st_fetch_rules st' = st_fetch_rules st"
  by (erule sendsE) (auto dest!: judge_resend judge_next)

interpretation rules: loop_invariant env "\<lambda>st. clean_hop st \<and> st_fetch_rules st = fetch_rules" for env fetch_rules
  by unfold_locales (auto simp: rules_step intro: clean_hop_step)

text \<open>A header that only ever goes away.\<close>

definition only_removed :: "string \<Rightarrow> bool" where
  "only_removed n \<longleftrightarrow> n \<noteq> ''content-length''"

lemma follow_carried:
  assumes "only_removed n" "st_carried (follow st u m d) n \<noteq> []"
  shows "st_carried st n \<noteq> [] \<and> (n \<in> set ORIGIN_HEADERS \<longrightarrow> origin_eq (st_current st) u)"
proof -
  have "redirect_apply (st_carried st) (st_current st) u d n \<noteq> []"
    using assms by (auto simp: follow_def Let_def only_removed_def split: if_splits)
  then show ?thesis using redirect_apply_keeps redirect_apply_strips by blast
qed

lemma hop_headers_carry:
  assumes "hop_start env st = Inr h" "h n \<noteq> []" "n = ''proxy-authorization'' \<Longrightarrow> en_proxy_authorization env (hop_target st) = None"
  shows "st_carried st n \<noteq> []"
  using assms by (auto simp: hop_start_def hop_headers_def try_insert_def Let_def split: option.splits if_splits)

section \<open>The whole op\<close>

lemma fetch_op_cases [consumes 1, case_names refused sent]:
  assumes "fetch_op env req answers = res"
  obtains (refused) "fst res = []" "snd res \<noteq> None"
  | (sent) p source pin h where
      "prepare (en_crates env) (fr_url req) (unwrap_or ''GET'' (fr_method req)) (fr_headers req)
         (fr_default_headers req) (fr_user_agent req) = Inr p"
      "\<not> (fr_fetch_semantics req \<and> is_bad_port (pr_url p))"
      "source_of (en_crates env) req = Inr source"
      "hop_start env (initial_state req p source pin) = Inr h"
      "send_loop env (initial_state req p source pin) h answers = res"
  using assms
  by (auto simp: fetch_op_def run_loop_def split: sum.splits if_splits option.splits)

lemma initial_fields [simp]:
  "st_current (initial_state req p s pin) = pr_url p" "st_carried (initial_state req p s pin) = pr_headers p"
  "st_source (initial_state req p s pin) = s" "st_hops (initial_state req p s pin) = 0"
  "st_h2 (initial_state req p s pin) = 0" "st_stale (initial_state req p s pin) = False"
  "st_fetch_rules (initial_state req p s pin) = fr_fetch_semantics req"
  by (simp_all add: initial_state_def)

text \<open>How many more sends a state allows: four a hop, its own less the resends it has had.\<close>

definition sends_left :: "loop_state \<Rightarrow> nat" where
  "sends_left st = (MAX_REDIRECTS - st_hops st) * 4 + (MAX_H2_RETRIES - st_h2 st) + (if st_stale st then 0 else 1)"

definition counters_ok :: "loop_state \<Rightarrow> bool" where
  "counters_ok st \<longleftrightarrow> st_hops st \<le> MAX_REDIRECTS \<and> st_h2 st \<le> MAX_H2_RETRIES"

lemma again_decreases:
  "judge env (st\<lparr>st_source := s\<rparr>) a = Resend st' \<Longrightarrow> counters_ok st \<Longrightarrow>
     sends_left st' < sends_left st \<and> counters_ok st' \<and> st_hops st' = st_hops st"
  by (drule judge_resend) (auto simp: sends_left_def counters_ok_def)

lemma hop_decreases:
  assumes "judge env (st\<lparr>st_source := s\<rparr>) a = NextHop st'" "counters_ok st"
  shows "sends_left st' < sends_left st \<and> counters_ok st' \<and> st_hops st' = st_hops st + 1 \<and> st_hops st < MAX_REDIRECTS"
proof -
  obtain u m d where st': "st' = follow (st\<lparr>st_source := s\<rparr>) u m d" and "st_hops st < MAX_REDIRECTS"
    using judge_next [OF assms(1)] redirect_next_follow by fastforce
  then show ?thesis using assms(2) by (simp add: sends_left_def counters_ok_def MAX_H2_RETRIES_def)
qed

lemma send_loop_bounded:
  assumes "send_loop env st h answers = res" "counters_ok st"
  shows "length (fst res) \<le> sends_left st + 1" "sends_left st + 1 \<le> length answers \<Longrightarrow> snd res \<noteq> None"
    "\<forall>e. SendFailed e \<notin> set answers \<Longrightarrow> length (fst res) + st_hops st \<le> MAX_REDIRECTS + 1"
proof -
  have "counters_ok st \<Longrightarrow> length (fst res) \<le> sends_left st + 1 \<and> (sends_left st + 1 \<le> length answers \<longrightarrow> snd res \<noteq> None) \<and>
      ((\<forall>e. SendFailed e \<notin> set answers) \<longrightarrow> length (fst res) + st_hops st \<le> MAX_REDIRECTS + 1)"
    using assms(1)
  proof (induction rule: send_loop_induct)
    case (again st h s a answers st' rs out)
    have "\<exists>e. a = SendFailed e" using judge_resend [OF again(2)] by blast
    then show ?case using again_decreases [OF again(2,4)] again.IH by auto
  next
    case (hop st h s a answers st' h' rs out)
    then show ?case using hop_decreases [OF hop(2,5)] by auto
  qed (auto simp: counters_ok_def)
  then show "length (fst res) \<le> sends_left st + 1" "sends_left st + 1 \<le> length answers \<Longrightarrow> snd res \<noteq> None"
    "\<forall>e. SendFailed e \<notin> set answers \<Longrightarrow> length (fst res) + st_hops st \<le> MAX_REDIRECTS + 1"
    using assms(2) by blast+
qed

text \<open>What a header that belongs to the origin tells of the hops before it.\<close>

definition origin_secret :: "fetch_env \<Rightarrow> sent_request \<Rightarrow> string \<Rightarrow> bool" where
  "origin_secret env rq n \<longleftrightarrow> n \<in> set ORIGIN_HEADERS \<and> rq_headers rq n \<noteq> [] \<and>
     (n = ''proxy-authorization'' \<longrightarrow> en_proxy_authorization env (rq_target rq) = None)"

lemma secret_carried:
  assumes "hop_start env st = Inr h" "origin_secret env (request_of st h) n"
  shows "st_carried st n \<noteq> []"
  using hop_headers_carry [OF assms(1), of n] assms(2) by (auto simp: origin_secret_def request_of_def)

lemma origin_only_removed: "n \<in> set ORIGIN_HEADERS \<Longrightarrow> only_removed n"
  by (auto simp: ORIGIN_HEADERS_def only_removed_def)

lemma origin_eq_trans: "origin_eq a b \<Longrightarrow> origin_eq b c \<Longrightarrow> origin_eq a c"
  by (simp add: origin_eq_def)

lemma origins_Cons:
  assumes "origin_eq (st_current st) c" "\<forall>j \<le> k. origin_eq c (rq_url (rs ! j))" "j \<le> Suc k"
  shows "origin_eq (st_current st) (rq_url ((request_of st h # rs) ! j))"
proof (cases j)
  case 0
  then show ?thesis by (simp add: request_of_def origin_eq_def)
next
  case (Suc l)
  then show ?thesis using assms origin_eq_trans by auto
qed

lemma send_loop_secrets:
  assumes "send_loop env st h answers = res" "hop_start env st = Inr h" "i < length (fst res)" "origin_secret env (fst res ! i) n"
  shows "st_carried st n \<noteq> [] \<and> (\<forall>j \<le> i. origin_eq (st_current st) (rq_url (fst res ! j)))"
  using assms
proof (induction arbitrary: i rule: send_loop_induct)
  case (again st h s a answers st' rs out)
  have same: "st_current st' = st_current st" "st_pin st' = st_pin st" "st_carried st' = st_carried st"
    using judge_resend [OF again(2)] by auto
  have start: "hop_start env st' = Inr h" using hop_start_fields(1) [OF same] again.prems(1) by simp
  show ?case
  proof (cases i)
    case 0
    then show ?thesis using secret_carried [OF again.prems(1)] again.prems(3) by (simp add: request_of_def origin_eq_def)
  next
    case (Suc k)
    then have IH: "st_carried st n \<noteq> []" "\<forall>j \<le> k. origin_eq (st_current st) (rq_url (rs ! j))"
      using again.IH [OF start, of k] again.prems same by auto
    have "origin_eq (st_current st) (st_current st)" by (simp add: origin_eq_def)
    then show ?thesis using IH(1) origins_Cons [OF _ IH(2), of st _ h] Suc by simp
  qed
next
  case (hop st h s a answers st' h' rs out)
  obtain u m d where st': "st' = follow (st\<lparr>st_source := s\<rparr>) u m d" using judge_next [OF hop(2)] by blast
  show ?case
  proof (cases i)
    case 0
    then show ?thesis using secret_carried [OF hop.prems(1)] hop.prems(3) by (simp add: request_of_def origin_eq_def)
  next
    case (Suc k)
    then have IH: "st_carried st' n \<noteq> []" "\<forall>j \<le> k. origin_eq (st_current st') (rq_url (rs ! j))"
      using hop.IH [OF hop(3), of k] hop.prems by auto
    have "only_removed n" "n \<in> set ORIGIN_HEADERS" using hop.prems(3) origin_only_removed by (auto simp: origin_secret_def)
    then have prior: "st_carried st n \<noteq> []" "origin_eq (st_current st) (st_current st')"
      using follow_carried [of n "st\<lparr>st_source := s\<rparr>" u m d] IH(1) st' by auto
    show ?thesis using prior(1) origins_Cons [OF prior(2) IH(2)] Suc by simp
  qed
next
  case (waiting st h s)
  then show ?case using secret_carried by (auto simp: request_of_def origin_eq_def)
next
  case (finished st h s a answers out)
  then show ?case using secret_carried by (auto simp: request_of_def origin_eq_def)
next
  case (denied st h s a answers st' out)
  then show ?case using secret_carried by (auto simp: request_of_def origin_eq_def)
qed simp

text \<open>A streamed body is sent once.\<close>

lemma hop_drops_stream:
  assumes "build_body (st_source st) = Inr s" "judge env (st\<lparr>st_source := s\<rparr>) a = NextHop st'"
  shows "replayable (st_source st')"
proof (cases "replayable s")
  case True
  then show ?thesis using judge_next [OF assms(2)] by (auto simp: follow_def Let_def replayable_def)
next
  case False
  obtain r :: response and u m d where f: "st' = follow (st\<lparr>st_source := s\<rparr>) u m d"
    "redirect_next (en_crates env) (rs_status r) (st_method (st\<lparr>st_source := s\<rparr>)) (st_current (st\<lparr>st_source := s\<rparr>))
      (location_value (en_crates env) (rs_headers r)) (st_hops (st\<lparr>st_source := s\<rparr>)) (redirect_body_of (st\<lparr>st_source := s\<rparr>)) =
      Follow u m d"
    using judge_next [OF assms(2)] by blast
  then have "redirect_body_of (st\<lparr>st_source := s\<rparr>) \<noteq> Streamed" "redirect_body_of (st\<lparr>st_source := s\<rparr>) = StreamedFetch \<longrightarrow> d"
    using redirect_next_follow [OF f(2)] by auto
  then have "d \<or> redirect_body_of (st\<lparr>st_source := s\<rparr>) = UndiciIterable"
    using False by (auto simp: redirect_body_of_def Let_def split: if_splits)
  then show ?thesis using f(1) by (auto simp: follow_def Let_def replayable_def)
qed

definition streams :: "sent_request list \<Rightarrow> nat" where
  "streams rs = length (filter (\<lambda>rq. \<not> replayable (rq_body rq)) rs)"

definition unsent_source :: "body_source \<Rightarrow> bool" where
  "unsent_source s \<longleftrightarrow> replayable s \<or> (\<exists>handle. s = StreamBody handle False)"

lemma send_loop_streams:
  assumes "send_loop env st h answers = res" "unsent_source (st_source st)"
  shows "streams (fst res) = (if replayable (st_source st) then 0 else 1)"
  using assms
proof (induction rule: send_loop_induct)
  case (unbuilt st h answers t)
  then show ?case by (auto simp: build_body_def unsent_source_def replayable_def split: body_source.splits bool.splits)
next
  case (again st h s a answers st' rs out)
  have "replayable s" "st_source st' = s" using judge_resend [OF again(2)] by auto
  then have "replayable (st_source st)" "st_source st' = st_source st" using build_source [OF again(1)] by auto
  then show ?case using again.IH again.prems by (simp add: streams_def request_of_def)
next
  case (hop st h s a answers st' h' rs out)
  have "replayable (st_source st')" using hop_drops_stream [OF hop(1,2)] .
  then show ?case using hop.IH by (simp add: streams_def request_of_def unsent_source_def)
qed (simp_all add: streams_def request_of_def)

lemma source_unsent: "source_of cr req = Inr s \<Longrightarrow> unsent_source s"
  by (auto simp: source_of_def unsent_source_def replayable_def split: option.splits)

section \<open>Properties\<close>

text \<open>A concrete environment: one URL, which every Location leads back to, no proxy and no net check.\<close>

definition demo_url :: url where
  "demo_url = \<lparr>u_scheme = ''https'', u_username = [], u_password = None, u_host = Some ''a.org'', u_port = None, u_tail = ''/'',
     u_fragment = None\<rparr>"

definition demo_env :: fetch_env where
  "demo_env = \<lparr>en_crates = \<lparr>cr_parse = (\<lambda>_. Some demo_url), cr_join = (\<lambda>u t. Some u), cr_to_uri = (\<lambda>_. True),
       cr_percent_decode = Some, cr_base64 = id, cr_base64_decode = Some, cr_method = Some, cr_header_name = Some,
       cr_header_value = Some, cr_room = (\<lambda>_ _. True)\<rparr>,
     en_proxy_authorization = (\<lambda>_. None), en_net_check = None, en_canonical_reason = (\<lambda>_. None)\<rparr>"

definition demo_request :: fetch_request where
  "demo_request = \<lparr>fr_url = asc ''https://a.org/'', fr_method = None, fr_headers = [(''cookie'', asc ''k=v'')],
     fr_default_headers = False, fr_user_agent = [], fr_body_stream = None, fr_body = None, fr_body_base64 = None,
     fr_pin_origin = None, fr_redirect = FollowMode, fr_max_header_size = 16384, fr_fetch_semantics = True,
     fr_dispatch_semantics = False, fr_iterable_body = False\<rparr>"

definition demo_redirect :: send_answer where
  "demo_redirect = Answered \<lparr>rs_status = 302, rs_headers = [(''location'', ''/next'')], rs_http2 = False, rs_reason = None\<rparr> False"

text \<open>
  Property C13. A fetch ends: it sends at most 84 requests (21 hops of four sends), whatever the servers answer,
  and has its outcome once 84 sends are answered; where no send fails it sends at most 21, the first and one for each of
  the 20 redirects it follows.
\<close>

theorem fetch_requests_bounded:
  "length (fst (fetch_op env req answers)) \<le> 84 \<and>
   (84 \<le> length answers \<longrightarrow> snd (fetch_op env req answers) \<noteq> None) \<and>
   ((\<forall>e. SendFailed e \<notin> set answers) \<longrightarrow> length (fst (fetch_op env req answers)) \<le> 21)"
  using refl [of "fetch_op env req answers"]
proof (cases rule: fetch_op_cases)
  case refused
  then show ?thesis by simp
next
  case (sent p source pin h)
  have "counters_ok (initial_state req p source pin)" "sends_left (initial_state req p source pin) = 83"
    by (simp_all add: counters_ok_def sends_left_def MAX_REDIRECTS_def MAX_H2_RETRIES_def)
  then show ?thesis using send_loop_bounded [OF sent(5)] by (simp add: MAX_REDIRECTS_def)
qed

theorem fetch_requests_bounded_witness:
  "length (fst (fetch_op demo_env demo_request (replicate 84 demo_redirect))) \<le> 21 \<and>
   snd (fetch_op demo_env demo_request (replicate 84 demo_redirect)) \<noteq> None"
  using fetch_requests_bounded [of demo_env demo_request "replicate 84 demo_redirect"] by (simp add: demo_redirect_def)





text \<open>
  Property C18. A streamed body goes out once: of all the requests a fetch sends, resends and redirect hops included, at
  most one has it.
\<close>

theorem streamed_body_sent_once:
  "streams (fst (fetch_op env req answers)) \<le> 1"
  using refl [of "fetch_op env req answers"]
proof (cases rule: fetch_op_cases)
  case refused
  then show ?thesis by (simp add: streams_def)
next
  case (sent p source pin h)
  then show ?thesis using send_loop_streams [OF sent(5)] source_unsent [OF sent(3)] by simp
qed

end
