(* ===== verification/Spec2Isabelle.thy ===== *)
theory Spec2Isabelle
  imports Timers Http_Head Permissions Inflate Source_Map Cert_Verdict Fetch_Loop
begin

text \<open>
  A verification development for \<open>oam\<close>.
\<close>

end
